(* ===== verification/Rust_Prelude.thy ===== *)
theory Rust_Prelude
  imports Main "HOL-Library.Word" "HOL-Library.Signed_Division"
begin

text \<open>
  Shared vocabulary of the development: Rust's machine integers, byte slices and the little lemmas
  on lists and words that the component theories use.

  Integers keep their width. \<open>u8\<close> .. \<open>u128\<close> are words; \<open>i32\<close>, \<open>i64\<close>, \<open>i128\<close> are words of the
  same width read in two's complement with \<^const>\<open>sint\<close>. The workspace's release profile sets
  \<open>overflow-checks = false\<close> (src/Cargo.toml), so \<open>+\<close>, \<open>-\<close>, \<open>*\<close> wrap, as they do on words. A slice
  or vector is a list, and its length, an in-memory size, is a \<^typ>\<open>nat\<close>. What panics in every
  profile (an index or a slice range out of bounds, a division by zero, a failed \<open>assert!\<close>) is the
  value \<open>Panic\<close> of the type \<open>outcome\<close> wherever the code does not exclude it by a check.
\<close>

unbundle bit_operations_syntax

named_theorems slice_simps "reading back what was written into a byte buffer"
named_theorems nowrap "word operations read as natural numbers, when they do not wrap"

section \<open>Machine integers\<close>

type_synonym u8 = "8 word"
type_synonym u16 = "16 word"
type_synonym u32 = "32 word"
type_synonym u64 = "64 word"
type_synonym u128 = "128 word"
type_synonym i16 = "16 word"
type_synonym i32 = "32 word"
type_synonym i64 = "64 word"
type_synonym i128 = "128 word"
type_synonym bytes = "8 word list"

datatype 'a outcome = Ret 'a | Panic

text \<open>What follows a computation that may panic.\<close>

definition and_ret :: "'a outcome \<Rightarrow> ('a \<Rightarrow> 'b outcome) \<Rightarrow> 'b outcome" where
  "and_ret r f = (case r of Panic \<Rightarrow> Panic | Ret x \<Rightarrow> f x)"

lemma and_ret_simps [simp]: "and_ret (Ret x) f = f x" "and_ret Panic f = Panic"
  by (simp_all add: and_ret_def)

text \<open>A loop over a list whose body may panic.\<close>

fun foldl_ret :: "('s \<Rightarrow> 'a \<Rightarrow> 's outcome) \<Rightarrow> 's \<Rightarrow> 'a list \<Rightarrow> 's outcome" where
  "foldl_ret f s [] = Ret s"
| "foldl_ret f s (x # xs) = and_ret (f s x) (\<lambda>s'. foldl_ret f s' xs)"

lemma foldl_ret_append: "foldl_ret f s (xs @ ys) = and_ret (foldl_ret f s xs) (\<lambda>s'. foldl_ret f s' ys)"
proof (induction xs arbitrary: s)
  case (Cons x xs)
  then show ?case by (cases "f s x") simp_all
qed simp

text \<open>Rust's \<open>saturating_sub\<close> and \<open>saturating_add\<close> on unsigned integers.\<close>

definition saturating_sub :: "'a::len word \<Rightarrow> 'a word \<Rightarrow> 'a word" where
  "saturating_sub a b = (if b \<le> a then a - b else 0)"

definition saturating_add :: "'a::len word \<Rightarrow> 'a word \<Rightarrow> 'a word" where
  "saturating_add a b = (if unat a + unat b < 2 ^ LENGTH('a) then a + b else - 1)"

text \<open>Signed division truncates towards zero; \<open>i64::MIN / -1\<close> is not reached by the code.\<close>

definition sdivide :: "'a::len word \<Rightarrow> 'a word \<Rightarrow> 'a word" where
  "sdivide a b = word_of_int (sint a sdiv sint b)"

text \<open>Signed \<open>saturating_sub\<close> and \<open>saturating_mul\<close>: the exact result clamped to the type's range.\<close>

definition clamp_signed :: "int \<Rightarrow> 'a::len word" where
  "clamp_signed z = word_of_int (max (- (2 ^ (LENGTH('a) - 1))) (min (2 ^ (LENGTH('a) - 1) - 1) z))"

definition ssaturating_sub :: "'a::len word \<Rightarrow> 'a word \<Rightarrow> 'a word" where
  "ssaturating_sub a b = clamp_signed (sint a - sint b)"

definition ssaturating_mul :: "'a::len word \<Rightarrow> 'a word \<Rightarrow> 'a word" where
  "ssaturating_mul a b = clamp_signed (sint a * sint b)"

lemma unat_saturating_sub: "unat (saturating_sub a b) = unat a - unat b"
  by (simp add: saturating_sub_def unat_sub word_le_nat_alt)

lemma unat_add_nowrap [nowrap]:
  "unat a + unat b < 2 ^ LENGTH('a) \<Longrightarrow> unat (a + b) = unat a + unat b" for a b :: "'a::len word"
  using unat_add_lem by blast

lemma unat_mult_nowrap [nowrap]:
  "unat a * unat b < 2 ^ LENGTH('a) \<Longrightarrow> unat (a * b) = unat a * unat b" for a b :: "'a::len word"
  using unat_mult_lem by blast

lemma unat_sub_nowrap [nowrap]:
  "b \<le> a \<Longrightarrow> unat (a - b) = unat a - unat b" for a b :: "'a::len word"
  by (simp add: unat_sub)

lemma unat_Suc_nowrap [nowrap]:
  "unat a + 1 < 2 ^ LENGTH('a) \<Longrightarrow> unat (a + 1) = unat a + 1" for a :: "'a::len word"
  using unat_add_nowrap [of a 1] by simp

lemmas unat_div_mod [nowrap] = unat_div_distrib unat_mod_distrib

lemma unat_of_nat_small [nowrap]:
  "n < 2 ^ LENGTH('a) \<Longrightarrow> unat (of_nat n :: 'a::len word) = n"
  by (simp add: unat_of_nat take_bit_nat_eq_self)

lemma eq_of_nat: "unat w = n \<Longrightarrow> w = of_nat n" for w :: "'a::len word"
  by (drule sym) simp

lemma unat_less_power: "unat (a :: 'a::len word) < 2 ^ LENGTH('a)"
  by (rule unsigned_less)

text \<open>Signed readings of values in range.\<close>

lemma sint_of_int_range:
  assumes "- (2 ^ (LENGTH('a) - 1)) \<le> z" and "z < 2 ^ (LENGTH('a) - 1)"
  shows "sint (of_int z :: 'a::len word) = z"
  using signed_take_bit_int_eq_self [OF assms] by (simp add: signed_of_int)

lemma sint_of_nat_range:
  "n < 2 ^ (LENGTH('a) - 1) \<Longrightarrow> sint (of_nat n :: 'a::len word) = int n"
  using sint_of_int_range [of "int n"] by (simp add: order_trans [of _ 0])

lemma unat_of_sint_nonneg:
  fixes d :: "'a::len word"
  assumes "0 \<le> sint d"
  shows "unat d = nat (sint d)"
proof -
  have "sint d < 2 ^ (LENGTH('a) - 1)" by (rule sint_lt)
  also have "\<dots> \<le> 2 ^ LENGTH('a)" by (rule power_increasing) simp_all
  finally have "uint (word_of_int (sint d) :: 'a word) = sint d"
    using assms by (simp only: uint_word_of_int mod_pos_pos_trivial)
  then show ?thesis by (simp flip: nat_uint_eq)
qed

text \<open>Casts, masks and shifts as arithmetic.\<close>

lemma unat_ucast_mod: "unat (ucast x :: 'b::len word) = unat (x :: 'a::len word) mod 2 ^ LENGTH('b)"
  by (simp add: unsigned_ucast_eq take_bit_eq_mod)

lemma unat_ucast_up [simp]:
  "LENGTH('a) \<le> LENGTH('b) \<Longrightarrow> unat (ucast (x :: 'a::len word) :: 'b::len word) = unat x"
  by (metis mod_less order_less_le_trans power_increasing unat_less_power unat_ucast_mod one_le_numeral)

lemma unat_and_mask: "unat (x AND mask n) = unat (x :: 'a::len word) mod 2 ^ n"
  by (metis take_bit_eq_mask take_bit_eq_mod unsigned_take_bit_eq)

lemma unat_drop_bit: "unat (drop_bit n x) = unat (x :: 'a::len word) div 2 ^ n"
  by (metis drop_bit_eq_div unat_drop_bit_eq)

lemma unat_push_bit_nowrap [nowrap]:
  "unat x * 2 ^ n < 2 ^ LENGTH('a) \<Longrightarrow> unat (push_bit n x) = unat (x :: 'a::len word) * 2 ^ n"
  by (simp add: unsigned_push_bit_eq push_bit_nat_def take_bit_nat_eq_self)

lemma or_eq_add_disjoint:
  "unat y < 2 ^ n \<Longrightarrow> push_bit n x OR y = push_bit n x + (y :: 'a::len word)"
proof (rule disjunctive_add_eq_or [symmetric], rule bit_word_eqI)
  fix i
  assume "unat y < 2 ^ n"
  then have "\<not> bit y i" if "n \<le> i"
    using that by (metis bit_imp_le_length bit_take_bit_iff bit_unsigned_iff linorder_not_le
        take_bit_nat_eq_self possible_bit_nat)
  then show "bit (push_bit n x AND y) i = bit 0 i"
    by (auto simp: bit_simps)
qed

text \<open>\<open>usize::is_power_of_two\<close>, and \<open>x & (n - 1)\<close> for a power of two.\<close>

definition is_power_of_two :: "nat \<Rightarrow> bool" where
  "is_power_of_two n = list_ex (\<lambda>k. n = 2 ^ k) [0..<64]"

lemma power_of_two_mask:
  assumes "is_power_of_two n"
  shows "unat (c AND (of_nat n - 1) :: u64) = unat c mod n"
proof -
  obtain k where k: "n = 2 ^ k" "k < 64" using assms by (auto simp: is_power_of_two_def list_ex_iff)
  then have "of_nat n - 1 = (mask k :: u64)" by (simp add: mask_eq_exp_minus_1)
  then show ?thesis by (simp add: unat_and_mask k)
qed

lemma power_of_two_bounds: "is_power_of_two n \<Longrightarrow> 0 < n \<and> n \<le> 2 ^ 63"
proof -
  assume "is_power_of_two n"
  then obtain k where k: "n = 2 ^ k" "k \<le> 63" by (auto simp: is_power_of_two_def list_ex_iff)
  then show ?thesis using power_increasing [of k 63 "2 :: nat"] by simp
qed

text \<open>\<open>usize::next_power_of_two\<close>; above \<open>2 ^ 63\<close> it wraps to zero.\<close>

definition next_power_of_two :: "nat \<Rightarrow> nat" where
  "next_power_of_two n = (case find (\<lambda>k. n \<le> 2 ^ k) [0..<64] of Some k \<Rightarrow> 2 ^ k | None \<Rightarrow> 0)"

lemma next_power_of_two_props:
  assumes "n \<le> 2 ^ 63"
  shows "is_power_of_two (next_power_of_two n) \<and> n \<le> next_power_of_two n"
proof -
  have "find (\<lambda>k. n \<le> 2 ^ k) [0..<64] \<noteq> None" using assms by (auto simp: find_None_iff intro!: exI [of _ 63])
  then obtain k where k: "find (\<lambda>k. n \<le> 2 ^ k) [0..<64] = Some k" by blast
  then have "n \<le> 2 ^ k" "k < 64" by (auto simp: find_Some_iff)
  then show ?thesis by (auto simp: next_power_of_two_def k is_power_of_two_def list_ex_iff intro!: bexI [of _ k])
qed

lemma mod_neq_window: "i < j \<Longrightarrow> j < i + n \<Longrightarrow> i mod n \<noteq> j mod n" for i j n :: nat
  by (metis add_diff_inverse_nat add_less_cancel_left mod_eq_dvd_iff_nat nat_dvd_not_less less_imp_le_nat
      not_less_iff_gr_or_eq zero_less_diff)

section \<open>Byte strings\<close>

text \<open>A Rust byte-string literal.\<close>

definition bstr :: "string \<Rightarrow> bytes" where
  "bstr s = map of_char s"

lemma length_bstr [simp]: "length (bstr s) = length s"
  by (simp add: bstr_def)

section \<open>Slices\<close>

text \<open>
  \<open>subslice buf off n\<close> is \<open>&buf[off .. off + n]\<close>, and \<open>write_at buf off bs\<close> is
  \<open>buf[off .. off + bs.len()].copy_from_slice(bs)\<close>. The code checks the length of the buffer first,
  so both ranges are in bounds where the model uses them.
\<close>

definition subslice :: "'a list \<Rightarrow> nat \<Rightarrow> nat \<Rightarrow> 'a list" where
  "subslice buf off n = take n (drop off buf)"

definition write_at :: "'a list \<Rightarrow> nat \<Rightarrow> 'a list \<Rightarrow> 'a list" where
  "write_at buf off bs = take off buf @ bs @ drop (off + length bs) buf"

lemma length_write_at [simp, slice_simps]:
  "off + length bs \<le> length buf \<Longrightarrow> length (write_at buf off bs) = length buf"
  by (simp add: write_at_def)

lemma length_slice [slice_simps]: "off + n \<le> length buf \<Longrightarrow> length (subslice buf off n) = n"
  by (simp add: subslice_def)

lemma slice_write_same [slice_simps]:
  "off + length bs \<le> length buf \<Longrightarrow> n = length bs \<Longrightarrow> subslice (write_at buf off bs) off n = bs"
  by (simp add: subslice_def write_at_def)

lemma nth_write_at:
  "off + length bs \<le> length buf \<Longrightarrow> i < length buf \<Longrightarrow>
   write_at buf off bs ! i = (if off \<le> i \<and> i < off + length bs then bs ! (i - off) else buf ! i)"
  by (auto simp: write_at_def nth_append)

lemma nth_slice: "off + n \<le> length buf \<Longrightarrow> i < n \<Longrightarrow> subslice buf off n ! i = buf ! (off + i)"
  by (simp add: subslice_def)

lemma slice_write_other [slice_simps]:
  assumes "off + length bs \<le> length buf" and "o' + n \<le> length buf"
    and "o' + n \<le> off \<or> off + length bs \<le> o'"
  shows "subslice (write_at buf off bs) o' n = subslice buf o' n"
proof (rule nth_equalityI)
  show "length (subslice (write_at buf off bs) o' n) = length (subslice buf o' n)"
    using assms by (simp add: subslice_def)
  fix i assume "i < length (subslice (write_at buf off bs) o' n)"
  then have "i < n" using assms by (simp add: subslice_def)
  with assms show "subslice (write_at buf off bs) o' n ! i = subslice buf o' n ! i"
    by (auto simp: nth_slice nth_write_at)
qed

lemma drop_write_at [slice_simps]:
  "off + length bs \<le> n \<Longrightarrow> n \<le> length buf \<Longrightarrow> drop n (write_at buf off bs) = drop n buf"
  by (simp add: write_at_def)

lemma take_write_at [slice_simps]:
  "n \<le> off \<Longrightarrow> off + length bs \<le> length buf \<Longrightarrow> take n (write_at buf off bs) = take n buf"
  by (simp add: write_at_def min_absorb1)

lemma slice_take [slice_simps]: "off + n \<le> m \<Longrightarrow> subslice (take m buf) off n = subslice buf off n"
  by (simp add: subslice_def drop_take min_absorb1)

lemma nth_singleton_slice: "i < length buf \<Longrightarrow> buf ! i = hd (subslice buf i 1)"
  by (simp add: subslice_def hd_drop_conv_nth take_Suc)

section \<open>Searching\<close>

text \<open>\<open>str::find\<close> and \<open>str::contains\<close> on the bytes of the strings: the first position of a pattern.\<close>

fun str_find :: "bytes \<Rightarrow> bytes \<Rightarrow> nat option" where
  "str_find pat [] = (if pat = [] then Some 0 else None)"
| "str_find pat (c # cs) = (if take (length pat) (c # cs) = pat then Some 0 else map_option Suc (str_find pat cs))"

definition str_contains :: "bytes \<Rightarrow> bytes \<Rightarrow> bool" where
  "str_contains pat s \<longleftrightarrow> str_find pat s \<noteq> None"

lemma str_find_skip:
  "pat \<noteq> [] \<Longrightarrow> hd pat \<notin> set xs \<Longrightarrow> str_find pat (xs @ ys) = map_option (\<lambda>k. length xs + k) (str_find pat ys)"
  by (induction xs; cases "str_find pat ys") (auto simp: neq_Nil_conv)

lemma str_find_Some:
  "str_find pat s = Some k \<Longrightarrow> k + length pat \<le> length s \<and> subslice s k (length pat) = pat"
proof (induction pat s arbitrary: k rule: str_find.induct)
  case (2 pat c cs)
  show ?case
  proof (cases "take (length pat) (c # cs) = pat")
    case True
    then have "length pat \<le> length (c # cs)" by (metis length_take min.cobounded1)
    then show ?thesis using True 2(2) by (simp add: subslice_def)
  next
    case False
    then obtain j where "str_find pat cs = Some j" "k = Suc j" using 2(2) by auto
    then show ?thesis using 2(1) [OF False] by (simp add: subslice_def)
  qed
qed (auto simp: subslice_def split: if_splits)

section \<open>Little- and big-endian bytes\<close>

text \<open>\<open>to_le n w\<close> is \<open>w.to_le_bytes()\<close> for an \<open>n\<close>-byte integer; \<open>to_be\<close> is \<open>to_be_bytes\<close>.\<close>

fun to_le :: "nat \<Rightarrow> 'a::len word \<Rightarrow> bytes" where
  "to_le 0 w = []"
| "to_le (Suc n) w = ucast w # to_le n (drop_bit 8 w)"

fun from_le :: "bytes \<Rightarrow> 'a::len word" where
  "from_le [] = 0"
| "from_le (b # bs) = ucast b OR push_bit 8 (from_le bs)"

definition to_be :: "nat \<Rightarrow> 'a::len word \<Rightarrow> bytes" where
  "to_be n w = rev (to_le n w)"

definition from_be :: "bytes \<Rightarrow> 'a::len word" where
  "from_be bs = from_le (rev bs)"

lemma length_to_le [simp, slice_simps]: "length (to_le n w) = n"
  by (induction n arbitrary: w) auto

lemma length_to_be [simp, slice_simps]: "length (to_be n w) = n"
  by (simp add: to_be_def)

lemma from_le_to_le: "(from_le (to_le n w) :: 'a::len word) = take_bit (8 * n) w"
proof (induction n arbitrary: w)
  case (Suc n)
  show ?case
    by (rule bit_word_eqI) (auto simp: Suc.IH bit_simps not_less le_diff_conv2)
qed simp

lemma from_le_to_le_id [simp]:
  "LENGTH('a) = 8 * n \<Longrightarrow> (from_le (to_le n w) :: 'a::len word) = w"
  by (metis from_le_to_le take_bit_length_eq)

lemma from_be_to_be_id [simp]:
  "LENGTH('a) = 8 * n \<Longrightarrow> (from_be (to_be n w) :: 'a::len word) = w"
  by (simp add: from_be_def to_be_def)

lemma to_le_from_le:
  "8 * length bs \<le> LENGTH('a) \<Longrightarrow> to_le (length bs) (from_le bs :: 'a::len word) = bs"
proof (induction bs)
  case (Cons b bs)
  have "ucast (ucast b OR push_bit 8 (from_le bs :: 'a word)) = b"
    using Cons.prems by (intro bit_word_eqI) (auto simp: bit_simps)
  moreover have "drop_bit 8 (ucast b OR push_bit 8 (from_le bs)) = take_bit (LENGTH('a) - 8) (from_le bs :: 'a word)"
    using Cons.prems by (intro bit_word_eqI) (auto simp: bit_simps dest: bit_imp_le_length)
  moreover have "to_le n (take_bit m (w :: 'a word)) = to_le n w" if "8 * n \<le> m" for n m w
    using that
  proof (induction n arbitrary: w m)
    case (Suc n)
    have "ucast (take_bit m w) = (ucast w :: u8)"
      using Suc.prems by (intro bit_word_eqI) (auto simp: bit_simps)
    moreover have "drop_bit 8 (take_bit m w) = take_bit (m - 8) (drop_bit 8 w)"
      by (simp add: drop_bit_take_bit)
    ultimately show ?case using Suc by simp
  qed simp
  ultimately show ?case using Cons by simp
qed simp

section \<open>Lists\<close>

lemma nth_list_update_if:
  "i < length xs \<Longrightarrow> xs[i := v] ! j = (if i = j then v else xs ! j)"
  by (simp add: nth_list_update)

end
