(* ===== verification/Topic_Key.thy ===== *)
theory Topic_Key
  imports Rust_Prelude
begin

text \<open>
  The 64-bit topic key of \<open>src/crates/distribution/src/lib.rs\<close>: venue (8 bits), market (24 bits),
  stream type (8 bits) and flags (24 bits) packed with shifts and masks, and the four accessors.
\<close>

datatype TopicKey = TopicKey (topic_bits: u64)

definition topic_new :: "u8 \<Rightarrow> u32 \<Rightarrow> u8 \<Rightarrow> u32 \<Rightarrow> TopicKey" where
  "topic_new venue_id market_id stream_type flags =
     (let key = push_bit 56 (ucast venue_id)
                OR push_bit 32 (ucast (market_id AND 0x00FFFFFF))
                OR push_bit 24 (ucast stream_type)
                OR ucast (flags AND 0x00FFFFFF)
      in TopicKey key)"

definition topic_venue_id :: "TopicKey \<Rightarrow> u8" where
  "topic_venue_id k = ucast (drop_bit 56 (topic_bits k))"

definition topic_market_id :: "TopicKey \<Rightarrow> u32" where
  "topic_market_id k = ucast (drop_bit 32 (topic_bits k) AND 0x00FFFFFF)"

definition topic_stream_type :: "TopicKey \<Rightarrow> u8" where
  "topic_stream_type k = ucast (drop_bit 24 (topic_bits k) AND 0xFF)"

definition topic_flags :: "TopicKey \<Rightarrow> u32" where
  "topic_flags k = ucast (topic_bits k AND 0x00FFFFFF)"

lemma mask_24_word: "(0x00FFFFFF :: 'a::len word) = mask 24"
  by (simp add: mask_eq_exp_minus_1)

lemma mask_8_word: "(0xFF :: 'a::len word) = mask 8"
  by (simp add: mask_eq_exp_minus_1)

lemmas topic_defs = topic_new_def topic_venue_id_def topic_market_id_def topic_stream_type_def
  topic_flags_def mask_24_word mask_8_word Let_def

lemma topic_venue_id_new: "topic_venue_id (topic_new v m s f) = v"
  by (rule bit_word_eqI) (auto simp: topic_defs bit_simps dest: bit_imp_le_length)

lemma topic_market_id_new: "topic_market_id (topic_new v m s f) = m AND mask 24"
  by (rule bit_word_eqI) (auto simp: topic_defs bit_simps dest: bit_imp_le_length)

lemma topic_stream_type_new: "topic_stream_type (topic_new v m s f) = s"
  by (rule bit_word_eqI) (auto simp: topic_defs bit_simps dest: bit_imp_le_length)

lemma topic_flags_new: "topic_flags (topic_new v m s f) = f AND mask 24"
  by (rule bit_word_eqI) (auto simp: topic_defs bit_simps dest: bit_imp_le_length)

lemmas topic_accessors = topic_venue_id_new topic_market_id_new topic_stream_type_new topic_flags_new

lemma bit_topic_new:
  "bit (topic_bits (topic_new v m s f)) n \<longleftrightarrow> n < 64 \<and>
     (if n < 24 then bit f n else if n < 32 then bit s (n - 24)
      else if n < 56 then bit m (n - 32) else bit v (n - 56))"
  by (auto simp: topic_defs bit_simps dest: bit_imp_le_length)

lemma bit_accessors:
  "bit (topic_venue_id k) i \<longleftrightarrow> i < 8 \<and> bit (topic_bits k) (56 + i)"
  "bit (topic_market_id k) i \<longleftrightarrow> i < 24 \<and> bit (topic_bits k) (32 + i)"
  "bit (topic_stream_type k) i \<longleftrightarrow> i < 8 \<and> bit (topic_bits k) (24 + i)"
  "bit (topic_flags k) i \<longleftrightarrow> i < 24 \<and> bit (topic_bits k) i"
  by (auto simp: topic_defs bit_simps)

lemma topic_new_accessors: "topic_new (topic_venue_id k) (topic_market_id k) (topic_stream_type k) (topic_flags k) = k"
proof (rule TopicKey.expand, rule bit_word_eqI)
  fix n
  show "bit (topic_bits (topic_new (topic_venue_id k) (topic_market_id k) (topic_stream_type k) (topic_flags k))) n
      = bit (topic_bits k) n"
    using bit_imp_le_length [of "topic_bits k" n] by (auto simp: bit_topic_new bit_accessors)
qed

lemma and_mask_24_cong: "a AND mask 24 = b AND mask 24 \<longleftrightarrow> unat a mod 2 ^ 24 = unat b mod 2 ^ 24" for a b :: u32
  by (metis (no_types) take_bit_eq_mask unsigned_take_bit_eq take_bit_eq_mod word_unat_eq_iff)

text \<open>A topic key packs without interference: the accessors return the venue and stream type
  unchanged and the market and flags modulo \<open>2 ^ 24\<close>, every 64-bit key is the packing of its own
  accessors, and two keys are equal exactly when all four fields agree in the bits the layout keeps. So
  market ids that differ by a multiple of \<open>2 ^ 24\<close> share one topic.\<close>

theorem topic_key_packing:
  "topic_venue_id (topic_new v m s f) = v \<and>
   unat (topic_market_id (topic_new v m s f)) = unat m mod 2 ^ 24 \<and>
   topic_stream_type (topic_new v m s f) = s \<and>
   unat (topic_flags (topic_new v m s f)) = unat f mod 2 ^ 24 \<and>
   topic_new (topic_venue_id k) (topic_market_id k) (topic_stream_type k) (topic_flags k) = k \<and>
   (topic_new v m s f = topic_new v' m' s' f' \<longleftrightarrow>
      v = v' \<and> unat m mod 2 ^ 24 = unat m' mod 2 ^ 24 \<and> s = s' \<and> unat f mod 2 ^ 24 = unat f' mod 2 ^ 24)"
proof -
  have un: "unat (x AND mask 24) = unat x mod 2 ^ 24" for x :: u32
    by (metis take_bit_eq_mask take_bit_eq_mod unsigned_take_bit_eq)
  have "topic_new v m s f = topic_new v' m' s' f' \<longleftrightarrow>
      v = v' \<and> m AND mask 24 = m' AND mask 24 \<and> s = s' \<and> f AND mask 24 = f' AND mask 24"
    by (metis topic_accessors topic_new_accessors)
  then show ?thesis
    by (simp add: topic_accessors topic_new_accessors un and_mask_24_cong)
qed

end
