(* ===== verification/Client_Bitmap.thy ===== *)
theory Client_Bitmap
  imports Rust_Prelude
begin

text \<open>
  The client bitmap of \<open>src/crates/distribution/src/bitmap.rs\<close>: sixteen 64-bit words, one bit per
  client id below 1024. The operations are translated word for word; the interface
  \<open>client_index\<close> states them as operations on a set of client ids, and the two enumerations
  (\<open>for_each\<close>, which clears the lowest set bit in a loop, and the iterator) are shown to list
  exactly the members in ascending order.
\<close>

section \<open>State and operations\<close>

definition DEFAULT_BITMAP_WORDS :: nat where "DEFAULT_BITMAP_WORDS = 16"
definition MAX_CLIENT_CAPACITY :: nat where "MAX_CLIENT_CAPACITY = DEFAULT_BITMAP_WORDS * 64"

record ClientBitmap =
  bm_words :: "u64 list"

definition bitmap_new :: ClientBitmap where
  "bitmap_new = \<lparr>bm_words = replicate DEFAULT_BITMAP_WORDS 0\<rparr>"

definition bitmap_insert :: "ClientBitmap \<Rightarrow> u32 \<Rightarrow> ClientBitmap \<times> bool" where
  "bitmap_insert b client_id =
     (let idx = unat client_id; word_idx = idx div 64; bit_idx = idx mod 64
      in if word_idx < DEFAULT_BITMAP_WORDS
         then let mask = push_bit bit_idx (1 :: u64);
                  already_set = (bm_words b ! word_idx AND mask) \<noteq> 0
              in (b\<lparr>bm_words := (bm_words b)[word_idx := bm_words b ! word_idx OR mask]\<rparr>, \<not> already_set)
         else (b, False))"

definition bitmap_remove :: "ClientBitmap \<Rightarrow> u32 \<Rightarrow> ClientBitmap \<times> bool" where
  "bitmap_remove b client_id =
     (let idx = unat client_id; word_idx = idx div 64; bit_idx = idx mod 64
      in if word_idx < DEFAULT_BITMAP_WORDS
         then let mask = push_bit bit_idx (1 :: u64);
                  was_set = (bm_words b ! word_idx AND mask) \<noteq> 0
              in (b\<lparr>bm_words := (bm_words b)[word_idx := bm_words b ! word_idx AND NOT mask]\<rparr>, was_set)
         else (b, False))"

definition bitmap_contains :: "ClientBitmap \<Rightarrow> u32 \<Rightarrow> bool" where
  "bitmap_contains b client_id =
     (let idx = unat client_id; word_idx = idx div 64; bit_idx = idx mod 64
      in if word_idx < DEFAULT_BITMAP_WORDS
         then (bm_words b ! word_idx AND push_bit bit_idx 1) \<noteq> 0
         else False)"

definition bitmap_is_empty :: "ClientBitmap \<Rightarrow> bool" where
  "bitmap_is_empty b = list_all (\<lambda>w. w = 0) (bm_words b)"

text \<open>Rust's \<open>count_ones\<close> and \<open>trailing_zeros\<close> on \<open>u64\<close>.\<close>

definition count_ones :: "u64 \<Rightarrow> nat" where
  "count_ones w = length (filter (bit w) [0..<64])"

definition trailing_zeros :: "u64 \<Rightarrow> nat" where
  "trailing_zeros w = length (takeWhile (\<lambda>i. \<not> bit w i) [0..<64])"

definition bitmap_count :: "ClientBitmap \<Rightarrow> nat" where
  "bitmap_count b = sum_list (map count_ones (bm_words b))"

definition bitmap_clear :: "ClientBitmap \<Rightarrow> ClientBitmap" where
  "bitmap_clear b = b\<lparr>bm_words := replicate DEFAULT_BITMAP_WORDS 0\<rparr>"

definition bitmap_intersect :: "ClientBitmap \<Rightarrow> ClientBitmap \<Rightarrow> ClientBitmap" where
  "bitmap_intersect a b =
     \<lparr>bm_words = map (\<lambda>i. bm_words a ! i AND bm_words b ! i) [0..<DEFAULT_BITMAP_WORDS]\<rparr>"

definition bitmap_union :: "ClientBitmap \<Rightarrow> ClientBitmap \<Rightarrow> ClientBitmap" where
  "bitmap_union a b =
     \<lparr>bm_words = map (\<lambda>i. bm_words a ! i OR bm_words b ! i) [0..<DEFAULT_BITMAP_WORDS]\<rparr>"

text \<open>The inner loop of \<open>for_each\<close>: emit the lowest set bit and clear it. The callback receives the
  ids in the order of the result list.\<close>

function for_each_word :: "u32 \<Rightarrow> u64 \<Rightarrow> u32 list" where
  "for_each_word base_id w =
     (if w \<noteq> 0 then (base_id + of_nat (trailing_zeros w)) # for_each_word base_id (w AND (w - 1)) else [])"
  by pat_completeness auto
termination
proof (relation "measure (\<lambda>(_, w). unat w)")
  fix w :: u64 and base_id :: u32
  assume "w \<noteq> 0"
  have "w AND (w - 1) \<le> w - 1" by (rule word_and_le1)
  also have "w - 1 < w" using \<open>w \<noteq> 0\<close>
    by (metis linorder_not_le measure_unat unat_sub_if_size word_less_nat_alt)
  finally show "((base_id, w AND (w - 1)), (base_id, w)) \<in> measure (\<lambda>(_, w). unat w)"
    by (simp add: word_less_nat_alt)
qed simp

declare for_each_word.simps [simp del]

definition bitmap_for_each :: "ClientBitmap \<Rightarrow> u32 list" where
  "bitmap_for_each b =
     concat (map (\<lambda>(word_idx, w). for_each_word (of_nat (word_idx * 64)) w) (enumerate 0 (bm_words b)))"

record ClientBitmapIter =
  it_bitmap :: ClientBitmap
  it_word_idx :: nat
  it_current_word :: u64

definition bitmap_iter :: "ClientBitmap \<Rightarrow> ClientBitmapIter" where
  "bitmap_iter b = \<lparr>it_bitmap = b, it_word_idx = 0, it_current_word = bm_words b ! 0\<rparr>"

text \<open>The \<open>while\<close> loop of \<open>next\<close>: skip to the next nonzero word, or stop behind the last one.\<close>

function iter_skip :: "ClientBitmapIter \<Rightarrow> ClientBitmapIter option" where
  "iter_skip it =
     (if it_current_word it = 0
      then let wi = it_word_idx it + 1
           in if wi \<ge> DEFAULT_BITMAP_WORDS then None
              else iter_skip (it\<lparr>it_word_idx := wi, it_current_word := bm_words (it_bitmap it) ! wi\<rparr>)
      else Some it)"
  by pat_completeness auto
termination
  by (relation "measure (\<lambda>it. DEFAULT_BITMAP_WORDS - it_word_idx it)") (auto simp: Let_def)

declare iter_skip.simps [simp del]

definition iter_next :: "ClientBitmapIter \<Rightarrow> (u32 \<times> ClientBitmapIter) option" where
  "iter_next it =
     (case iter_skip it of
        None \<Rightarrow> None
      | Some it \<Rightarrow>
          let client_id = of_nat (it_word_idx it * 64) + of_nat (trailing_zeros (it_current_word it))
          in Some (client_id,
               it\<lparr>it_current_word := it_current_word it AND (it_current_word it - 1)\<rparr>))"

section \<open>One word\<close>

lemma and_exp_iff [simp]: "w AND 2 ^ i = 0 \<longleftrightarrow> \<not> bit w i" for w :: u64
  using bit_iff_and_push_bit_not_eq_0 [of w i] by (simp add: push_bit_eq_mult)

lemma word_eq_0_iff_bits: "w = 0 \<longleftrightarrow> (\<forall>i<64. \<not> bit w i)" for w :: u64
  by (auto simp: bit_eq_iff dest: bit_imp_le_length)

lemma trailing_zeros_props:
  assumes "w \<noteq> 0"
  shows "bit w (trailing_zeros w)" "trailing_zeros w < 64" "\<And>i. i < trailing_zeros w \<Longrightarrow> \<not> bit w i"
proof -
  let ?P = "\<lambda>i. \<not> bit w i"
  have "\<exists>i\<in>set [0..<64]. \<not> ?P i" using assms by (auto simp: word_eq_0_iff_bits)
  then have lt: "length (takeWhile ?P [0..<64]) < length [0..<64 :: nat]"
    by (metis length_takeWhile_le nat_less_le takeWhile_eq_all_conv takeWhile_eq_take take_all_iff order_refl)
  from nth_length_takeWhile [OF lt] lt show "bit w (trailing_zeros w)"
    by (simp add: trailing_zeros_def)
  from lt show "trailing_zeros w < 64" by (simp add: trailing_zeros_def)
  fix i assume i: "i < trailing_zeros w"
  have "takeWhile ?P [0..<64] ! i \<in> set (takeWhile ?P [0..<64])"
    using i by (simp add: trailing_zeros_def)
  then have "?P (takeWhile ?P [0..<64] ! i)" by (metis set_takeWhileD)
  moreover have "takeWhile ?P [0..<64] ! i = i"
    using i lt by (simp add: trailing_zeros_def takeWhile_nth)
  ultimately show "\<not> bit w i" by simp
qed

text \<open>\<open>w & (w - 1)\<close> clears the lowest set bit and nothing else.\<close>

lemma bit_clear_lowest:
  fixes w :: u64
  assumes "w \<noteq> 0"
  shows "bit (w AND (w - 1)) i \<longleftrightarrow> bit w i \<and> i \<noteq> trailing_zeros w"
proof -
  let ?t = "trailing_zeros w"
  note tz = trailing_zeros_props [OF assms]
  define h where "h = push_bit (Suc ?t) (drop_bit (Suc ?t) w)"
  have bh: "bit h j \<longleftrightarrow> bit w j \<and> ?t < j" for j
    by (auto simp: h_def bit_simps simp del: push_bit_Suc dest: bit_imp_le_length)
  have bp: "bit (2 ^ ?t :: u64) j \<longleftrightarrow> j = ?t" for j
    using tz(2) by (auto simp: bit_exp_iff)
  have "w = h OR 2 ^ ?t"
  proof (rule bit_word_eqI)
    fix j
    show "bit w j = bit (h OR 2 ^ ?t) j"
      using tz(1) tz(3) [of j] by (cases j ?t rule: linorder_cases) (auto simp: bit_or_iff bh bp)
  qed
  also have "\<dots> = h + 2 ^ ?t"
    by (rule disjunctive_add_eq_or [symmetric], rule bit_word_eqI) (auto simp: bit_and_iff bh bp)
  finally have "w - 1 = h + mask ?t"
    by (simp add: mask_eq_exp_minus_1)
  also have "\<dots> = h OR mask ?t"
    by (rule disjunctive_add_eq_or, rule bit_word_eqI) (auto simp: bit_and_iff bh bit_mask_iff)
  finally have "bit (w - 1) i \<longleftrightarrow> (bit w i \<and> ?t < i) \<or> (i < ?t \<and> i < 64)"
    by (auto simp: bit_or_iff bh bit_mask_iff)
  then show ?thesis using tz(3) [of i] by (auto simp: bit_and_iff)
qed

lemma filter_bits_split:
  assumes "w \<noteq> 0"
  shows "filter (bit w) [0..<64] = trailing_zeros w # filter (bit (w AND (w - 1))) [0..<64]"
proof -
  let ?t = "trailing_zeros w"
  note tz = trailing_zeros_props [OF assms]
  have split: "[0..<64] = [0..<?t] @ ?t # [Suc ?t..<64]"
    using tz(2) by (metis upt_add_eq_append le0 le_add_diff_inverse less_imp_le upt_conv_Cons)
  have low: "filter Q [0..<?t] = []" if "\<And>i. Q i \<Longrightarrow> bit w i" for Q
    using tz(3) that by (fastforce simp: filter_empty_conv)
  have high: "filter (bit w) [Suc ?t..<64] = filter (bit (w AND (w - 1))) [Suc ?t..<64]"
    by (rule filter_cong) (auto simp: bit_clear_lowest [OF assms])
  show ?thesis
    unfolding split
    using tz(1) low [of "bit w"] low [of "bit (w AND (w - 1))"] high
    by (simp add: bit_clear_lowest [OF assms] del: upt_Suc)
qed

lemma for_each_word_bits:
  "for_each_word base_id w = map (\<lambda>i. base_id + of_nat i) (filter (bit w) [0..<64])"
proof (induction base_id w rule: for_each_word.induct)
  case (1 base_id w)
  show ?case
  proof (cases "w = 0")
    case True
    then show ?thesis by (simp add: for_each_word.simps)
  next
    case False
    then show ?thesis
      using "1.IH" [OF False] filter_bits_split [OF False]
      by (simp add: for_each_word.simps [of base_id w] del: upt_Suc)
  qed
qed

section \<open>The bitmap as a set of client ids\<close>

definition bitmap_inv :: "ClientBitmap \<Rightarrow> bool" where
  "bitmap_inv b \<longleftrightarrow> length (bm_words b) = DEFAULT_BITMAP_WORDS"

definition bitmap_set :: "ClientBitmap \<Rightarrow> u32 set" where
  "bitmap_set b = {c. bitmap_contains b c}"

lemmas bitmap_ops = bitmap_new_def bitmap_insert_def bitmap_remove_def bitmap_contains_def
  bitmap_clear_def bitmap_intersect_def bitmap_union_def bitmap_is_empty_def

lemma bitmap_contains_bit:
  "bitmap_contains b c \<longleftrightarrow>
     unat c div 64 < DEFAULT_BITMAP_WORDS \<and> bit (bm_words b ! (unat c div 64)) (unat c mod 64)"
  by (auto simp: bitmap_contains_def Let_def)

lemma word_idx_bound: "unat c div 64 < DEFAULT_BITMAP_WORDS \<longleftrightarrow> unat c < MAX_CLIENT_CAPACITY"
  by (auto simp: DEFAULT_BITMAP_WORDS_def MAX_CLIENT_CAPACITY_def)

lemma div_mod_64_cong: "(n div 64 = m div 64 \<and> n mod 64 = m mod 64) \<longleftrightarrow> n = (m :: nat)"
  by (metis div_mult_mod_eq)

lemma bitmap_contains_new [simp]: "\<not> bitmap_contains bitmap_new c"
  by (simp add: bitmap_contains_bit bitmap_new_def)

lemma bitmap_contains_insert:
  assumes "bitmap_inv b"
  shows "bitmap_contains (fst (bitmap_insert b c)) d \<longleftrightarrow>
     bitmap_contains b d \<or> (d = c \<and> unat c < MAX_CLIENT_CAPACITY)"
proof (cases "unat c div 64 < DEFAULT_BITMAP_WORDS")
  case True
  have "d = c \<longleftrightarrow> unat d div 64 = unat c div 64 \<and> unat d mod 64 = unat c mod 64"
    by (simp add: div_mod_64_cong word_unat_eq_iff)
  with True assms show ?thesis
    by (auto simp: bitmap_insert_def bitmap_contains_bit Let_def bitmap_inv_def nth_list_update
        bit_or_iff bit_exp_iff simp flip: word_idx_bound)
next
  case False
  then show ?thesis by (auto simp: bitmap_insert_def Let_def simp flip: word_idx_bound)
qed

lemma bitmap_contains_remove:
  assumes "bitmap_inv b"
  shows "bitmap_contains (fst (bitmap_remove b c)) d \<longleftrightarrow> bitmap_contains b d \<and> d \<noteq> c"
proof (cases "unat c div 64 < DEFAULT_BITMAP_WORDS")
  case True
  have "d = c \<longleftrightarrow> unat d div 64 = unat c div 64 \<and> unat d mod 64 = unat c mod 64"
    by (simp add: div_mod_64_cong word_unat_eq_iff)
  with True assms show ?thesis
    by (auto simp: bitmap_remove_def bitmap_contains_bit Let_def bitmap_inv_def nth_list_update
        bit_and_iff bit_not_iff bit_exp_iff)
next
  case False
  then show ?thesis by (auto simp: bitmap_remove_def bitmap_contains_bit Let_def)
qed

lemma bitmap_insert_result:
  "snd (bitmap_insert b c) \<longleftrightarrow> unat c < MAX_CLIENT_CAPACITY \<and> \<not> bitmap_contains b c"
  by (auto simp: bitmap_insert_def bitmap_contains_bit Let_def simp flip: word_idx_bound)

lemma bitmap_remove_result: "snd (bitmap_remove b c) \<longleftrightarrow> bitmap_contains b c"
  by (auto simp: bitmap_remove_def bitmap_contains_bit Let_def)

lemma bitmap_contains_union:
  "bitmap_contains (bitmap_union a b) c \<longleftrightarrow> bitmap_contains a c \<or> bitmap_contains b c"
  by (auto simp: bitmap_contains_bit bitmap_union_def bit_or_iff)

lemma bitmap_contains_intersect:
  "bitmap_contains (bitmap_intersect a b) c \<longleftrightarrow> bitmap_contains a c \<and> bitmap_contains b c"
  by (auto simp: bitmap_contains_bit bitmap_intersect_def bit_and_iff)

lemma bitmap_inv_ops [simp]:
  "bitmap_inv bitmap_new"
  "bitmap_inv b \<Longrightarrow> bitmap_inv (fst (bitmap_insert b c))"
  "bitmap_inv b \<Longrightarrow> bitmap_inv (fst (bitmap_remove b c))"
  "bitmap_inv (bitmap_clear b)"
  "bitmap_inv (bitmap_union a b)"
  "bitmap_inv (bitmap_intersect a b)"
  by (auto simp: bitmap_inv_def bitmap_ops Let_def)

lemma bitmap_is_empty_iff:
  assumes "bitmap_inv b"
  shows "bitmap_is_empty b \<longleftrightarrow> (\<forall>c. \<not> bitmap_contains b c)"
proof
  assume "bitmap_is_empty b"
  then show "\<forall>c. \<not> bitmap_contains b c"
    using assms by (auto simp: bitmap_is_empty_def bitmap_contains_bit list_all_length bitmap_inv_def)
next
  assume none: "\<forall>c. \<not> bitmap_contains b c"
  have "bm_words b ! k = 0" if k: "k < length (bm_words b)" for k
  proof (unfold word_eq_0_iff_bits, intro allI impI)
    fix i :: nat assume i: "i < 64"
    have k16: "k < 16" using k assms by (simp add: bitmap_inv_def DEFAULT_BITMAP_WORDS_def)
    then have "unat (of_nat (k * 64 + i) :: u32) = k * 64 + i"
      using i by (intro unat_of_nat_small) simp
    then show "\<not> bit (bm_words b ! k) i"
      using none [rule_format, of "of_nat (k * 64 + i)"] i k16
      by (simp add: bitmap_contains_bit DEFAULT_BITMAP_WORDS_def)
  qed
  then show "bitmap_is_empty b" by (simp add: bitmap_is_empty_def list_all_length)
qed

section \<open>Enumeration\<close>

text \<open>The reference enumeration: all ids below the capacity, in ascending order, that are members.\<close>

definition member_ids :: "ClientBitmap \<Rightarrow> u32 list" where
  "member_ids b = filter (bitmap_contains b) (map of_nat [0..<MAX_CLIENT_CAPACITY])"

lemma concat_upt_blocks: "concat (map (\<lambda>k. map (\<lambda>i. k * m + i) [0..<m]) [0..<n]) = [0..<n * m]"
proof (induction n)
  case (Suc n)
  have "map (\<lambda>i. n * m + i) [0..<m] = [n * m..<n * m + m]"
    by (rule nth_equalityI) auto
  then show ?case using Suc upt_add_eq_append [of 0 "n * m" m] by (simp add: add.commute)
qed simp

lemma for_each_word_members:
  assumes "k < DEFAULT_BITMAP_WORDS"
  shows "for_each_word (of_nat (k * 64)) (bm_words b ! k) =
    filter (bitmap_contains b) (map (\<lambda>i. of_nat (k * 64 + i)) [0..<64])"
proof -
  have un: "unat (of_nat (k * 64 + i) :: u32) = k * 64 + i" if "i < 64" for i
    using that assms by (intro unat_of_nat_small) (simp add: DEFAULT_BITMAP_WORDS_def)
  have "bitmap_contains b (of_nat (k * 64 + i)) \<longleftrightarrow> bit (bm_words b ! k) i" if "i < 64" for i
    using that assms by (simp add: bitmap_contains_bit un del: of_nat_add of_nat_mult)
  then have "filter (\<lambda>i. bitmap_contains b (of_nat (k * 64 + i))) [0..<64] = filter (bit (bm_words b ! k)) [0..<64]"
    by (intro filter_cong) auto
  then show ?thesis
    by (simp add: for_each_word_bits filter_map o_def del: of_nat_mult flip: of_nat_add)
qed

lemma for_each_members:
  assumes "bitmap_inv b"
  shows "bitmap_for_each b = member_ids b"
proof -
  let ?block = "\<lambda>k. map (\<lambda>i. of_nat (k * 64 + i)) [0..<64] :: u32 list"
  have "enumerate 0 (bm_words b) = map (\<lambda>k. (k, bm_words b ! k)) [0..<DEFAULT_BITMAP_WORDS]"
    using assms by (intro nth_equalityI) (auto simp: bitmap_inv_def nth_enumerate_eq)
  then have "bitmap_for_each b =
      concat (map (\<lambda>k. for_each_word (of_nat (k * 64)) (bm_words b ! k)) [0..<DEFAULT_BITMAP_WORDS])"
    by (simp add: bitmap_for_each_def o_def)
  also have "\<dots> = concat (map (\<lambda>k. filter (bitmap_contains b) (?block k)) [0..<DEFAULT_BITMAP_WORDS])"
    by (intro arg_cong [where f = concat] map_cong) (auto simp: for_each_word_members simp del: of_nat_add of_nat_mult)
  also have "\<dots> = filter (bitmap_contains b) (concat (map ?block [0..<DEFAULT_BITMAP_WORDS]))"
    by (simp add: filter_concat o_def)
  also have "concat (map ?block [0..<DEFAULT_BITMAP_WORDS]) = map of_nat [0..<MAX_CLIENT_CAPACITY]"
    unfolding MAX_CLIENT_CAPACITY_def concat_upt_blocks [symmetric] by (simp add: map_concat o_def)
  finally show ?thesis by (simp add: member_ids_def)
qed

lemma set_member_ids: "set (member_ids b) = bitmap_set b"
proof -
  have "c \<in> of_nat ` {0..<MAX_CLIENT_CAPACITY}" if "bitmap_contains b c" for c
    using that by (intro image_eqI [where x = "unat c"]) (auto simp: bitmap_contains_bit simp flip: word_idx_bound)
  then show ?thesis by (auto simp: member_ids_def bitmap_set_def)
qed

lemma sorted_member_ids: "sorted_wrt (<) (member_ids b)"
proof -
  have "sorted_wrt (\<lambda>i j. (of_nat i :: u32) < of_nat j) [0..<MAX_CLIENT_CAPACITY]"
    by (simp add: sorted_wrt_iff_nth_less word_less_nat_alt unat_of_nat_small MAX_CLIENT_CAPACITY_def
        DEFAULT_BITMAP_WORDS_def)
  then show ?thesis by (simp add: member_ids_def sorted_wrt_filter sorted_wrt_map)
qed

lemma distinct_member_ids: "distinct (member_ids b)"
  using sorted_member_ids [of b] by (simp add: strict_sorted_iff)

lemma bitmap_count_card:
  assumes "bitmap_inv b"
  shows "bitmap_count b = card (bitmap_set b)"
proof -
  have "bitmap_count b = length (bitmap_for_each b)"
  proof -
    have "map count_ones (bm_words b) = map (count_ones \<circ> snd) (enumerate 0 (bm_words b))"
      by (simp flip: map_map)
    then show ?thesis
      by (simp add: bitmap_count_def bitmap_for_each_def length_concat for_each_word_bits count_ones_def
          o_def case_prod_beta)
  qed
  also have "\<dots> = card (bitmap_set b)"
    using distinct_card [OF distinct_member_ids] by (simp add: for_each_members [OF assms] set_member_ids)
  finally show ?thesis .
qed

subsection \<open>The iterator\<close>

lemma iter_skip_Some:
  "iter_skip it = Some it' \<Longrightarrow>
     it_current_word it' \<noteq> 0 \<and> it_bitmap it' = it_bitmap it \<and>
     (it' = it \<or> (it_word_idx it < it_word_idx it' \<and> it_word_idx it' < DEFAULT_BITMAP_WORDS))"
proof (induction it rule: iter_skip.induct)
  case (1 it)
  then show ?case
    by (subst (asm) (2) iter_skip.simps) (auto simp: Let_def split: if_splits)
qed

lemma clear_lowest_less: "w \<noteq> 0 \<Longrightarrow> unat (w AND (w - 1)) < unat w" for w :: u64
  by (metis word_and_le1 linorder_not_le measure_unat order_le_less_trans unat_sub_if_size word_le_nat_alt
      word_less_nat_alt)

text \<open>Draining the iterator, as \<open>Iterator::collect\<close> does.\<close>

function iter_collect :: "ClientBitmapIter \<Rightarrow> u32 list" where
  "iter_collect it = (case iter_next it of None \<Rightarrow> [] | Some (c, it') \<Rightarrow> c # iter_collect it')"
  by pat_completeness auto
termination
  by (relation "measures [\<lambda>it. DEFAULT_BITMAP_WORDS - it_word_idx it, \<lambda>it. unat (it_current_word it)]")
     (auto simp: iter_next_def Let_def clear_lowest_less dest!: iter_skip_Some split: option.splits)

declare iter_collect.simps [simp del]

text \<open>What is left to enumerate: the rest of the current word, then the words behind it.\<close>

definition iter_rest :: "ClientBitmapIter \<Rightarrow> u32 list" where
  "iter_rest it = for_each_word (of_nat (it_word_idx it * 64)) (it_current_word it)
     @ concat (map (\<lambda>k. for_each_word (of_nat (k * 64)) (bm_words (it_bitmap it) ! k))
         [Suc (it_word_idx it)..<DEFAULT_BITMAP_WORDS])"

lemma iter_rest_skip:
  "iter_rest it = (case iter_skip it of None \<Rightarrow> [] | Some it' \<Rightarrow> iter_rest it')"
proof (induction it rule: iter_skip.induct)
  case (1 it)
  show ?case
  proof (cases "it_current_word it = 0 \<and> Suc (it_word_idx it) < DEFAULT_BITMAP_WORDS")
    case True
    let ?it = "it\<lparr>it_word_idx := it_word_idx it + 1,
        it_current_word := bm_words (it_bitmap it) ! (it_word_idx it + 1)\<rparr>"
    have "iter_rest it = iter_rest ?it"
      using True by (simp add: iter_rest_def for_each_word.simps [of _ 0] upt_conv_Cons del: of_nat_mult of_nat_Suc)
    moreover have "iter_rest ?it = (case iter_skip ?it of None \<Rightarrow> [] | Some it' \<Rightarrow> iter_rest it')"
      using "1.IH" [OF _ refl] True by simp
    moreover have "iter_skip it = iter_skip ?it"
      using True by (subst iter_skip.simps) (simp add: Let_def)
    ultimately show ?thesis by simp
  next
    case False
    then show ?thesis
      by (subst iter_skip.simps) (auto simp: Let_def iter_rest_def for_each_word.simps [of _ 0])
  qed
qed

lemma iter_collect_rest: "iter_collect it = iter_rest it"
proof (induction it rule: iter_collect.induct)
  case (1 it)
  show ?case
  proof (cases "iter_skip it")
    case None
    then show ?thesis by (simp add: iter_collect.simps [of it] iter_next_def iter_rest_skip [of it])
  next
    case (Some it')
    then have "it_current_word it' \<noteq> 0" using iter_skip_Some by blast
    then have "iter_rest it' = (of_nat (it_word_idx it' * 64) + of_nat (trailing_zeros (it_current_word it')))
        # iter_rest (it'\<lparr>it_current_word := it_current_word it' AND (it_current_word it' - 1)\<rparr>)"
      by (simp add: iter_rest_def for_each_word.simps [of _ "it_current_word it'"])
    then show ?thesis
      using Some "1.IH" by (simp add: iter_collect.simps [of it] iter_next_def Let_def iter_rest_skip [of it])
  qed
qed

lemma iter_collect_members:
  assumes "bitmap_inv b"
  shows "iter_collect (bitmap_iter b) = member_ids b"
proof -
  have "[0..<DEFAULT_BITMAP_WORDS] = 0 # [Suc 0..<DEFAULT_BITMAP_WORDS]"
    by (simp add: DEFAULT_BITMAP_WORDS_def upt_conv_Cons)
  moreover have "enumerate 0 (bm_words b) = map (\<lambda>k. (k, bm_words b ! k)) [0..<DEFAULT_BITMAP_WORDS]"
    using assms by (intro nth_equalityI) (auto simp: bitmap_inv_def nth_enumerate_eq)
  ultimately have "iter_rest (bitmap_iter b) = bitmap_for_each b"
    by (simp add: iter_rest_def bitmap_iter_def bitmap_for_each_def o_def)
  then show ?thesis by (simp add: iter_collect_rest for_each_members [OF assms])
qed

section \<open>The index interface\<close>

text \<open>What the topic router relies on: a finite set of client ids below a capacity, and an enumeration
  that visits each member once, in ascending order.\<close>

locale client_index =
  fixes new :: 'b
    and ins :: "'b \<Rightarrow> u32 \<Rightarrow> 'b"
    and rem :: "'b \<Rightarrow> u32 \<Rightarrow> 'b"
    and uni :: "'b \<Rightarrow> 'b \<Rightarrow> 'b"
    and contains :: "'b \<Rightarrow> u32 \<Rightarrow> bool"
    and is_empty :: "'b \<Rightarrow> bool"
    and enum :: "'b \<Rightarrow> u32 list"
    and inv :: "'b \<Rightarrow> bool"
    and capacity :: nat
  assumes inv_new: "inv new"
    and inv_ins: "inv b \<Longrightarrow> inv (ins b c)"
    and inv_rem: "inv b \<Longrightarrow> inv (rem b c)"
    and inv_uni: "inv a \<Longrightarrow> inv b \<Longrightarrow> inv (uni a b)"
    and contains_new: "\<not> contains new c"
    and contains_ins: "inv b \<Longrightarrow> contains (ins b c) d \<longleftrightarrow> contains b d \<or> (d = c \<and> unat c < capacity)"
    and contains_rem: "inv b \<Longrightarrow> contains (rem b c) d \<longleftrightarrow> contains b d \<and> d \<noteq> c"
    and contains_uni: "inv a \<Longrightarrow> inv b \<Longrightarrow> contains (uni a b) c \<longleftrightarrow> contains a c \<or> contains b c"
    and is_empty_iff: "inv b \<Longrightarrow> is_empty b \<longleftrightarrow> (\<forall>c. \<not> contains b c)"
    and enum_members: "inv b \<Longrightarrow> set (enum b) = {c. contains b c}"
    and enum_sorted: "inv b \<Longrightarrow> sorted_wrt (<) (enum b)"
begin

lemma enum_distinct: "inv b \<Longrightarrow> distinct (enum b)"
  using enum_sorted by (simp add: strict_sorted_iff)

lemma enum_empty_iff: "inv b \<Longrightarrow> enum b = [] \<longleftrightarrow> is_empty b"
  using enum_members [of b] is_empty_iff [of b] by (metis Collect_empty_eq set_empty)

text \<open>Two indexes with the same members enumerate the same list.\<close>

lemma enum_unique:
  assumes "inv a" "inv b" "\<And>c. contains a c \<longleftrightarrow> contains b c"
  shows "enum a = enum b"
proof (rule sorted_distinct_set_unique)
  show "sorted (enum a)" "distinct (enum a)" "sorted (enum b)" "distinct (enum b)"
    using enum_sorted [OF assms(1)] enum_sorted [OF assms(2)] by (simp_all add: strict_sorted_iff)
  show "set (enum a) = set (enum b)"
    using assms by (simp add: enum_members)
qed

lemma enum_rem: "inv b \<Longrightarrow> enum (rem b c) = filter (\<lambda>d. d \<noteq> c) (enum b)"
proof (rule sorted_distinct_set_unique)
  assume b: "inv b"
  show "sorted (enum (rem b c))" "distinct (enum (rem b c))"
    using enum_sorted [OF inv_rem [OF b]] by (simp_all add: strict_sorted_iff)
  show "sorted (filter (\<lambda>d. d \<noteq> c) (enum b))" "distinct (filter (\<lambda>d. d \<noteq> c) (enum b))"
    using enum_sorted [OF b] by (simp_all add: strict_sorted_iff sorted_wrt_filter)
  show "set (enum (rem b c)) = set (filter (\<lambda>d. d \<noteq> c) (enum b))"
    using b by (auto simp: enum_members inv_rem contains_rem)
qed

end

interpretation bm: client_index bitmap_new "\<lambda>b c. fst (bitmap_insert b c)" "\<lambda>b c. fst (bitmap_remove b c)"
  bitmap_union bitmap_contains bitmap_is_empty bitmap_for_each bitmap_inv MAX_CLIENT_CAPACITY
  by unfold_locales
    (simp_all add: bitmap_contains_insert bitmap_contains_remove bitmap_contains_union bitmap_is_empty_iff
      for_each_members set_member_ids bitmap_set_def sorted_member_ids)

section \<open>Properties\<close>

text \<open>C11: Both enumerations of a client bitmap, the \<open>for_each\<close> loop that clears the lowest set bit and
  the drained iterator, list exactly the member ids below the capacity, each once and in ascending
  order, and \<open>count\<close> is the number of members.\<close>

theorem bitmap_enumeration:
  assumes "bitmap_inv b"
  shows "bitmap_for_each b = filter (bitmap_contains b) (map of_nat [0..<1024]) \<and>
    iter_collect (bitmap_iter b) = bitmap_for_each b \<and>
    bitmap_count b = card {c. bitmap_contains b c}"
  using for_each_members [OF assms] iter_collect_members [OF assms] bitmap_count_card [OF assms]
  by (simp_all add: member_ids_def bitmap_set_def MAX_CLIENT_CAPACITY_def DEFAULT_BITMAP_WORDS_def)

theorem bitmap_enumeration_witness:
  "bitmap_inv (fst (bitmap_insert bitmap_new 63)) \<and>
   bitmap_for_each (fst (bitmap_insert bitmap_new 63)) = [63] \<and>
   iter_collect (bitmap_iter (fst (bitmap_insert bitmap_new 63))) = [63] \<and>
   bitmap_count (fst (bitmap_insert bitmap_new 63)) = 1"
proof -
  let ?b = "fst (bitmap_insert bitmap_new 63)"
  have inv: "bitmap_inv ?b" by simp
  have mem: "bitmap_contains ?b c \<longleftrightarrow> c = 63" for c
    using bm.contains_ins [OF bm.inv_new, of 63 c]
    by (simp add: MAX_CLIENT_CAPACITY_def DEFAULT_BITMAP_WORDS_def)
  have "filter (bitmap_contains ?b) (map of_nat [0..<1024]) = [63]"
    by (rule sorted_distinct_set_unique)
       (use bitmap_enumeration [OF inv] bm.enum_sorted [OF inv] bm.enum_members [OF inv] mem
        in \<open>simp_all add: strict_sorted_iff\<close>)
  then show ?thesis using inv bitmap_enumeration [OF inv] mem by simp
qed

end
