(* ===== verification/Token_Bucket.thy ===== *)
theory Token_Bucket
  imports Rust_Prelude
begin

text \<open>
  The lock-free token bucket of \<open>src/crates/distribution/src/lib.rs\<close>. One 64-bit atomic holds the
  last refill time (upper 40 bits, milliseconds) and the balance (lower 24 bits). The body of the
  compare-and-swap loop is \<open>tb_attempt\<close>; \<open>tb_consume_loop\<close> is the loop, given the values that failed
  exchanges observed. The specification \<open>bucket_spec\<close> works on unbounded numbers, and the word-level
  body is shown to implement it while times fit 40 bits.
\<close>

section \<open>State and operations\<close>

record LockFreeTokenBucket =
  tb_state :: u64
  refill_rate_per_sec :: u32
  burst_capacity :: u32

definition bucket_new :: "u32 \<Rightarrow> u32 \<Rightarrow> u64 \<Rightarrow> LockFreeTokenBucket" where
  "bucket_new rate_per_sec capacity initial_time_ms =
     \<lparr>tb_state = push_bit 24 initial_time_ms OR (ucast capacity AND 0x00FFFFFF),
      refill_rate_per_sec = rate_per_sec, burst_capacity = capacity\<rparr>"

text \<open>The refill part of the loop body: the new timestamp and the available tokens.\<close>

definition tb_refill :: "LockFreeTokenBucket \<Rightarrow> u64 \<Rightarrow> u64 \<Rightarrow> u64 \<times> u32" where
  "tb_refill b now_ms cur =
     (let last_refill_ms = drop_bit 24 cur;
          available_tokens = ucast (cur AND 0x00FFFFFF) :: u32
      in if now_ms > last_refill_ms
         then let elapsed_ms = now_ms - last_refill_ms;
                  refilled = ucast (elapsed_ms * ucast (refill_rate_per_sec b) div 1000) :: u32
              in if refilled > 0
                 then let available_tokens = min (available_tokens + refilled) (burst_capacity b)
                      in if available_tokens \<ge> burst_capacity b then (now_ms, available_tokens)
                         else let refilled_ms = (ucast refilled * 1000) div ucast (refill_rate_per_sec b)
                              in (min (last_refill_ms + refilled_ms) now_ms, available_tokens)
                 else (last_refill_ms, available_tokens)
         else (last_refill_ms, available_tokens))"

text \<open>One pass of the loop: \<open>None\<close> is "rate limit exceeded", \<open>Some next\<close> the value to swap in.\<close>

definition tb_attempt :: "LockFreeTokenBucket \<Rightarrow> u32 \<Rightarrow> u64 \<Rightarrow> u64 \<Rightarrow> u64 option" where
  "tb_attempt b tokens now_ms cur =
     (let (next_ts, available_tokens) = tb_refill b now_ms cur
      in if available_tokens < tokens then None
         else let new_tokens = available_tokens - tokens
              in Some (push_bit 24 next_ts OR (ucast new_tokens AND 0x00FFFFFF)))"

text \<open>The loop: each failed \<open>compare_exchange_weak\<close> returns the value it saw, and the pass is repeated
  from it. The result is the answer and, on success, the exchanged pair.\<close>

fun tb_consume_loop :: "LockFreeTokenBucket \<Rightarrow> u32 \<Rightarrow> u64 \<Rightarrow> u64 \<Rightarrow> u64 list \<Rightarrow> bool \<times> (u64 \<times> u64) option" where
  "tb_consume_loop b tokens now_ms cur observed =
     (case tb_attempt b tokens now_ms cur of
        None \<Rightarrow> (False, None)
      | Some nxt \<Rightarrow>
          (case observed of
             [] \<Rightarrow> (True, Some (cur, nxt))
           | actual # rest \<Rightarrow> tb_consume_loop b tokens now_ms actual rest))"

text \<open>Without contention the first exchange succeeds.\<close>

definition try_consume :: "LockFreeTokenBucket \<Rightarrow> u32 \<Rightarrow> u64 \<Rightarrow> LockFreeTokenBucket \<times> bool" where
  "try_consume b tokens now_ms =
     (case tb_consume_loop b tokens now_ms (tb_state b) [] of
        (ok, Some (cur, nxt)) \<Rightarrow> (b\<lparr>tb_state := nxt\<rparr>, ok)
      | (ok, None) \<Rightarrow> (b, ok))"

lemma try_consume_attempt:
  "try_consume b tokens now_ms =
     (case tb_attempt b tokens now_ms (tb_state b) of
        None \<Rightarrow> (b, False) | Some nxt \<Rightarrow> (b\<lparr>tb_state := nxt\<rparr>, True))"
  by (simp add: try_consume_def split: option.splits)

text \<open>Under contention a successful call is one atomic attempt on the value its exchange replaced.\<close>

lemma tb_consume_loop_linear:
  "tb_consume_loop b tokens now_ms cur observed = (True, Some (old, nxt)) \<Longrightarrow>
   tb_attempt b tokens now_ms old = Some nxt \<and> old \<in> set (cur # observed)"
  by (induction b tokens now_ms cur observed rule: tb_consume_loop.induct)
     (auto split: option.splits list.splits)

section \<open>The specification\<close>

fun bucket_spec :: "nat \<Rightarrow> nat \<Rightarrow> nat \<Rightarrow> nat \<Rightarrow> nat \<times> nat \<Rightarrow> (nat \<times> nat) option" where
  "bucket_spec rate cap tokens now (lst, tok) =
     (let refilled = (now - lst) * rate div 1000;
          (ts, av) = (if refilled = 0 then (lst, tok)
                      else let av = min (tok + refilled) cap
                           in (if cap \<le> av then now else min (lst + refilled * 1000 div rate) now, av))
      in if av < tokens then None else Some (ts, av - tokens))"

definition tb_abs :: "u64 \<Rightarrow> nat \<times> nat" where
  "tb_abs w = (unat w div 2 ^ 24, unat w mod 2 ^ 24)"

lemma mask_24: "(0x00FFFFFF :: 'a::len word) = mask 24"
  by (simp add: mask_eq_exp_minus_1)

lemma tb_abs_pack:
  assumes "unat ts < 2 ^ 40" and "unat tok < 2 ^ 24"
  shows "tb_abs (push_bit 24 ts OR (ucast (tok :: u32) AND 0x00FFFFFF)) = (unat ts, unat tok)"
proof -
  have tok: "unat (ucast tok AND 0x00FFFFFF :: u64) = unat tok"
    using assms(2) by (simp add: mask_24 unat_and_mask)
  have sh: "unat (push_bit 24 ts) = unat ts * 2 ^ 24"
    using assms(1) by (intro unat_push_bit_nowrap) simp
  have "push_bit 24 ts OR (ucast tok AND 0x00FFFFFF) = push_bit 24 ts + (ucast tok AND 0x00FFFFFF :: u64)"
    using tok assms(2) by (intro or_eq_add_disjoint) simp
  moreover have "unat (push_bit 24 ts + (ucast tok AND 0x00FFFFFF :: u64)) = unat ts * 2 ^ 24 + unat tok"
    using assms sh tok by (subst unat_add_nowrap) simp_all
  ultimately show ?thesis using assms(2) by (simp add: tb_abs_def)
qed

lemma tb_attempt_pack:
  assumes "tb_refill b now_ms cur = (ts, av)" and "unat ts < 2 ^ 40" and "unat av < 2 ^ 24"
  shows "map_option tb_abs (tb_attempt b tokens now_ms cur) =
    (if unat av < unat tokens then None else Some (unat ts, unat av - unat tokens))"
proof (cases "av < tokens")
  case False
  then have "unat (av - tokens) = unat av - unat tokens" by (simp add: unat_sub_nowrap not_less)
  then show ?thesis
    using False assms by (simp add: tb_attempt_def tb_abs_pack word_less_nat_alt)
qed (simp add: assms tb_attempt_def word_less_nat_alt)

lemma tb_attempt_refines:
  fixes b :: LockFreeTokenBucket and now_ms cur :: u64 and tokens :: u32
  assumes now: "unat now_ms < 2 ^ 40"
    and cap: "unat (burst_capacity b) < 2 ^ 24"
    and tok_le: "snd (tb_abs cur) \<le> unat (burst_capacity b)"
    and elapsed: "(unat now_ms - fst (tb_abs cur)) * unat (refill_rate_per_sec b) div 1000 + 2 ^ 24 < 2 ^ 32"
  shows "map_option tb_abs (tb_attempt b tokens now_ms cur) =
    bucket_spec (unat (refill_rate_per_sec b)) (unat (burst_capacity b)) (unat tokens) (unat now_ms) (tb_abs cur)"
proof -
  define lst where "lst = drop_bit 24 cur"
  define tok where "tok = (ucast (cur AND 0x00FFFFFF) :: u32)"
  define rate where "rate = refill_rate_per_sec b"
  define prod where "prod = (now_ms - lst) * ucast rate"
  define refilled where "refilled = (ucast (prod div 1000) :: u32)"
  have lst: "unat lst = fst (tb_abs cur)" by (simp add: lst_def unat_drop_bit tb_abs_def)
  have tok: "unat tok = snd (tb_abs cur)"
    by (simp add: tok_def unat_ucast_mod mask_24 unat_and_mask tb_abs_def)
  have tok24: "unat tok < 2 ^ 24" by (simp add: tok tb_abs_def)
  have lst40: "unat lst < 2 ^ 40"
    using unat_less_power [of cur] by (simp add: lst_def unat_drop_bit div_less_iff_less_mult)
  have abs: "tb_abs cur = (unat lst, unat tok)" by (simp add: lst tok)
  show ?thesis
  proof (cases "lst < now_ms")
    case False
    then have le: "unat now_ms \<le> unat lst" by (simp add: word_le_nat_alt not_less)
    have "tb_refill b now_ms cur = (lst, tok)"
      using False by (simp add: tb_refill_def Let_def lst_def tok_def)
    then show ?thesis
      using tb_attempt_pack [of b now_ms cur lst tok tokens] lst40 tok24 le by (simp add: abs)
  next
    case True
    then have lt: "unat lst < unat now_ms" by (simp add: word_less_nat_alt)
    have bound: "(unat now_ms - unat lst) * unat rate div 1000 + 2 ^ 24 < 2 ^ 32"
      using elapsed by (simp add: lst rate_def)
    then have "(unat now_ms - unat lst) * unat rate < 2 ^ 64" by simp
    then have prod: "unat prod = (unat now_ms - unat lst) * unat rate"
      using True by (simp add: prod_def unat_mult_nowrap unat_sub_nowrap)
    have refilled: "unat refilled = (unat now_ms - unat lst) * unat rate div 1000"
      using bound by (simp add: refilled_def unat_ucast_mod unat_div_distrib prod)
    have sum: "unat (tok + refilled) = unat tok + unat refilled"
      using bound tok24 by (intro unat_add_nowrap) (simp add: refilled)
    define av where "av = min (tok + refilled) (burst_capacity b)"
    have av: "unat av = min (unat tok + unat refilled) (unat (burst_capacity b))"
      by (simp add: av_def sum min_def word_le_nat_alt)
    define ms where "ms = (ucast refilled * 1000) div (ucast rate :: u64)"
    have ms: "unat ms = unat refilled * 1000 div unat rate"
      using unat_less_power [of refilled] by (simp add: ms_def unat_div_distrib unat_mult_nowrap)
    have "unat ms \<le> unat now_ms - unat lst" if "refilled \<noteq> 0"
    proof -
      have "unat refilled * 1000 \<le> (unat now_ms - unat lst) * unat rate" by (simp add: refilled)
      moreover have "unat rate > 0" using that refilled
        by (metis div_0 mult_0_right neq0_conv unsigned_eq_0_iff)
      ultimately show ?thesis by (metis ms div_le_mono nonzero_mult_div_cancel_right not_gr0)
    qed
    then have ts: "unat (min (lst + ms) now_ms) = min (unat lst + unat ms) (unat now_ms)" if "refilled \<noteq> 0"
      using that now lt by (simp add: min_def word_le_nat_alt unat_add_nowrap)
    have ref: "tb_refill b now_ms cur =
        (if refilled = 0 then (lst, tok)
         else if av \<ge> burst_capacity b then (now_ms, av) else (min (lst + ms) now_ms, av))"
      using True
      by (simp add: tb_refill_def Let_def lst_def [symmetric] tok_def [symmetric] rate_def [symmetric]
          prod_def [symmetric] refilled_def [symmetric] av_def [symmetric] ms_def [symmetric] word_gt_0)
    have av24: "unat av < 2 ^ 24" using av cap by simp
    define spec where "spec = bucket_spec (unat rate) (unat (burst_capacity b)) (unat tokens) (unat now_ms)"
    have spec_eq: "spec (unat lst, unat tok) =
        (let (ts, av) = (if unat refilled = 0 then (unat lst, unat tok)
              else (if unat (burst_capacity b) \<le> unat av then unat now_ms
                    else min (unat lst + unat ms) (unat now_ms), unat av))
         in if av < unat tokens then None else Some (ts, av - unat tokens))"
      unfolding spec_def av ms unfolding refilled by (simp add: Let_def)
    have "map_option tb_abs (tb_attempt b tokens now_ms cur) = spec (unat lst, unat tok)"
    proof (cases "refilled = 0")
      case z: True
      then have "unat refilled = 0" by simp
      then show ?thesis
        using tb_attempt_pack [of b now_ms cur lst tok tokens] ref z lst40 tok24
        unfolding spec_eq by simp
    next
      case nz: False
      then have u: "unat refilled \<noteq> 0" by (simp add: unsigned_eq_0_iff)
      show ?thesis
      proof (cases "burst_capacity b \<le> av")
        case full: True
        then show ?thesis
          using tb_attempt_pack [of b now_ms cur now_ms av tokens] ref nz now av24 u
          unfolding spec_eq by (simp add: word_le_nat_alt)
      next
        case part: False
        have "unat (min (lst + ms) now_ms) < 2 ^ 40" using ts [OF nz] now by simp
        with part show ?thesis
          using tb_attempt_pack [of b now_ms cur "min (lst + ms) now_ms" av tokens] ref nz av24 u ts [OF nz]
          unfolding spec_eq by (simp add: word_le_nat_alt)
      qed
    qed
    then show ?thesis unfolding spec_def rate_def abs .
  qed
qed

section \<open>How much the bucket lets through\<close>

text \<open>A run of calls at given times, on the specification state: the tokens granted.\<close>

fun spec_granted :: "nat \<Rightarrow> nat \<Rightarrow> (nat \<times> nat) list \<Rightarrow> nat \<times> nat \<Rightarrow> nat" where
  "spec_granted rate cap [] st = 0"
| "spec_granted rate cap ((tokens, now) # calls) st =
     (case bucket_spec rate cap tokens now st of
        None \<Rightarrow> spec_granted rate cap calls st
      | Some st' \<Rightarrow> tokens + spec_granted rate cap calls st')"

text \<open>The same run on the code's bucket.\<close>

fun tb_granted :: "LockFreeTokenBucket \<Rightarrow> (u32 \<times> u64) list \<Rightarrow> nat" where
  "tb_granted b [] = 0"
| "tb_granted b ((tokens, now_ms) # calls) =
     (case try_consume b tokens now_ms of
        (b', ok) \<Rightarrow> (if ok then unat tokens else 0) + tb_granted b' calls)"

text \<open>The credit of a state at a later time \<open>T\<close>, in thousandths of a token: the balance plus what the
  time since the last refill is worth. When the rate divides 1000, so that every token is worth a whole
  number of milliseconds, no call increases it.\<close>

definition credit :: "nat \<Rightarrow> nat \<Rightarrow> nat \<times> nat \<Rightarrow> nat" where
  "credit rate T st = 1000 * snd st + rate * (T - fst st)"

lemma bucket_spec_credit:
  assumes step: "bucket_spec rate cap tokens now (lst, tok) = Some st'"
    and rate: "rate dvd 1000" and times: "lst \<le> T" "now \<le> T"
  shows "1000 * tokens + credit rate T st' \<le> credit rate T (lst, tok) \<and> fst st' \<le> T \<and> lst \<le> fst st'"
proof -
  define r where "r = (now - lst) * rate div 1000"
  have rpos: "rate > 0" using rate by (auto intro: Nat.gr0I)
  have r_le: "r * 1000 \<le> (now - lst) * rate" by (simp add: r_def)
  have exact: "rate * (r * 1000 div rate) = r * 1000"
    using rate by (metis dvd_mult dvd_mult_div_cancel)
  have ms_le: "r * 1000 div rate \<le> now - lst"
    using r_le exact rpos by (metis mult.commute mult_le_cancel2 nat_mult_le_cancel1)
  consider (none) "r = 0" | (full) "r \<noteq> 0" "cap \<le> min (tok + r) cap" | (part) "r \<noteq> 0" "\<not> cap \<le> min (tok + r) cap"
    by blast
  then show ?thesis
  proof cases
    case none
    then show ?thesis
      using step times by (auto simp: r_def [symmetric] Let_def credit_def split: if_splits)
  next
    case full
    then have lt: "lst < now" by (cases "lst < now") (auto simp: r_def)
    have st': "st' = (now, cap - tokens)" "tokens \<le> cap" "cap \<le> tok + r"
      using full step by (auto simp: r_def [symmetric] Let_def split: if_splits)
    have "T - lst = (now - lst) + (T - now)" using lt times by simp
    then have "rate * (T - lst) = (now - lst) * rate + rate * (T - now)" by (simp add: algebra_simps)
    then show ?thesis using st' r_le lt times by (simp add: credit_def)
  next
    case part
    then have lt: "lst < now" by (cases "lst < now") (auto simp: r_def)
    let ?ts = "lst + r * 1000 div rate"
    have st': "st' = (?ts, tok + r - tokens)" "tokens \<le> tok + r"
      using part step ms_le lt by (auto simp: r_def [symmetric] Let_def split: if_splits)
    have "T - lst = (r * 1000 div rate) + (T - ?ts)" using ms_le lt times by simp
    then have "rate * (T - lst) = r * 1000 + rate * (T - ?ts)" by (metis exact distrib_left)
    moreover have "1000 * tokens + 1000 * (tok + r - tokens) = 1000 * (tok + r)"
      using st'(2) by (metis distrib_left le_add_diff_inverse)
    moreover have "?ts \<le> T" using ms_le lt times by linarith
    ultimately show ?thesis using st' by (simp add: credit_def)
  qed
qed

lemma bucket_spec_cap:
  "bucket_spec rate cap tokens now (lst, tok) = Some st' \<Longrightarrow> tok \<le> cap \<Longrightarrow> snd st' \<le> cap"
  by (auto simp: Let_def split: if_splits)

lemma spec_granted_credit:
  assumes "rate dvd 1000" and "\<forall>(tokens, now) \<in> set calls. now \<le> T" and "fst st \<le> T"
  shows "1000 * spec_granted rate cap calls st \<le> credit rate T st"
  using assms(2,3)
proof (induction calls arbitrary: st)
  case (Cons call calls)
  obtain tokens now where call: "call = (tokens, now)" by (cases call)
  obtain lst tok where st: "st = (lst, tok)" by (cases st)
  show ?case
  proof (cases "bucket_spec rate cap tokens now st")
    case None
    then show ?thesis using Cons call by simp
  next
    case (Some st')
    have step: "1000 * tokens + credit rate T st' \<le> credit rate T st \<and> fst st' \<le> T"
      using bucket_spec_credit [OF Some [unfolded st] assms(1)] Cons.prems call st by auto
    with Cons.IH [of st'] Cons.prems have "1000 * spec_granted rate cap calls st' \<le> credit rate T st'"
      by simp
    then show ?thesis using Some call step by simp
  qed
qed simp

lemma tb_granted_refines:
  assumes rate: "unat (refill_rate_per_sec b) dvd 1000" and cap: "unat (burst_capacity b) < 2 ^ 24"
    and T: "T < 2 ^ 40" "T - t0 < 2 ^ 31"
    and calls: "\<forall>(tokens, now) \<in> set calls. unat now \<le> T"
    and st: "t0 \<le> fst (tb_abs (tb_state b))" "fst (tb_abs (tb_state b)) \<le> T"
      "snd (tb_abs (tb_state b)) \<le> unat (burst_capacity b)"
  shows "tb_granted b calls =
    spec_granted (unat (refill_rate_per_sec b)) (unat (burst_capacity b))
      (map (map_prod unat unat) calls) (tb_abs (tb_state b))"
  using calls st rate cap
proof (induction calls arbitrary: b)
  case (Cons call calls)
  obtain tokens now where call: "call = (tokens, now)" by (cases call)
  let ?rate = "unat (refill_rate_per_sec b)" and ?cap = "unat (burst_capacity b)"
  let ?st = "tb_abs (tb_state b)"
  have now: "unat now \<le> T" using Cons.prems call by simp
  have "unat now - fst ?st \<le> T - t0" using now Cons.prems(2) by simp
  then have "unat now - fst ?st < 2 ^ 31" using T by simp
  moreover have "?rate \<le> 1000" using Cons.prems(5) by (auto intro: dvd_imp_le)
  ultimately have "(unat now - fst ?st) * ?rate \<le> 2 ^ 31 * 1000" by (intro mult_le_mono) simp_all
  then have el: "(unat now - fst ?st) * ?rate div 1000 + 2 ^ 24 < 2 ^ 32" by simp
  have ref: "map_option tb_abs (tb_attempt b tokens now (tb_state b)) = bucket_spec ?rate ?cap (unat tokens) (unat now) ?st"
    using now T Cons.prems el by (intro tb_attempt_refines) simp_all
  show ?case
  proof (cases "tb_attempt b tokens now (tb_state b)")
    case None
    then show ?thesis using Cons call ref [symmetric] by (simp add: try_consume_attempt)
  next
    case (Some nxt)
    obtain lst tok where st: "?st = (lst, tok)" by (cases ?st)
    have spec: "bucket_spec ?rate ?cap (unat tokens) (unat now) (lst, tok) = Some (tb_abs nxt)"
      using ref Some st by simp
    have "fst (tb_abs nxt) \<le> T \<and> lst \<le> fst (tb_abs nxt)"
      using bucket_spec_credit [OF spec Cons.prems(5)] now Cons.prems st by simp
    moreover have "snd (tb_abs nxt) \<le> ?cap"
      using bucket_spec_cap [OF spec] Cons.prems st by simp
    ultimately have "tb_granted (b\<lparr>tb_state := nxt\<rparr>) calls =
        spec_granted ?rate ?cap (map (map_prod unat unat) calls) (tb_abs nxt)"
      using Cons.IH [of "b\<lparr>tb_state := nxt\<rparr>"] Cons.prems st by simp
    then show ?thesis using Some call ref [symmetric] by (simp add: try_consume_attempt)
  qed
qed simp

lemma tb_fresh_bound:
  fixes rate cap :: u32 and t0 :: u64
  assumes "unat rate dvd 1000" and "unat cap < 2 ^ 24"
    and "unat t0 \<le> T" and "T < 2 ^ 40" and "T - unat t0 < 2 ^ 31"
    and "\<forall>(tokens, now) \<in> set calls. unat now \<le> T"
  shows "1000 * tb_granted (bucket_new rate cap t0) calls \<le> 1000 * unat cap + unat rate * (T - unat t0)"
proof -
  let ?b = "bucket_new rate cap t0"
  have abs: "tb_abs (tb_state ?b) = (unat t0, unat cap)"
    using assms by (simp add: bucket_new_def tb_abs_pack)
  have "tb_granted ?b calls = spec_granted (unat rate) (unat cap) (map (map_prod unat unat) calls) (unat t0, unat cap)"
    using tb_granted_refines [of ?b T "unat t0" calls] assms abs by (simp add: bucket_new_def)
  moreover have "\<forall>(tokens, now) \<in> set (map (map_prod unat unat) calls). now \<le> T"
    using assms(6) by auto
  ultimately show ?thesis
    using spec_granted_credit [OF assms(1), of "map (map_prod unat unat) calls" T "(unat t0, unat cap)" "unat cap"] assms(3)
    by (simp add: credit_def)
qed

section \<open>Properties\<close>

text \<open>The token bucket limits the rate it promises: for a rate that divides 1000 and clock readings
  of at most \<open>T < 2 ^ 40\<close> milliseconds, any run of calls on a fresh bucket is granted at most the burst
  capacity plus the refill rate times the elapsed time.\<close>

theorem token_bucket_rate_bound:
  fixes rate cap :: u32 and t0 :: u64
  assumes "unat rate dvd 1000" and "unat cap < 2 ^ 24"
    and "unat t0 \<le> T" and "T < 2 ^ 40" and "T - unat t0 < 2 ^ 31"
    and "\<forall>(tokens, now) \<in> set calls. unat now \<le> T"
  shows "1000 * tb_granted (bucket_new rate cap t0) calls \<le> 1000 * unat cap + unat rate * (T - unat t0)"
  using assms by (rule tb_fresh_bound)

theorem token_bucket_rate_bound_witness:
  "1000 * tb_granted (bucket_new 100 10 1000) [(5, 1000), (5, 1000), (1, 1000), (5, 1100)]
     \<le> 1000 * unat (10 :: u32) + unat (100 :: u32) * (1100 - unat (1000 :: u64))"
  by (rule token_bucket_rate_bound) simp_all

text \<open>For a refill rate strictly between 1000 and 2000 tokens per second the limiter does not
  limit: one millisecond after the last refill an empty bucket grants a token, the millisecond is worth
  zero whole milliseconds of refill time, and the stored word is unchanged, so any number of calls at
  that instant succeeds.\<close>

theorem token_bucket_unlimited_between_1000_and_2000:
  fixes t0 :: u64 and rate cap :: u32
  assumes "1000 < rate" and "rate < 2000" and "1 < cap" and "cap < 2 ^ 24" and "unat t0 < 2 ^ 40 - 1"
    and "tb_state b = push_bit 24 t0" and "refill_rate_per_sec b = rate" and "burst_capacity b = cap"
  shows "tb_granted b (replicate n (1, t0 + 1)) = n \<and> try_consume b 1 (t0 + 1) = (b, True)"
proof -
  have un: "unat (t0 + 1) = unat t0 + 1" using assms(5) by (intro unat_Suc_nowrap) simp
  have "unat (push_bit 24 t0) = unat t0 * 2 ^ 24"
    using assms(5) by (intro unat_push_bit_nowrap) simp
  then have drop: "drop_bit 24 (push_bit 24 t0) = t0" and low: "push_bit 24 t0 AND 0x00FFFFFF = 0"
    by (simp_all add: word_unat_eq_iff unat_drop_bit mask_24 unat_and_mask)
  have r: "1000 < unat rate" "unat rate < 2000"
    using assms(1,2) by (simp_all add: word_less_nat_alt)
  have lt: "t0 < t0 + 1" using un by (simp add: word_less_nat_alt)
  have ref: "(ucast (1 * ucast rate div 1000 :: u64) :: u32) = 1"
    using r by (simp add: word_unat_eq_iff unat_ucast_mod unat_div_distrib) 
  have ms: "(ucast (1 :: u32) * 1000) div (ucast rate :: u64) = 0"
    using r by (simp add: word_unat_eq_iff unat_div_distrib)
  have "tb_refill b (t0 + 1) (tb_state b) = (t0, 1)"
    using lt assms(3) un ref ms
    by (simp add: tb_refill_def Let_def assms(6-8) drop low min_def word_le_nat_alt not_le word_less_nat_alt)
  then have one: "try_consume b 1 (t0 + 1) = (b, True)"
    by (simp add: try_consume_attempt tb_attempt_def assms(6))
  have "tb_granted b (replicate n (1, t0 + 1)) = n"
    by (induction n) (simp_all add: one)
  with one show ?thesis by simp
qed

theorem token_bucket_unlimited_witness:
  "tb_granted \<lparr>tb_state = push_bit 24 5000, refill_rate_per_sec = 1500, burst_capacity = 10\<rparr>
     (replicate 1000000 (1, 5000 + 1)) = 1000000 \<and>
   try_consume \<lparr>tb_state = push_bit 24 5000, refill_rate_per_sec = 1500, burst_capacity = 10\<rparr> 1 (5000 + 1)
     = (\<lparr>tb_state = push_bit 24 5000, refill_rate_per_sec = 1500, burst_capacity = 10\<rparr>, True)"
  by (rule token_bucket_unlimited_between_1000_and_2000) simp_all

text \<open>Forty bits of milliseconds end in November 2004: at a Unix time of June 2025 the stored time loses its top
  bit, every call sees an age of some 35 years, and a bucket of 5 tokens at 10 per second grants any
  number of calls in one millisecond.\<close>

theorem token_bucket_unlimited_at_unix_time:
  "tb_granted (bucket_new 10 5 1750000000000) (replicate n (1, 1750000000000)) = n"
proof -
  let ?now = "1750000000000 :: u64"
  let ?full = "bucket_new 10 5 ?now" and ?b = "(bucket_new 10 5 ?now)\<lparr>tb_state := 0x977420DC00000004\<rparr>"
  have one: "try_consume ?b 1 ?now = (?b, True)" and first: "try_consume ?full 1 ?now = (?b, True)"
    by (simp_all add: try_consume_attempt tb_attempt_def tb_refill_def bucket_new_def Let_def)
  have "tb_granted ?b (replicate n (1, ?now)) = n" for n by (induction n) (simp_all add: one)
  then show ?thesis by (cases n) (simp_all add: first)
qed

end
