(* ===== verification/Client_Session.thy ===== *)
theory Client_Session
  imports Token_Bucket
begin

text \<open>
  A connected client, \<open>src/crates/distribution/src/session.rs\<close>, and the filter predicate of
  \<open>src/crates/distribution/src/lib.rs\<close>. The fields behind atomics and locks are plain fields of the
  record; \<open>filter_poisoned\<close> says whether the filter's lock is poisoned. A 64-bit float is its bit
  pattern, compared as IEEE 754 orders it.
\<close>

section \<open>Floats, compared\<close>

type_synonym f64 = "64 word"

definition f64_is_nan :: "f64 \<Rightarrow> bool" where
  "f64_is_nan x \<longleftrightarrow> 0x7FF0000000000000 < x AND 0x7FFFFFFFFFFFFFFF"

text \<open>The order of the non-NaN values is that of sign and magnitude.\<close>

definition f64_key :: "f64 \<Rightarrow> int" where
  "f64_key x = (let m = uint (x AND 0x7FFFFFFFFFFFFFFF) in if bit x 63 then - m else m)"

definition f64_ge :: "f64 \<Rightarrow> f64 \<Rightarrow> bool" where
  "f64_ge x y \<longleftrightarrow> \<not> f64_is_nan x \<and> \<not> f64_is_nan y \<and> f64_key y \<le> f64_key x"

section \<open>The filter predicate\<close>

record ClientFilterPredicate =
  min_notional_usd :: f64
  max_spread_bps :: u32
  min_gas_priority_gwei :: u32
  target_prefix :: u64

definition filter_default :: ClientFilterPredicate where
  "filter_default = \<lparr>min_notional_usd = 0, max_spread_bps = 0, min_gas_priority_gwei = 0, target_prefix = 0\<rparr>"

definition matches_trade :: "ClientFilterPredicate \<Rightarrow> f64 \<Rightarrow> bool" where
  "matches_trade f notional_usd = f64_ge notional_usd (min_notional_usd f)"

definition matches_mempool :: "ClientFilterPredicate \<Rightarrow> u32 \<Rightarrow> bool" where
  "matches_mempool f priority_fee_gwei = (min_gas_priority_gwei f \<le> priority_fee_gwei)"

section \<open>The session\<close>

datatype WireProtocol = Sbe | Json

datatype SessionState = Disconnected | Connected | Subscribed | Closed

fun session_state_code :: "SessionState \<Rightarrow> u8" where
  "session_state_code Disconnected = 0"
| "session_state_code Connected = 1"
| "session_state_code Subscribed = 2"
| "session_state_code Closed = 3"

definition session_state_from :: "u8 \<Rightarrow> SessionState" where
  "session_state_from val =
     (if val = 1 then Connected else if val = 2 then Subscribed else if val = 3 then Closed else Disconnected)"

record ClientSession =
  session_id :: u32
  protocol :: WireProtocol
  session_state_raw :: u8
  rate_limiter :: LockFreeTokenBucket
  session_filter :: ClientFilterPredicate
  filter_poisoned :: bool
  last_ping_ts_ns :: u64
  last_pong_ts_ns :: u64
  messages_sent :: u64
  bytes_sent :: u64
  dropped_rate_limit :: u64

definition session_new :: "u32 \<Rightarrow> WireProtocol \<Rightarrow> u32 \<Rightarrow> u32 \<Rightarrow> u64 \<Rightarrow> ClientSession" where
  "session_new id' proto rate_per_sec burst now_ms =
     \<lparr>session_id = id', protocol = proto, session_state_raw = session_state_code Connected,
      rate_limiter = bucket_new rate_per_sec burst now_ms, session_filter = filter_default,
      filter_poisoned = False, last_ping_ts_ns = 0, last_pong_ts_ns = 0, messages_sent = 0,
      bytes_sent = 0, dropped_rate_limit = 0\<rparr>"

definition with_filter :: "ClientSession \<Rightarrow> ClientFilterPredicate \<Rightarrow> ClientSession" where
  "with_filter s f = s\<lparr>session_filter := f, filter_poisoned := False\<rparr>"

definition session_state :: "ClientSession \<Rightarrow> SessionState" where
  "session_state s = session_state_from (session_state_raw s)"

definition set_state :: "ClientSession \<Rightarrow> SessionState \<Rightarrow> ClientSession" where
  "set_state s new_state = s\<lparr>session_state_raw := session_state_code new_state\<rparr>"

definition is_active :: "ClientSession \<Rightarrow> bool" where
  "is_active s = (let st = session_state s in st = Connected \<or> st = Subscribed)"

definition record_ping :: "ClientSession \<Rightarrow> u64 \<Rightarrow> ClientSession" where
  "record_ping s ts_ns = s\<lparr>last_ping_ts_ns := ts_ns\<rparr>"

definition record_pong :: "ClientSession \<Rightarrow> u64 \<Rightarrow> ClientSession" where
  "record_pong s ts_ns = s\<lparr>last_pong_ts_ns := ts_ns\<rparr>"

definition is_heartbeat_healthy :: "ClientSession \<Rightarrow> u64 \<Rightarrow> u64 \<Rightarrow> bool" where
  "is_heartbeat_healthy s now_ns timeout_ns =
     (let last_pong = last_pong_ts_ns s
      in if last_pong = 0
         then let last_ping = last_ping_ts_ns s
              in last_ping = 0 \<or> saturating_sub now_ns last_ping \<le> timeout_ns
         else saturating_sub now_ns last_pong \<le> timeout_ns)"

definition try_consume_token :: "ClientSession \<Rightarrow> u32 \<Rightarrow> u64 \<Rightarrow> ClientSession \<times> bool" where
  "try_consume_token s tokens now_ms =
     (let (b, allowed) = try_consume (rate_limiter s) tokens now_ms;
          s = s\<lparr>rate_limiter := b\<rparr>
      in (if allowed then s else s\<lparr>dropped_rate_limit := dropped_rate_limit s + 1\<rparr>, allowed))"

definition record_delivery :: "ClientSession \<Rightarrow> nat \<Rightarrow> ClientSession" where
  "record_delivery s n =
     s\<lparr>messages_sent := messages_sent s + 1, bytes_sent := bytes_sent s + of_nat n\<rparr>"

section \<open>Lemmas\<close>

lemma session_state_roundtrip [simp]: "session_state_from (session_state_code st) = st"
  by (cases st) (simp_all add: session_state_from_def)

lemma session_state_set_state [simp]: "session_state (set_state s st) = st"
  by (simp add: session_state_def set_state_def)

lemma is_active_set_state [simp]: "is_active (set_state s st) \<longleftrightarrow> st = Connected \<or> st = Subscribed"
  by (simp add: is_active_def Let_def)

lemma session_new_active [simp]: "is_active (session_new i p r b t)"
  by (simp add: is_active_def session_new_def session_state_def session_state_from_def)

lemma try_consume_token_fields [simp]:
  "protocol (fst (try_consume_token s n t)) = protocol s"
  "session_id (fst (try_consume_token s n t)) = session_id s"
  "session_state_raw (fst (try_consume_token s n t)) = session_state_raw s"
  "session_filter (fst (try_consume_token s n t)) = session_filter s"
  "filter_poisoned (fst (try_consume_token s n t)) = filter_poisoned s"
  "messages_sent (fst (try_consume_token s n t)) = messages_sent s"
  "bytes_sent (fst (try_consume_token s n t)) = bytes_sent s"
  by (simp_all add: try_consume_token_def Let_def split: prod.splits)

lemma try_consume_token_result:
  "snd (try_consume_token s n t) \<longleftrightarrow> snd (try_consume (rate_limiter s) n t)"
  by (simp add: try_consume_token_def Let_def split: prod.splits)

end
