(* ===== verification/Ingest_Models.thy ===== *)
theory Ingest_Models
  imports Rust_Prelude
begin

text \<open>
  The normalized data model of \<open>src/crates/ingest-models/src/lib.rs\<close>: the four-point telemetry, the
  venue, chain and side identifiers with their wire codes, the L1 quote and the trade record. Prices
  and quantities are integers scaled by \<open>10 ^ 8\<close>.
\<close>

record TelemetryTimestamps =
  t0_exchange_ns :: u64
  t1_ingest_nic_ns :: u64
  t2_engine_proc_ns :: u64
  t3_egress_ns :: u64

definition internal_processing_latency_ns :: "TelemetryTimestamps \<Rightarrow> u64" where
  "internal_processing_latency_ns t = saturating_sub (t2_engine_proc_ns t) (t1_ingest_nic_ns t)"

definition wire_to_egress_latency_ns :: "TelemetryTimestamps \<Rightarrow> u64" where
  "wire_to_egress_latency_ns t = saturating_sub (t3_egress_ns t) (t1_ingest_nic_ns t)"

definition telemetry_default :: TelemetryTimestamps where
  "telemetry_default =
     \<lparr>t0_exchange_ns = 0, t1_ingest_nic_ns = 0, t2_engine_proc_ns = 0, t3_egress_ns = 0\<rparr>"

datatype VenueId =
  Binance | Coinbase | Bybit | Okx | UniswapV2 | UniswapV3 | UniswapV4 | Curve | Raydium | Orca

fun venue_code :: "VenueId \<Rightarrow> u16" where
  "venue_code Binance = 1"
| "venue_code Coinbase = 2"
| "venue_code Bybit = 3"
| "venue_code Okx = 4"
| "venue_code UniswapV2 = 101"
| "venue_code UniswapV3 = 102"
| "venue_code UniswapV4 = 104"
| "venue_code Curve = 103"
| "venue_code Raydium = 201"
| "venue_code Orca = 202"

datatype ChainId = OffChain | Ethereum | Optimism | Bsc | Solana | Base | Arbitrum

fun chain_code :: "ChainId \<Rightarrow> u16" where
  "chain_code OffChain = 0"
| "chain_code Ethereum = 1"
| "chain_code Optimism = 10"
| "chain_code Bsc = 56"
| "chain_code Solana = 501"
| "chain_code Base = 8453"
| "chain_code Arbitrum = 42161"

datatype Side = Buy | Sell | TwoSided

fun side_code :: "Side \<Rightarrow> u8" where
  "side_code Buy = 1"
| "side_code Sell = 2"
| "side_code TwoSided = 3"

record NormalizedBbo =
  bbo_telemetry :: TelemetryTimestamps
  bbo_market_id :: u32
  bbo_venue :: u16
  bbo_chain :: u16
  bbo_sequence :: u64
  bid_price :: i64
  bid_qty :: u64
  ask_price :: i64
  ask_qty :: u64
  spread_bps :: u16
  bbo_flags :: u16

definition bbo_default :: NormalizedBbo where
  "bbo_default = \<lparr>bbo_telemetry = telemetry_default, bbo_market_id = 0, bbo_venue = 0, bbo_chain = 0,
     bbo_sequence = 0, bid_price = 0, bid_qty = 0, ask_price = 0, ask_qty = 0, spread_bps = 0,
     bbo_flags = 0\<rparr>"

record UnifiedTrade =
  trade_telemetry :: TelemetryTimestamps
  trade_market_id :: u32
  trade_venue :: u16
  trade_chain :: u16
  trade_sequence :: u64
  trade_id :: u64
  trade_price :: i64
  trade_size :: u64
  trade_side :: u8
  is_liquidation :: bool

definition trade_default :: UnifiedTrade where
  "trade_default = \<lparr>trade_telemetry = telemetry_default, trade_market_id = 0, trade_venue = 0,
     trade_chain = 0, trade_sequence = 0, trade_id = 0, trade_price = 0, trade_size = 0,
     trade_side = 0, is_liquidation = False\<rparr>"

lemma venue_code_inject [simp]: "venue_code v = venue_code w \<longleftrightarrow> v = w"
  by (cases v; cases w) simp_all

lemma venue_code_fits_u8: "venue_code v < 256"
  by (cases v) simp_all

lemma chain_code_inject [simp]: "chain_code c = chain_code d \<longleftrightarrow> c = d"
  by (cases c; cases d) simp_all

end
