(* ===== verification/Sbe.thy ===== *)
theory Sbe
  imports Ingest_Models
begin

text \<open>
  The Simple Binary Encoding of \<open>src/crates/distribution/src/sbe.rs\<close>: the 8-byte header, the two
  encoders, which write field by field into a caller's buffer, and the two decoders, which check the
  length, the schema and the template first. The interface \<open>wire_codec\<close> states what the
  router relies on; both message types are shown to satisfy it.
\<close>

section \<open>Constants, errors, header\<close>

definition SBE_HEADER_LEN :: nat where "SBE_HEADER_LEN = 8"
definition SBE_SCHEMA_ID :: u16 where "SBE_SCHEMA_ID = 1"
definition SBE_SCHEMA_VERSION :: u16 where "SBE_SCHEMA_VERSION = 1"
definition TEMPLATE_ID_BBO :: u16 where "TEMPLATE_ID_BBO = 101"
definition BLOCK_LENGTH_BBO :: u16 where "BLOCK_LENGTH_BBO = 84"
definition TOTAL_SBE_BBO_LEN :: nat where "TOTAL_SBE_BBO_LEN = SBE_HEADER_LEN + unat BLOCK_LENGTH_BBO"
definition TEMPLATE_ID_TRADE :: u16 where "TEMPLATE_ID_TRADE = 104"
definition BLOCK_LENGTH_TRADE :: u16 where "BLOCK_LENGTH_TRADE = 85"
definition TOTAL_SBE_TRADE_LEN :: nat where
  "TOTAL_SBE_TRADE_LEN = SBE_HEADER_LEN + unat BLOCK_LENGTH_TRADE + 2"

lemmas sbe_consts = SBE_HEADER_LEN_def SBE_SCHEMA_ID_def SBE_SCHEMA_VERSION_def TEMPLATE_ID_BBO_def
  BLOCK_LENGTH_BBO_def TOTAL_SBE_BBO_LEN_def TEMPLATE_ID_TRADE_def BLOCK_LENGTH_TRADE_def
  TOTAL_SBE_TRADE_LEN_def

datatype SbeError =
    BufferTooSmall nat nat  \<comment> \<open>required, provided\<close>
  | InvalidHeader
  | UnsupportedTemplateId u16
  | InvalidSchemaId u16
  | InvalidSchemaVersion u16

record SbeMessageHeader =
  block_length :: u16
  template_id :: u16
  schema_id :: u16
  version :: u16

definition header_new :: "u16 \<Rightarrow> u16 \<Rightarrow> SbeMessageHeader" where
  "header_new bl tid =
     \<lparr>block_length = bl, template_id = tid, schema_id = SBE_SCHEMA_ID, version = SBE_SCHEMA_VERSION\<rparr>"

definition header_write_to :: "SbeMessageHeader \<Rightarrow> bytes \<Rightarrow> bytes" where
  "header_write_to h buf =
     (let buf = write_at buf 0 (to_le 2 (block_length h));
          buf = write_at buf 2 (to_le 2 (template_id h));
          buf = write_at buf 4 (to_le 2 (schema_id h))
      in write_at buf 6 (to_le 2 (version h)))"

definition header_read_from :: "bytes \<Rightarrow> SbeError + SbeMessageHeader" where
  "header_read_from buf =
     (if length buf < SBE_HEADER_LEN then Inl (BufferTooSmall SBE_HEADER_LEN (length buf))
      else let block_length = from_le (subslice buf 0 2);
               template_id = from_le (subslice buf 2 2);
               schema_id = from_le (subslice buf 4 2);
               version = from_le (subslice buf 6 2)
           in if schema_id \<noteq> SBE_SCHEMA_ID then Inl (InvalidSchemaId schema_id)
              else Inr \<lparr>block_length = block_length, template_id = template_id,
                        schema_id = schema_id, version = version\<rparr>)"

section \<open>Encoders and decoders\<close>

text \<open>An encoder returns the number of bytes written and the buffer; on an error the buffer is
  untouched.\<close>

definition encode_bbo_sbe :: "NormalizedBbo \<Rightarrow> bytes \<Rightarrow> SbeError + nat \<times> bytes" where
  "encode_bbo_sbe bbo out =
     (if length out < TOTAL_SBE_BBO_LEN then Inl (BufferTooSmall TOTAL_SBE_BBO_LEN (length out))
      else let out = write_at out 0
                 (header_write_to (header_new BLOCK_LENGTH_BBO TEMPLATE_ID_BBO) (subslice out 0 8));
               out = write_at out 8 (to_le 8 (t0_exchange_ns (bbo_telemetry bbo)));
               out = write_at out 16 (to_le 8 (t1_ingest_nic_ns (bbo_telemetry bbo)));
               out = write_at out 24 (to_le 8 (t2_engine_proc_ns (bbo_telemetry bbo)));
               out = write_at out 32 (to_le 8 (t3_egress_ns (bbo_telemetry bbo)));
               out = write_at out 40 (to_le 2 (bbo_venue bbo));
               out = write_at out 42 (to_le 2 (bbo_chain bbo));
               out = write_at out 44 (to_le 4 (bbo_market_id bbo));
               out = write_at out 48 (to_le 8 (bbo_sequence bbo));
               out = write_at out 56 (to_le 8 (bid_price bbo));
               out = write_at out 64 (to_le 8 (bid_qty bbo));
               out = write_at out 72 (to_le 8 (ask_price bbo));
               out = write_at out 80 (to_le 8 (ask_qty bbo));
               out = write_at out 88 (to_le 2 (spread_bps bbo));
               out = write_at out 90 (to_le 2 (bbo_flags bbo))
           in Inr (TOTAL_SBE_BBO_LEN, out))"

definition decode_bbo_sbe :: "bytes \<Rightarrow> SbeError + NormalizedBbo" where
  "decode_bbo_sbe buf =
     (if length buf < TOTAL_SBE_BBO_LEN then Inl (BufferTooSmall TOTAL_SBE_BBO_LEN (length buf))
      else case header_read_from (subslice buf 0 8) of
        Inl e \<Rightarrow> Inl e
      | Inr header \<Rightarrow>
          if template_id header \<noteq> TEMPLATE_ID_BBO then Inl (UnsupportedTemplateId (template_id header))
          else Inr
            \<lparr>bbo_telemetry =
               \<lparr>t0_exchange_ns = from_le (subslice buf 8 8), t1_ingest_nic_ns = from_le (subslice buf 16 8),
                t2_engine_proc_ns = from_le (subslice buf 24 8), t3_egress_ns = from_le (subslice buf 32 8)\<rparr>,
             bbo_market_id = from_le (subslice buf 44 4),
             bbo_venue = from_le (subslice buf 40 2),
             bbo_chain = from_le (subslice buf 42 2),
             bbo_sequence = from_le (subslice buf 48 8),
             bid_price = from_le (subslice buf 56 8),
             bid_qty = from_le (subslice buf 64 8),
             ask_price = from_le (subslice buf 72 8),
             ask_qty = from_le (subslice buf 80 8),
             spread_bps = from_le (subslice buf 88 2),
             bbo_flags = from_le (subslice buf 90 2)\<rparr>)"

definition trade_quote_qty :: "UnifiedTrade \<Rightarrow> u64" where
  "trade_quote_qty trade =
     (if 0 < sint (trade_price trade)
      then ucast (((ucast (trade_price trade) :: u128) * ucast (trade_size trade)) div 100000000)
      else 0)"

definition encode_trade_sbe :: "UnifiedTrade \<Rightarrow> bytes \<Rightarrow> SbeError + nat \<times> bytes" where
  "encode_trade_sbe trade out =
     (if length out < TOTAL_SBE_TRADE_LEN then Inl (BufferTooSmall TOTAL_SBE_TRADE_LEN (length out))
      else let out = write_at out 0
                 (header_write_to (header_new BLOCK_LENGTH_TRADE TEMPLATE_ID_TRADE) (subslice out 0 8));
               out = write_at out 8 (to_le 8 (t0_exchange_ns (trade_telemetry trade)));
               out = write_at out 16 (to_le 8 (t1_ingest_nic_ns (trade_telemetry trade)));
               out = write_at out 24 (to_le 8 (t2_engine_proc_ns (trade_telemetry trade)));
               out = write_at out 32 (to_le 8 (t3_egress_ns (trade_telemetry trade)));
               out = write_at out 40 (to_le 2 (trade_venue trade));
               out = write_at out 42 (to_le 2 (trade_chain trade));
               out = write_at out 44 (to_le 4 (trade_market_id trade));
               out = write_at out 48 (to_le 8 (trade_sequence trade));
               out = write_at out 56 (to_le 8 (trade_id trade));
               out = write_at out 64 [trade_side trade];
               out = write_at out 65 (to_le 8 (trade_price trade));
               out = write_at out 73 (to_le 8 (trade_size trade));
               out = write_at out 81 (to_le 8 (trade_quote_qty trade));
               out = write_at out 89 (to_le 2 (0 :: u16));
               out = write_at out 91 [if is_liquidation trade then 1 else 0];
               out = write_at out 92 [1];
               out = write_at out 93 (to_le 2 (0 :: u16))
           in Inr (TOTAL_SBE_TRADE_LEN, out))"

definition decode_trade_sbe :: "bytes \<Rightarrow> SbeError + UnifiedTrade" where
  "decode_trade_sbe buf =
     (if length buf < TOTAL_SBE_TRADE_LEN then Inl (BufferTooSmall TOTAL_SBE_TRADE_LEN (length buf))
      else case header_read_from (subslice buf 0 8) of
        Inl e \<Rightarrow> Inl e
      | Inr header \<Rightarrow>
          if template_id header \<noteq> TEMPLATE_ID_TRADE then Inl (UnsupportedTemplateId (template_id header))
          else Inr
            \<lparr>trade_telemetry =
               \<lparr>t0_exchange_ns = from_le (subslice buf 8 8), t1_ingest_nic_ns = from_le (subslice buf 16 8),
                t2_engine_proc_ns = from_le (subslice buf 24 8), t3_egress_ns = from_le (subslice buf 32 8)\<rparr>,
             trade_market_id = from_le (subslice buf 44 4),
             trade_venue = from_le (subslice buf 40 2),
             trade_chain = from_le (subslice buf 42 2),
             trade_sequence = from_le (subslice buf 48 8),
             trade_id = from_le (subslice buf 56 8),
             trade_price = from_le (subslice buf 65 8),
             trade_size = from_le (subslice buf 73 8),
             trade_side = buf ! 64,
             is_liquidation = (buf ! 91 \<noteq> 0)\<rparr>)"

section \<open>The wire image\<close>

text \<open>Successive writes at adjacent offsets build the message front to back.\<close>

lemma write_at_front:
  "length bs \<le> length out \<Longrightarrow> write_at out 0 bs = bs @ drop (length bs) out"
  by (simp add: write_at_def)

lemma write_at_append:
  "off = length pre \<Longrightarrow> write_at (pre @ rest) off bs = (pre @ bs) @ drop (length bs) rest"
  by (simp add: write_at_def)

lemmas write_chain = write_at_front write_at_append

definition header_wire :: "u16 \<Rightarrow> u16 \<Rightarrow> bytes" where
  "header_wire bl tid = to_le 2 bl @ to_le 2 tid @ to_le 2 SBE_SCHEMA_ID @ to_le 2 SBE_SCHEMA_VERSION"

lemma length_header_wire [simp]: "length (header_wire bl tid) = 8"
  by (simp add: header_wire_def)

lemma header_write_to_wire: "length buf = 8 \<Longrightarrow> header_write_to (header_new bl tid) buf = header_wire bl tid"
  by (simp add: header_write_to_def header_new_def header_wire_def Let_def write_chain
      del: append_assoc)

lemma header_read_from_wire:
  "header_read_from (header_wire bl tid) =
     Inr \<lparr>block_length = bl, template_id = tid, schema_id = SBE_SCHEMA_ID, version = SBE_SCHEMA_VERSION\<rparr>"
  by (simp add: header_read_from_def header_wire_def sbe_consts subslice_def)

definition telemetry_wire :: "TelemetryTimestamps \<Rightarrow> bytes" where
  "telemetry_wire t = to_le 8 (t0_exchange_ns t) @ to_le 8 (t1_ingest_nic_ns t)
     @ to_le 8 (t2_engine_proc_ns t) @ to_le 8 (t3_egress_ns t)"

definition bbo_wire :: "NormalizedBbo \<Rightarrow> bytes" where
  "bbo_wire b = header_wire BLOCK_LENGTH_BBO TEMPLATE_ID_BBO @ telemetry_wire (bbo_telemetry b)
     @ to_le 2 (bbo_venue b) @ to_le 2 (bbo_chain b) @ to_le 4 (bbo_market_id b)
     @ to_le 8 (bbo_sequence b) @ to_le 8 (bid_price b) @ to_le 8 (bid_qty b) @ to_le 8 (ask_price b)
     @ to_le 8 (ask_qty b) @ to_le 2 (spread_bps b) @ to_le 2 (bbo_flags b)"

definition trade_wire :: "UnifiedTrade \<Rightarrow> bytes" where
  "trade_wire t = header_wire BLOCK_LENGTH_TRADE TEMPLATE_ID_TRADE @ telemetry_wire (trade_telemetry t)
     @ to_le 2 (trade_venue t) @ to_le 2 (trade_chain t) @ to_le 4 (trade_market_id t)
     @ to_le 8 (trade_sequence t) @ to_le 8 (trade_id t) @ [trade_side t] @ to_le 8 (trade_price t)
     @ to_le 8 (trade_size t) @ to_le 8 (trade_quote_qty t) @ to_le 2 (0 :: u16)
     @ [if is_liquidation t then 1 else 0] @ [1] @ to_le 2 (0 :: u16)"

lemma length_telemetry_wire [simp]: "length (telemetry_wire t) = 32"
  by (simp add: telemetry_wire_def)

lemma length_bbo_wire [simp]: "length (bbo_wire b) = TOTAL_SBE_BBO_LEN"
  by (simp add: bbo_wire_def sbe_consts)

lemma length_trade_wire [simp]: "length (trade_wire t) = TOTAL_SBE_TRADE_LEN"
  by (simp add: trade_wire_def sbe_consts)

lemma encode_bbo_wire:
  assumes "TOTAL_SBE_BBO_LEN \<le> length out"
  shows "encode_bbo_sbe b out = Inr (TOTAL_SBE_BBO_LEN, bbo_wire b @ drop TOTAL_SBE_BBO_LEN out)"
proof -
  have len: "92 \<le> length out" using assms by (simp add: sbe_consts)
  then have "header_write_to (header_new BLOCK_LENGTH_BBO TEMPLATE_ID_BBO) (subslice out 0 8)
      = header_wire BLOCK_LENGTH_BBO TEMPLATE_ID_BBO"
    by (intro header_write_to_wire) (simp add: subslice_def)
  with len show ?thesis
    apply (simp add: encode_bbo_sbe_def Let_def write_chain TOTAL_SBE_BBO_LEN_def SBE_HEADER_LEN_def
        BLOCK_LENGTH_BBO_def[THEN arg_cong[where f=unat]] del: append_assoc)
    apply (simp add: bbo_wire_def telemetry_wire_def)
    done
qed

lemma encode_trade_wire:
  assumes "TOTAL_SBE_TRADE_LEN \<le> length out"
  shows "encode_trade_sbe t out = Inr (TOTAL_SBE_TRADE_LEN, trade_wire t @ drop TOTAL_SBE_TRADE_LEN out)"
proof -
  have len: "95 \<le> length out" using assms by (simp add: sbe_consts)
  then have "header_write_to (header_new BLOCK_LENGTH_TRADE TEMPLATE_ID_TRADE) (subslice out 0 8)
      = header_wire BLOCK_LENGTH_TRADE TEMPLATE_ID_TRADE"
    by (intro header_write_to_wire) (simp add: subslice_def)
  with len show ?thesis
    apply (simp add: encode_trade_sbe_def Let_def write_chain TOTAL_SBE_TRADE_LEN_def SBE_HEADER_LEN_def
        BLOCK_LENGTH_TRADE_def[THEN arg_cong[where f=unat]] del: append_assoc)
    apply (simp add: trade_wire_def telemetry_wire_def)
    done
qed

lemma header_of_wire: "subslice (header_wire bl tid @ rest) 0 8 = header_wire bl tid"
  by (simp add: subslice_def)

lemma decode_bbo_wire: "decode_bbo_sbe (bbo_wire b @ rest) = Inr b"
  by (simp add: decode_bbo_sbe_def bbo_wire_def header_of_wire header_read_from_wire)
     (simp add: subslice_def telemetry_wire_def sbe_consts)

lemma decode_trade_wire: "decode_trade_sbe (trade_wire t @ rest) = Inr t"
  by (simp add: decode_trade_sbe_def trade_wire_def header_of_wire header_read_from_wire)
     (simp add: subslice_def telemetry_wire_def sbe_consts nth_append)

section \<open>The codec interface\<close>

text \<open>What a consumer of a fixed-length codec may rely on: a short buffer is an error that names both
  sizes; a large enough one receives exactly \<open>total\<close> bytes that depend on the message only, and the
  rest of the buffer is left alone; decoding those bytes, with anything behind them, gives the
  message back.\<close>

locale wire_codec =
  fixes encode :: "'m \<Rightarrow> bytes \<Rightarrow> SbeError + nat \<times> bytes"
    and decode :: "bytes \<Rightarrow> SbeError + 'm"
    and wire :: "'m \<Rightarrow> bytes"
    and total :: nat
  assumes encode_short: "length out < total \<Longrightarrow> encode m out = Inl (BufferTooSmall total (length out))"
    and decode_short: "length buf < total \<Longrightarrow> decode buf = Inl (BufferTooSmall total (length buf))"
    and length_wire: "length (wire m) = total"
    and encode_wire: "total \<le> length out \<Longrightarrow> encode m out = Inr (total, wire m @ drop total out)"
    and decode_wire: "decode (wire m @ rest) = Inr m"
begin

lemma encode_iff: "encode m out = Inr (n, out') \<longleftrightarrow>
    total \<le> length out \<and> n = total \<and> out' = wire m @ drop total out"
proof (cases "length out < total")
  case True
  then show ?thesis using encode_short [OF True, of m] by simp
next
  case False
  then have le: "total \<le> length out" by simp
  show ?thesis using encode_wire [OF le, of m] le by (metis Inr_inject prod.inject)
qed

lemma roundtrip:
  "encode m out = Inr (n, out') \<Longrightarrow>
   decode (take n out') = Inr m \<and> length out' = length out \<and> drop n out' = drop n out"
  using decode_wire [of m "[]"] by (auto simp: encode_iff length_wire)

lemma wire_inject: "wire m = wire m' \<longleftrightarrow> m = m'"
  by (metis Inr_inject decode_wire)

end

interpretation bbo_codec: wire_codec encode_bbo_sbe decode_bbo_sbe bbo_wire TOTAL_SBE_BBO_LEN
  by unfold_locales
    (simp_all add: encode_bbo_wire decode_bbo_wire, simp_all add: encode_bbo_sbe_def decode_bbo_sbe_def)

interpretation trade_codec: wire_codec encode_trade_sbe decode_trade_sbe trade_wire TOTAL_SBE_TRADE_LEN
  by unfold_locales
    (simp_all add: encode_trade_wire decode_trade_wire, simp_all add: encode_trade_sbe_def decode_trade_sbe_def)

section \<open>Properties\<close>

text \<open>C6: Encoding a quote into any buffer of at least 92 bytes succeeds, reports 92, leaves the bytes
  behind the frame alone, and decoding the frame gives the quote back in every field; a shorter buffer
  is refused with both sizes.\<close>

theorem sbe_bbo_roundtrip:
  "(case encode_bbo_sbe bbo out of
      Inr (n, out') \<Rightarrow> n = 92 \<and> 92 \<le> length out \<and> length out' = length out
        \<and> drop 92 out' = drop 92 out \<and> decode_bbo_sbe (take n out') = Inr bbo \<and> decode_bbo_sbe out' = Inr bbo
    | Inl e \<Rightarrow> length out < 92 \<and> e = BufferTooSmall 92 (length out))"
proof (cases "length out < TOTAL_SBE_BBO_LEN")
  case True
  then show ?thesis using bbo_codec.encode_short [OF True, of bbo] by (simp add: sbe_consts)
next
  case False
  then have enc: "encode_bbo_sbe bbo out = Inr (TOTAL_SBE_BBO_LEN, bbo_wire bbo @ drop TOTAL_SBE_BBO_LEN out)"
    by (intro bbo_codec.encode_wire) simp
  show ?thesis
    using bbo_codec.roundtrip [OF enc] bbo_codec.decode_wire [of bbo "drop TOTAL_SBE_BBO_LEN out"] enc False
    by (simp add: TOTAL_SBE_BBO_LEN_def SBE_HEADER_LEN_def BLOCK_LENGTH_BBO_def)
qed

text \<open>C7: The same for trades and 95 bytes: the trade record, its liquidation flag included, survives
  the round trip.\<close>

theorem sbe_trade_roundtrip:
  "(case encode_trade_sbe trade out of
      Inr (n, out') \<Rightarrow> n = 95 \<and> 95 \<le> length out \<and> length out' = length out
        \<and> drop 95 out' = drop 95 out \<and> decode_trade_sbe (take n out') = Inr trade
        \<and> decode_trade_sbe out' = Inr trade
    | Inl e \<Rightarrow> length out < 95 \<and> e = BufferTooSmall 95 (length out))"
proof (cases "length out < TOTAL_SBE_TRADE_LEN")
  case True
  then show ?thesis using trade_codec.encode_short [OF True, of trade] by (simp add: sbe_consts)
next
  case False
  then have enc: "encode_trade_sbe trade out = Inr (TOTAL_SBE_TRADE_LEN, trade_wire trade @ drop TOTAL_SBE_TRADE_LEN out)"
    by (intro trade_codec.encode_wire) simp
  show ?thesis
    using trade_codec.roundtrip [OF enc] trade_codec.decode_wire [of trade "drop TOTAL_SBE_TRADE_LEN out"] enc False
    by (simp add: TOTAL_SBE_TRADE_LEN_def SBE_HEADER_LEN_def BLOCK_LENGTH_TRADE_def)
qed

lemma decode_bbo_trade_wire:
  "decode_bbo_sbe (trade_wire t @ rest) = Inl (UnsupportedTemplateId TEMPLATE_ID_TRADE)"
  by (simp add: decode_bbo_sbe_def trade_wire_def header_of_wire header_read_from_wire)
     (simp add: sbe_consts)

lemma decode_trade_bbo_wire:
  "3 \<le> length rest \<Longrightarrow> decode_trade_sbe (bbo_wire b @ rest) = Inl (UnsupportedTemplateId TEMPLATE_ID_BBO)"
  by (simp add: decode_trade_sbe_def bbo_wire_def header_of_wire header_read_from_wire)
     (simp add: sbe_consts)

text \<open>Frames of the two templates are never confused: the quote decoder refuses every trade frame
  with the trade template id, the trade decoder refuses every quote frame (with the template id when the
  buffer is long enough for a trade, else as too short), and within a template two messages with the
  same frame are equal.\<close>

theorem sbe_templates_distinguished:
  "decode_bbo_sbe (trade_wire t @ rest) = Inl (UnsupportedTemplateId 104) \<and>
   decode_trade_sbe (bbo_wire b @ rest) =
     (if length rest < 3 then Inl (BufferTooSmall 95 (92 + length rest)) else Inl (UnsupportedTemplateId 101)) \<and>
   (bbo_wire b = bbo_wire b' \<longleftrightarrow> b = b') \<and> (trade_wire t = trade_wire t' \<longleftrightarrow> t = t')"
proof -
  have "decode_trade_sbe (bbo_wire b @ rest) = Inl (BufferTooSmall 95 (92 + length rest))" if "length rest < 3"
    using trade_codec.decode_short [of "bbo_wire b @ rest"] that by (simp add: sbe_consts)
  then show ?thesis
    using decode_bbo_trade_wire [of t rest] decode_trade_bbo_wire [of rest b]
      bbo_codec.wire_inject [of b b'] trade_codec.wire_inject [of t t']
    by (simp add: TEMPLATE_ID_BBO_def TEMPLATE_ID_TRADE_def)
qed

end
