(* ===== verification/Fixed_Point.thy ===== *)
theory Fixed_Point
  imports Rust_Prelude
begin

text \<open>
  The fixed-point scaler \<open>parse_fixed_point_8\<close> of \<open>src/crates/core-engine/src/lib.rs\<close>: an ASCII
  decimal number to an integer scaled by \<open>10 ^ 8\<close>, on wrapping 64-bit arithmetic. The reference digits
  \<open>dec\<close> and \<open>pad\<close> say what is parsed.
\<close>

section \<open>The parser\<close>

text \<open>One pass of the scan loop; the state is \<open>result\<close> and \<open>decimal_places\<close>.\<close>

definition parse_fp_step :: "u8 \<Rightarrow> i64 \<times> i32 \<Rightarrow> i64 \<times> i32" where
  "parse_fp_step byte = (\<lambda>(result, decimal_places).
     if byte = 46 then (result, 0)
     else if 48 \<le> byte \<and> byte \<le> 57
     then (result * 10 + ucast (byte - 48),
           if 0 \<le> sint decimal_places then decimal_places + 1 else decimal_places)
     else (result, decimal_places))"

text \<open>The two scaling loops run as often as \<open>shift\<close> is away from zero.\<close>

definition parse_fp_scale :: "i64 \<Rightarrow> i32 \<Rightarrow> i64" where
  "parse_fp_scale result shift =
     (((\<lambda>r. sdivide r 10) ^^ nat (- sint shift)) (((\<lambda>r. r * 10) ^^ nat (sint shift)) result))"

definition parse_fixed_point_8 :: "bytes \<Rightarrow> i64" where
  "parse_fixed_point_8 val =
     (let is_negative = (val \<noteq> [] \<and> hd val = 45);
          i = (if is_negative then 1 else 0);
          (result, decimal_places) = fold parse_fp_step (drop i val) (0, - 1);
          shift = 8 - (if sint decimal_places < 0 then 0 else decimal_places);
          result = parse_fp_scale result shift
      in if is_negative then - result else result)"

section \<open>Reference digits\<close>

text \<open>The decimal digits of a number, without and with zero padding.\<close>

fun dec :: "nat \<Rightarrow> bytes" where
  "dec n = (if n < 10 then [48 + of_nat n] else dec (n div 10) @ [48 + of_nat (n mod 10)])"

declare dec.simps [simp del]

fun pad :: "nat \<Rightarrow> nat \<Rightarrow> bytes" where
  "pad 0 n = []"
| "pad (Suc k) n = pad k (n div 10) @ [48 + of_nat (n mod 10)]"

lemma length_pad [simp]: "length (pad k n) = k"
  by (induction k arbitrary: n) auto

lemma length_dec_le: "n < 10 ^ k \<Longrightarrow> 0 < k \<Longrightarrow> length (dec n) \<le> k"
proof (induction n arbitrary: k rule: dec.induct)
  case (1 n)
  show ?case
  proof (cases "n < 10")
    case True
    then show ?thesis using "1.prems" by (simp add: dec.simps [of n])
  next
    case False
    obtain k' where k: "k = Suc k'" using "1.prems"(2) by (cases k) auto
    with False "1.prems"(1) have "n div 10 < 10 ^ k'" "0 < k'"
      by (simp add: div_less_iff_less_mult mult.commute, cases k') simp_all
    then show ?thesis using "1.IH" [OF False, of k'] False k by (simp add: dec.simps [of n])
  qed
qed

lemma length_dec_pos [simp]: "0 < length (dec n)"
  by (subst dec.simps) simp

section \<open>Parsing digits\<close>

lemma digit_byte:
  assumes "d < 10"
  shows "48 \<le> (48 + of_nat d :: u8)" "(48 + of_nat d :: u8) \<le> 57" "(48 + of_nat d :: u8) \<noteq> 46" "(48 + of_nat d :: u8) \<noteq> 45"
    "(ucast ((48 + of_nat d) - 48 :: u8) :: i64) = of_nat d"
proof -
  have u: "unat (48 + of_nat d :: u8) = 48 + d"
    using assms by (simp add: unat_add_nowrap unat_of_nat_small)
  then show "48 \<le> (48 + of_nat d :: u8)" "(48 + of_nat d :: u8) \<le> 57"
    using assms by (simp_all add: word_le_nat_alt)
  show "(48 + of_nat d :: u8) \<noteq> 46" using arg_cong [where f = unat, of "48 + of_nat d" "46 :: u8"] u by auto
  show "(48 + of_nat d :: u8) \<noteq> 45" using arg_cong [where f = unat, of "48 + of_nat d" "45 :: u8"] u by auto
  show "(ucast ((48 + of_nat d) - 48 :: u8) :: i64) = of_nat d"
    using assms by (simp add: unat_of_nat_small word_unat_eq_iff)
qed

text \<open>ASCII digits and the number they denote.\<close>

definition ascii :: "nat list \<Rightarrow> bytes" where
  "ascii ds = map (\<lambda>d. 48 + of_nat d) ds"

definition digits :: "nat list \<Rightarrow> bool" where
  "digits ds \<longleftrightarrow> list_all (\<lambda>d. d < 10) ds"

definition value_of :: "nat list \<Rightarrow> nat" where
  "value_of ds = foldl (\<lambda>r d. 10 * r + d) 0 ds"

lemma ascii_simps [simp]: "ascii [] = []" "ascii (xs @ ys) = ascii xs @ ascii ys" "ascii [d] = [48 + of_nat d]"
  "length (ascii ds) = length ds"
  by (simp_all add: ascii_def)

lemma digits_simps [simp]: "digits []" "digits (xs @ ys) \<longleftrightarrow> digits xs \<and> digits ys" "digits (d # ds) \<longleftrightarrow> d < 10 \<and> digits ds"
  by (simp_all add: digits_def)

lemma value_of_simps [simp]: "value_of [] = 0" "value_of (xs @ [d]) = 10 * value_of xs + d"
  by (simp_all add: value_of_def)

lemma value_of_append: "value_of (xs @ ys) = value_of xs * 10 ^ length ys + value_of ys"
  by (induction ys rule: rev_induct) (simp_all flip: append_assoc)

lemma dec_ascii: "\<exists>ds. dec n = ascii ds \<and> digits ds \<and> value_of ds = n \<and> ds \<noteq> []"
proof (induction n rule: dec.induct)
  case (1 n)
  show ?case
  proof (cases "n < 10")
    case True
    then show ?thesis
      by (intro exI [of _ "[n]"]) (simp add: dec.simps [of n] value_of_def)
  next
    case False
    with "1.IH" obtain ds where "dec (n div 10) = ascii ds" "digits ds" "value_of ds = n div 10" by blast
    with False show ?thesis
      by (intro exI [of _ "ds @ [n mod 10]"]) (simp add: dec.simps [of n])
  qed
qed

lemma pad_ascii: "\<exists>ds. pad k n = ascii ds \<and> digits ds \<and> value_of ds = n mod 10 ^ k \<and> length ds = k"
proof (induction k arbitrary: n)
  case (Suc k)
  from Suc [of "n div 10"] obtain ds where
    "pad k (n div 10) = ascii ds" "digits ds" "value_of ds = n div 10 mod 10 ^ k" "length ds = k" by blast
  moreover have "10 * (n div 10 mod 10 ^ k) + n mod 10 = n mod 10 ^ Suc k"
    by (simp add: mod_mult2_eq)
  ultimately show ?case by (intro exI [of _ "ds @ [n mod 10]"]) simp
qed simp

lemma parse_fp_step_digit:
  assumes "d < 10"
  shows "parse_fp_step (48 + of_nat d) (r, p) = (r * 10 + of_nat d, if 0 \<le> sint p then p + 1 else p)"
  unfolding parse_fp_step_def prod.case using digit_byte [OF assms] by presburger

lemma parse_fp_integer_digits:
  assumes "digits ds"
  shows "fold parse_fp_step (ascii ds) (r, - 1) = (r * 10 ^ length ds + of_nat (value_of ds), - 1)"
  using assms
proof (induction ds rule: rev_induct)
  case (snoc d ds)
  then show ?case by (simp add: parse_fp_step_digit)
qed simp

lemma sint_of_nat_i32: "k < 2 ^ 31 \<Longrightarrow> sint (of_nat k :: i32) = int k"
  by (rule sint_of_nat_range) simp

lemma parse_fp_fraction_digits:
  assumes "digits ds" and "length ds < 2 ^ 31"
  shows "fold parse_fp_step (ascii ds) (r, 0) = (r * 10 ^ length ds + of_nat (value_of ds), of_nat (length ds))"
  using assms
proof (induction ds rule: rev_induct)
  case (snoc d ds)
  have "0 \<le> sint (of_nat (length ds) :: i32)" using snoc.prems by (simp add: sint_of_nat_i32)
  then show ?case using snoc by (simp add: parse_fp_step_digit)
qed simp

lemma parse_fp_step_point: "parse_fp_step 46 (r, p) = (r, 0)"
  by (simp add: parse_fp_step_def)

text \<open>The fold over a whole unsigned number.\<close>

lemma parse_fp_number:
  assumes "digits xs" "digits ys" "length ys < 2 ^ 31"
  shows "fold parse_fp_step (ascii xs @ 46 # ascii ys) (0, - 1) = (of_nat (value_of (xs @ ys)), of_nat (length ys))"
  using assms by (simp add: parse_fp_integer_digits parse_fp_step_point parse_fp_fraction_digits value_of_append)

section \<open>Scaling\<close>

lemma mul10_iter: "((\<lambda>r. r * 10) ^^ k) r = r * (10 :: i64) ^ k"
  by (induction k) simp_all

lemma sint_of_nat_i64: "n < 2 ^ 63 \<Longrightarrow> sint (of_nat n :: i64) = int n"
  by (rule sint_of_nat_range) simp

lemma sdivide_10:
  assumes "n < 2 ^ 63"
  shows "sdivide (of_nat n) (10 :: i64) = of_nat (n div 10)"
proof -
  have "int n sdiv 10 = int (n div 10)" by (simp add: signed_divide_int_def zdiv_int sgn_if)
  moreover have "sint (10 :: i64) = 10" by simp
  ultimately show ?thesis unfolding sdivide_def sint_of_nat_i64 [OF assms] by (metis of_int_of_nat_eq)
qed

lemma div10_iter:
  assumes "n < 2 ^ 63"
  shows "((\<lambda>r. sdivide r 10) ^^ k) (of_nat n :: i64) = of_nat (n div 10 ^ k)"
proof (induction k)
  case (Suc k)
  have "n div 10 ^ k < 2 ^ 63" using assms by (meson div_le_dividend order_le_less_trans)
  then show ?case by (simp only: funpow.simps o_apply Suc sdivide_10 div_mult2_eq power_Suc2)
qed simp

text \<open>The value of a number text: eight decimals kept, the rest cut off.\<close>

definition scaled_value :: "nat list \<Rightarrow> nat list \<Rightarrow> nat" where
  "scaled_value xs ys = value_of (xs @ ys) * 10 ^ (8 - length ys) div 10 ^ (length ys - 8)"

lemma parse_fp_scale_value:
  assumes "length ys < 2 ^ 31" and "8 < length ys \<Longrightarrow> value_of (xs @ ys) < 2 ^ 63"
  shows "parse_fp_scale (of_nat (value_of (xs @ ys))) (8 - of_nat (length ys)) = of_nat (scaled_value xs ys)"
proof -
  have "8 - of_nat (length ys) = (of_int (8 - int (length ys)) :: i32)" by simp
  then have "sint (8 - of_nat (length ys) :: i32) = 8 - int (length ys)"
    using assms(1) sint_of_int_range [where 'a = 32, of "8 - int (length ys)"] by simp
  then have shift: "nat (sint (8 - of_nat (length ys) :: i32)) = 8 - length ys"
      "nat (- sint (8 - of_nat (length ys) :: i32)) = length ys - 8" by auto
  show ?thesis
  proof (cases "length ys \<le> 8")
    case True
    then show ?thesis by (simp add: parse_fp_scale_def shift mul10_iter scaled_value_def)
  next
    case False
    then show ?thesis
      using div10_iter [OF assms(2)] assms(2) by (simp add: parse_fp_scale_def shift mul10_iter scaled_value_def)
  qed
qed

section \<open>Properties\<close>

text \<open>The number texts the theorem is about: an optional minus sign, integer digits, a point,
  fraction digits.\<close>

definition number_text :: "bool \<Rightarrow> nat list \<Rightarrow> nat list \<Rightarrow> bytes" where
  "number_text neg xs ys = (if neg then [45] else []) @ ascii xs @ 46 # ascii ys"

lemma ascii_hd: "digits xs \<Longrightarrow> hd (ascii xs @ 46 # rest) \<noteq> 45"
proof (cases xs)
  case (Cons d ds)
  assume "digits xs"
  with Cons have "d < 10" by simp
  with Cons digit_byte(4) [of d] show ?thesis unfolding ascii_def by simp
qed simp

lemma parse_number_text:
  assumes "digits xs" "digits ys" "length ys < 2 ^ 31" "8 < length ys \<Longrightarrow> value_of (xs @ ys) < 2 ^ 63"
  shows "parse_fixed_point_8 (number_text neg xs ys) =
    (if neg then - of_nat (scaled_value xs ys) else of_nat (scaled_value xs ys))"
proof -
  have nonneg: "\<not> sint (of_nat (length ys) :: i32) < 0" using assms(3) by (simp add: sint_of_nat_i32)
  show ?thesis
    using ascii_hd [OF assms(1), of "ascii ys"] parse_fp_scale_value [OF assms(3,4)] nonneg
      parse_fp_number [OF assms(1-3)]
    by (auto simp: parse_fixed_point_8_def number_text_def Let_def simp del: fold_append fold.simps split: prod.splits)
qed

text \<open>C9: The fixed-point parser is exact: for every number text (an optional minus sign, digits, a
  point, fewer than \<open>2 ^ 31\<close> fraction digits) whose value scaled by \<open>10 ^ 8\<close> fits a signed 64-bit
  integer (and, with more than eight fraction digits, whose digits taken together do), the result is the signed value scaled by \<open>10 ^ 8\<close>, with
  fraction digits beyond the eighth cut off towards zero.\<close>

theorem parse_fixed_point_8_value:
  assumes "digits xs" "digits ys" "length ys < 2 ^ 31"
    and "8 < length ys \<Longrightarrow> value_of (xs @ ys) < 2 ^ 63" and "scaled_value xs ys < 2 ^ 63"
  shows "sint (parse_fixed_point_8 (number_text neg xs ys)) =
    (if neg then - 1 else 1) * int (value_of (xs @ ys) * 10 ^ (8 - length ys) div 10 ^ (length ys - 8))"
proof -
  have "sint (- of_nat (scaled_value xs ys) :: i64) = - int (scaled_value xs ys)"
    using sint_of_int_range [where 'a = 64, of "- int (scaled_value xs ys)"] assms(5) by simp
  then show ?thesis
    using parse_number_text [OF assms(1-4), of neg] sint_of_nat_i64 [OF assms(5)]
    by (simp add: scaled_value_def)
qed

theorem parse_fixed_point_8_value_witness:
  "sint (parse_fixed_point_8 (number_text True [1, 2] [0, 5])) = - 1205000000"
  using parse_fixed_point_8_value [of "[1, 2]" "[0, 5]" True]
  by (simp add: scaled_value_def value_of_def)

end
