(* ===== verification/Fast_Json.thy ===== *)
theory Fast_Json
  imports Ingest_Models Fixed_Point
begin

text \<open>
  The JSON serializer of \<open>src/crates/distribution/src/fast_json.rs\<close>: a cursor over a caller's buffer,
  table-driven integer printing, the fixed-point printer and the two message serializers. Every
  writer operation is shown to \<open>emit\<close> a text: it succeeds exactly when the text fits.
\<close>

section \<open>The writer\<close>

datatype JsonError = JsonBufferTooSmall nat nat  \<comment> \<open>required, provided\<close>

definition DEC_DIGITS_LUT :: bytes where
  "DEC_DIGITS_LUT = bstr (
     ''00010203040506070809'' @ ''10111213141516171819'' @ ''20212223242526272829'' @
     ''30313233343536373839'' @ ''40414243444546474849'' @ ''50515253545556575859'' @
     ''60616263646566676869'' @ ''70717273747576777879'' @ ''80818283848586878889'' @
     ''90919293949596979899'')"

record FastJsonWriter =
  jw_buf :: bytes
  jw_pos :: nat

definition writer_new :: "bytes \<Rightarrow> FastJsonWriter" where
  "writer_new buf = \<lparr>jw_buf = buf, jw_pos = 0\<rparr>"

definition writer_remaining :: "FastJsonWriter \<Rightarrow> nat" where
  "writer_remaining w = length (jw_buf w) - jw_pos w"

text \<open>A write returns its result and the writer, which an error may leave partly written.\<close>

type_synonym writer_op = "FastJsonWriter \<Rightarrow> (JsonError + unit) \<times> FastJsonWriter"

text \<open>Sequencing with \<open>?\<close>: the first error ends the sequence.\<close>

definition and_then :: "writer_op \<Rightarrow> writer_op \<Rightarrow> writer_op" where
  "and_then f g w = (case f w of (Inl e, w') \<Rightarrow> (Inl e, w') | (Inr _, w') \<Rightarrow> g w')"

definition write_seq :: "writer_op list \<Rightarrow> writer_op" where
  "write_seq ops = foldr and_then ops (\<lambda>w. (Inr (), w))"

definition write_byte :: "u8 \<Rightarrow> writer_op" where
  "write_byte b w =
     (if jw_pos w \<ge> length (jw_buf w)
      then (Inl (JsonBufferTooSmall (jw_pos w + 1) (length (jw_buf w))), w)
      else (Inr (), w\<lparr>jw_buf := (jw_buf w)[jw_pos w := b], jw_pos := jw_pos w + 1\<rparr>))"

definition write_bytes :: "bytes \<Rightarrow> writer_op" where
  "write_bytes bs w =
     (let needed = jw_pos w + length bs
      in if needed > length (jw_buf w)
         then (Inl (JsonBufferTooSmall needed (length (jw_buf w))), w)
         else (Inr (), w\<lparr>jw_buf := write_at (jw_buf w) (jw_pos w) bs, jw_pos := needed\<rparr>))"

definition write_str :: "string \<Rightarrow> writer_op" where
  "write_str s = write_bytes (bstr s)"

text \<open>The two-digit table entry, stored at \<open>idx\<close> and \<open>idx + 1\<close>.\<close>

definition put_two_digits :: "bytes \<Rightarrow> nat \<Rightarrow> nat \<Rightarrow> bytes" where
  "put_two_digits temp idx r = temp[idx := DEC_DIGITS_LUT ! (r * 2), idx + 1 := DEC_DIGITS_LUT ! (r * 2 + 1)]"

function write_u64_loop :: "u64 \<Rightarrow> nat \<Rightarrow> bytes \<Rightarrow> u64 \<times> nat \<times> bytes" where
  "write_u64_loop val idx temp =
     (if val \<ge> 100
      then let r = unat (val mod 100); val = val div 100; idx = idx - 2
           in write_u64_loop val idx (put_two_digits temp idx r)
      else (val, idx, temp))"
  by pat_completeness auto
termination
  by (relation "measure (\<lambda>(val, _). unat val)")
     (auto simp: unat_div_distrib word_le_nat_alt)

declare write_u64_loop.simps [simp del]

definition write_u64 :: "u64 \<Rightarrow> writer_op" where
  "write_u64 val w =
     (if val = 0 then write_byte 48 w
      else let (val, idx, temp) = write_u64_loop val 20 (replicate 20 0);
               (idx, temp) =
                 (if val < 10 then (idx - 1, temp[idx - 1 := 48 + ucast val])
                  else (idx - 2, put_two_digits temp (idx - 2) (unat val)))
           in write_bytes (drop idx temp) w)"

text \<open>\<open>unsigned_abs\<close>.\<close>

definition unsigned_abs :: "i64 \<Rightarrow> u64" where
  "unsigned_abs v = (if sint v < 0 then - v else v)"

definition write_i64 :: "i64 \<Rightarrow> writer_op" where
  "write_i64 val =
     (if sint val < 0 then and_then (write_byte 45) (write_u64 (unsigned_abs val)) else write_u64 val)"

function frac_loop :: "nat \<Rightarrow> nat \<Rightarrow> bytes \<Rightarrow> nat \<times> nat \<times> bytes" where
  "frac_loop frac idx frac_buf =
     (if frac > 0 \<and> idx \<ge> 2
      then let r = frac mod 100; frac = frac div 100; idx = idx - 2
           in frac_loop frac idx (put_two_digits frac_buf idx r)
      else (frac, idx, frac_buf))"
  by pat_completeness auto
termination
  by (relation "measure (\<lambda>(frac, _). frac)") auto

declare frac_loop.simps [simp del]

definition write_fixed_point_8 :: "i64 \<Rightarrow> writer_op" where
  "write_fixed_point_8 val =
     (let unsigned_val = unsigned_abs val;
          integer_part = unsigned_val div 100000000;
          frac_part = unsigned_val mod 100000000;
          (frac, idx, frac_buf) = frac_loop (unat frac_part) 8 (replicate 8 48);
          frac_buf = (if frac > 0 \<and> idx = 1 then frac_buf[idx - 1 := 48 + of_nat frac] else frac_buf)
      in and_then (if sint val < 0 then write_byte 45 else (\<lambda>w. (Inr (), w)))
           (and_then (write_u64 integer_part)
             (and_then (write_byte 46) (write_bytes frac_buf))))"

section \<open>The serializers\<close>

definition telemetry_ops :: "TelemetryTimestamps \<Rightarrow> writer_op list" where
  "telemetry_ops t =
     [write_str '',\"telemetry\":{\"t0\":'', write_u64 (t0_exchange_ns t),
      write_str '',\"t1\":'', write_u64 (t1_ingest_nic_ns t),
      write_str '',\"t2\":'', write_u64 (t2_engine_proc_ns t),
      write_str '',\"t3\":'', write_u64 (t3_egress_ns t),
      write_str ''}}'']"

definition bbo_json_ops :: "NormalizedBbo \<Rightarrow> writer_op list" where
  "bbo_json_ops bbo =
     [write_str ''{\"type\":\"bbo\",\"market_id\":'', write_u64 (ucast (bbo_market_id bbo)),
      write_str '',\"venue\":'', write_u64 (ucast (bbo_venue bbo)),
      write_str '',\"chain\":'', write_u64 (ucast (bbo_chain bbo)),
      write_str '',\"sequence\":'', write_u64 (bbo_sequence bbo),
      write_str '',\"bid_px\":\"'', write_fixed_point_8 (bid_price bbo),
      write_str ''\",\"bid_qty\":\"'', write_fixed_point_8 (bid_qty bbo),
      write_str ''\",\"ask_px\":\"'', write_fixed_point_8 (ask_price bbo),
      write_str ''\",\"ask_qty\":\"'', write_fixed_point_8 (ask_qty bbo),
      write_str ''\",\"spread_bps\":'', write_u64 (ucast (spread_bps bbo)),
      write_str '',\"flags\":'', write_u64 (ucast (bbo_flags bbo))]
     @ telemetry_ops (bbo_telemetry bbo)"

text \<open>A serializer returns the number of bytes written and the buffer.\<close>

definition finish_json :: "(JsonError + unit) \<times> FastJsonWriter \<Rightarrow> (JsonError + nat) \<times> bytes" where
  "finish_json r = (case r of (Inl e, w) \<Rightarrow> (Inl e, jw_buf w) | (Inr _, w) \<Rightarrow> (Inr (jw_pos w), jw_buf w))"

definition serialize_bbo_json :: "NormalizedBbo \<Rightarrow> bytes \<Rightarrow> (JsonError + nat) \<times> bytes" where
  "serialize_bbo_json bbo out = finish_json (write_seq (bbo_json_ops bbo) (writer_new out))"

definition trade_json_ops :: "UnifiedTrade \<Rightarrow> writer_op list" where
  "trade_json_ops trade =
     [write_str ''{\"type\":\"trade\",\"market_id\":'', write_u64 (ucast (trade_market_id trade)),
      write_str '',\"venue\":'', write_u64 (ucast (trade_venue trade)),
      write_str '',\"chain\":'', write_u64 (ucast (trade_chain trade)),
      write_str '',\"sequence\":'', write_u64 (trade_sequence trade),
      write_str '',\"trade_id\":'', write_u64 (trade_id trade),
      write_str '',\"price\":\"'', write_fixed_point_8 (trade_price trade),
      write_str ''\",\"size\":\"'', write_fixed_point_8 (trade_size trade),
      write_str ''\",\"side\":'', write_u64 (ucast (trade_side trade)),
      write_str '',\"is_liquidation\":'', write_str (if is_liquidation trade then ''true'' else ''false'')]
     @ telemetry_ops (trade_telemetry trade)"

definition serialize_trade_json :: "UnifiedTrade \<Rightarrow> bytes \<Rightarrow> (JsonError + nat) \<times> bytes" where
  "serialize_trade_json trade out = finish_json (write_seq (trade_json_ops trade) (writer_new out))"

section \<open>What an operation emits\<close>

text \<open>An operation emits a text when it appends exactly that text if it fits the rest of the buffer,
  and otherwise reports an error.\<close>

definition emits :: "writer_op \<Rightarrow> bytes \<Rightarrow> bool" where
  "emits f t \<longleftrightarrow> (\<forall>w. jw_pos w \<le> length (jw_buf w) \<longrightarrow>
     (if jw_pos w + length t \<le> length (jw_buf w)
      then f w = (Inr (), w\<lparr>jw_buf := write_at (jw_buf w) (jw_pos w) t, jw_pos := jw_pos w + length t\<rparr>)
      else \<exists>e. fst (f w) = Inl e))"

named_theorems emitting "what the writer operations emit"

lemma emits_fit:
  "emits f t \<Longrightarrow> jw_pos w + length t \<le> length (jw_buf w) \<Longrightarrow>
   f w = (Inr (), w\<lparr>jw_buf := write_at (jw_buf w) (jw_pos w) t, jw_pos := jw_pos w + length t\<rparr>)"
  by (simp add: emits_def)

lemma emits_overflow:
  "emits f t \<Longrightarrow> jw_pos w \<le> length (jw_buf w) \<Longrightarrow> \<not> jw_pos w + length t \<le> length (jw_buf w) \<Longrightarrow>
   \<exists>e. fst (f w) = Inl e"
  by (simp add: emits_def)

lemma write_at_write_at:
  "p + length s + length t \<le> length buf \<Longrightarrow> write_at (write_at buf p s) (p + length s) t = write_at buf p (s @ t)"
  by (simp add: write_at_def ac_simps)

lemma emits_nil [emitting]: "emits (\<lambda>w. (Inr (), w)) []"
  by (simp add: emits_def write_at_def)

lemma emits_and_then [emitting]:
  assumes "emits f s" "emits g t"
  shows "emits (and_then f g) (s @ t)"
  unfolding emits_def
proof (intro allI impI)
  fix w :: FastJsonWriter
  assume pos: "jw_pos w \<le> length (jw_buf w)"
  show "if jw_pos w + length (s @ t) \<le> length (jw_buf w)
        then and_then f g w = (Inr (), w\<lparr>jw_buf := write_at (jw_buf w) (jw_pos w) (s @ t), jw_pos := jw_pos w + length (s @ t)\<rparr>)
        else \<exists>e. fst (and_then f g w) = Inl e"
  proof (cases "jw_pos w + length s \<le> length (jw_buf w)")
    case True
    let ?w = "w\<lparr>jw_buf := write_at (jw_buf w) (jw_pos w) s, jw_pos := jw_pos w + length s\<rparr>"
    have "and_then f g w = g ?w" using emits_fit [OF assms(1) True] by (simp add: and_then_def)
    then show ?thesis
      using emits_fit [OF assms(2), of ?w] emits_overflow [OF assms(2), of ?w] True
      by (simp add: write_at_write_at add.assoc)
  next
    case False
    then obtain e where "fst (f w) = Inl e" using emits_overflow [OF assms(1) pos] by blast
    then show ?thesis using False by (auto simp: and_then_def split: prod.splits)
  qed
qed

lemma emits_seq: "list_all2 emits ops ts \<Longrightarrow> emits (write_seq ops) (concat ts)"
  by (induction ops ts rule: list_all2_induct) (simp_all add: write_seq_def emitting)

lemma emits_write_bytes [emitting]: "emits (write_bytes bs) bs"
  by (simp add: emits_def write_bytes_def Let_def)

lemma emits_write_str [emitting]: "emits (write_str s) (bstr s)"
  by (simp add: write_str_def emitting)

lemma emits_write_byte [emitting]: "emits (write_byte b) [b]"
  by (auto simp: emits_def write_byte_def write_at_def upd_conv_take_nth_drop)

section \<open>Integer printing\<close>

lemma lut_table:
  "DEC_DIGITS_LUT = concat (map (\<lambda>r. [48 + of_nat (r div 10), 48 + of_nat (r mod 10)]) [0..<100])"
  by (simp add: DEC_DIGITS_LUT_def bstr_def upt_conv_Cons)

lemma nth_concat_pairs:
  "r < length xs \<Longrightarrow> concat (map (\<lambda>x. [f x, g x]) xs) ! (r * 2) = f (xs ! r)
     \<and> concat (map (\<lambda>x. [f x, g x]) xs) ! (r * 2 + 1) = g (xs ! r)"
proof (induction xs arbitrary: r)
  case (Cons x xs)
  then show ?case by (cases r) auto
qed simp

lemma lut_digits:
  "r < 100 \<Longrightarrow> DEC_DIGITS_LUT ! (r * 2) = 48 + of_nat (r div 10)"
  "r < 100 \<Longrightarrow> DEC_DIGITS_LUT ! (r * 2 + 1) = 48 + of_nat (r mod 10)"
  unfolding lut_table
  using nth_concat_pairs [of r "[0..<100]" "\<lambda>r. 48 + of_nat (r div 10) :: u8" "\<lambda>r. 48 + of_nat (r mod 10)"]
  by (simp_all del: upt_Suc)

lemma drop_put_two_digits:
  assumes "idx + 2 \<le> length temp" and "r < 100"
  shows "drop idx (put_two_digits temp idx r) = [48 + of_nat (r div 10), 48 + of_nat (r mod 10)] @ drop (idx + 2) temp"
proof -
  have "drop idx temp = temp ! idx # temp ! (idx + 1) # drop (idx + 2) temp"
    using assms(1) by (simp add: Cons_nth_drop_Suc)
  then show ?thesis
    unfolding put_two_digits_def lut_digits [OF assms(2)] by (simp add: drop_update_swap)
qed

lemma length_put_two_digits [simp]: "length (put_two_digits temp idx r) = length temp"
  by (simp add: put_two_digits_def)

lemma dec_two_digits:
  assumes "100 \<le> n"
  shows "dec n = dec (n div 100) @ [48 + of_nat (n mod 100 div 10), 48 + of_nat (n mod 100 mod 10)]"
proof -
  have "n div 10 mod 10 = n mod 100 div 10" using mod_mult2_eq [of n 10 10] by simp
  moreover have "n div 10 div 10 = n div 100" by (simp flip: div_mult2_eq)
  moreover have "n mod 100 mod 10 = n mod 10" by (simp add: mod_mod_cancel)
  moreover have "\<not> n < 10" "\<not> n div 10 < 10" using assms by simp_all
  ultimately show ?thesis by (simp add: dec.simps [of n] dec.simps [of "n div 10"])
qed

lemma write_u64_loop_dec:
  assumes "write_u64_loop val idx temp = (v, i, t)" and "length (dec (unat val)) \<le> idx" and "idx \<le> length temp"
  shows "v < 100 \<and> (val \<noteq> 0 \<longrightarrow> v \<noteq> 0) \<and> length (dec (unat v)) \<le> i \<and> i \<le> length t \<and> length t = length temp \<and>
    dec (unat val) @ drop idx temp = dec (unat v) @ drop i t"
  using assms
proof (induction val idx temp rule: write_u64_loop.induct)
  case (1 val idx temp)
  show ?case
  proof (cases "100 \<le> val")
    case True
    let ?r = "unat (val mod 100)" and ?temp = "put_two_digits temp (idx - 2) (unat (val mod 100))"
    have ge: "100 \<le> unat val" using True by (simp add: word_le_nat_alt)
    have r: "?r = unat val mod 100" "unat (val div 100) = unat val div 100"
      by (simp_all add: unat_mod_distrib unat_div_distrib)
    have dec: "dec (unat val) = dec (unat (val div 100)) @ [48 + of_nat (?r div 10), 48 + of_nat (?r mod 10)]"
      using dec_two_digits [OF ge] by (simp add: r)
    then have len: "length (dec (unat (val div 100))) + 2 \<le> idx" using "1.prems"(2) by simp
    then have "idx - 2 + 2 \<le> length temp" and idx: "idx - 2 + 2 = idx" using "1.prems"(3) by simp_all
    then have drop: "drop (idx - 2) ?temp = [48 + of_nat (?r div 10), 48 + of_nat (?r mod 10)] @ drop idx temp"
      using drop_put_two_digits [of "idx - 2" temp ?r] by (simp add: r)
    have nz: "val div 100 \<noteq> 0" using ge r(2) by (metis div_greater_zero_iff not_gr_zero unsigned_0 zero_less_numeral)
    have "write_u64_loop (val div 100) (idx - 2) ?temp = (v, i, t)"
      using "1.prems"(1) True by (simp add: write_u64_loop.simps [of val] Let_def)
    moreover have "length (dec (unat (val div 100))) \<le> idx - 2" "idx - 2 \<le> length ?temp"
      using len "1.prems"(3) by simp_all
    ultimately show ?thesis
      using "1.IH" [OF True refl refl refl] dec drop nz "1.prems"(3) by (simp del: append.simps)
  next
    case False
    then show ?thesis using "1.prems" by (auto simp: write_u64_loop.simps [of val])
  qed
qed

lemma emits_write_u64 [emitting]: "emits (write_u64 val) (dec (unat val))"
proof (cases "val = 0")
  case True
  then show ?thesis using emits_write_byte [of 48] by (simp add: write_u64_def emits_def dec.simps)
next
  case False
  obtain v i t where loop: "write_u64_loop val 20 (replicate 20 0) = (v, i, t)" by (metis prod_cases3)
  have "length (dec (unat val)) \<le> 20"
    using unat_less_power [of val] by (intro length_dec_le) simp_all
  from write_u64_loop_dec [OF loop this] False
  have v: "v < 100" "v \<noteq> 0" and i: "length (dec (unat v)) \<le> i" "i \<le> length t" "length t = 20"
    and eq: "dec (unat val) = dec (unat v) @ drop i t" by auto
  have "drop (i - 1) (t[i - 1 := 48 + ucast v]) = dec (unat v) @ drop i t" if "v < 10"
  proof -
    have lt: "unat v < 10" using that by (simp add: word_less_nat_alt)
    have "drop (i - 1) (t[i - 1 := 48 + ucast v]) = (48 + ucast v) # drop i t"
      using i by (cases i) (auto simp: dec.simps [of "unat v"] lt drop_update_swap simp flip: Cons_nth_drop_Suc)
    then show ?thesis using lt by (simp add: dec.simps [of "unat v"])
  qed
  moreover have "drop (i - 2) (put_two_digits t (i - 2) (unat v)) = dec (unat v) @ drop i t" if "\<not> v < 10"
  proof -
    have ge: "10 \<le> unat v" "unat v < 100" using that v by (simp_all add: word_less_nat_alt word_le_nat_alt)
    then have dec: "dec (unat v) = [48 + of_nat (unat v div 10), 48 + of_nat (unat v mod 10)]"
      by (subst dec.simps, subst dec.simps) auto
    then have "i - 2 + 2 = i" using i(1) by simp
    then show ?thesis using drop_put_two_digits [of "i - 2" t "unat v"] i ge dec by (metis append_Cons append_Nil)
  qed
  ultimately have "write_u64 val w = write_bytes (dec (unat val)) w" for w
    using False loop eq by (simp add: write_u64_def)
  then show ?thesis using emits_write_bytes by (simp add: emits_def)
qed

section \<open>Fixed-point printing\<close>

lemma pad_zero [simp]: "pad k 0 = replicate k 48"
  by (induction k) (simp_all add: replicate_append_same)

lemma pad_two_digits: "pad (k + 2) n = pad k (n div 100) @ [48 + of_nat (n mod 100 div 10), 48 + of_nat (n mod 100 mod 10)]"
proof -
  have "n div 10 mod 10 = n mod 100 div 10" using mod_mult2_eq [of n 10 10] by simp
  moreover have "n div 10 div 10 = n div 100" by (simp flip: div_mult2_eq)
  moreover have "n mod 100 mod 10 = n mod 10" by (simp add: mod_mod_cancel)
  ultimately show ?thesis by (simp add: numeral_2_eq_2)
qed

lemma frac_loop_pad:
  assumes "frac < 100 ^ m" and "2 * m \<le> length buf" and "take (2 * m) buf = replicate (2 * m) 48"
  shows "\<exists>i. frac_loop frac (2 * m) buf = (0, i, pad (2 * m) frac @ drop (2 * m) buf)"
  using assms
proof (induction m arbitrary: frac buf)
  case 0
  then show ?case by (simp add: frac_loop.simps)
next
  case (Suc m)
  show ?case
  proof (cases "frac = 0")
    case True
    then show ?thesis
      using Suc.prems append_take_drop_id [of "2 * Suc m" buf] by (simp add: frac_loop.simps)
  next
    case False
    let ?buf = "put_two_digits buf (2 * m) (frac mod 100)"
    have idx: "2 * Suc m - 2 = 2 * m" by simp
    have "take (2 * m) ?buf = take (2 * m) buf" by (simp add: put_two_digits_def)
    also have "\<dots> = take (2 * m) (replicate (2 * Suc m) 48)"
      using Suc.prems(3) by (metis idx take_take min.absorb1 diff_le_self)
    finally have "take (2 * m) ?buf = replicate (2 * m) 48" by (simp only: take_replicate) simp
    moreover have "frac div 100 < 100 ^ m" using Suc.prems(1) by (simp add: div_less_iff_less_mult mult.commute)
    moreover have "drop (2 * m) ?buf = [48 + of_nat (frac mod 100 div 10), 48 + of_nat (frac mod 100 mod 10)] @ drop (2 * Suc m) buf"
      using drop_put_two_digits [of "2 * m" buf "frac mod 100"] Suc.prems(2) by simp
    ultimately obtain i where "frac_loop (frac div 100) (2 * m) ?buf =
        (0, i, pad (2 * m) (frac div 100) @ [48 + of_nat (frac mod 100 div 10), 48 + of_nat (frac mod 100 mod 10)] @ drop (2 * Suc m) buf)"
      using Suc.IH [of "frac div 100" ?buf] Suc.prems(2) by auto
    moreover have "frac_loop frac (2 * Suc m) buf = frac_loop (frac div 100) (2 * m) ?buf"
      using False by (simp add: frac_loop.simps [of frac] Let_def)
    moreover have "pad (2 * Suc m) frac = pad (2 * m) (frac div 100) @ [48 + of_nat (frac mod 100 div 10), 48 + of_nat (frac mod 100 mod 10)]"
      using pad_two_digits [of "2 * m" frac] by simp
    ultimately show ?thesis by auto
  qed
qed

definition fixed_text :: "i64 \<Rightarrow> bytes" where
  "fixed_text v = (if sint v < 0 then [45] else []) @ dec (unat (unsigned_abs v) div 100000000)
     @ [46] @ pad 8 (unat (unsigned_abs v) mod 100000000)"

lemma emits_write_fixed_point_8 [emitting]: "emits (write_fixed_point_8 v) (fixed_text v)"
proof -
  let ?u = "unsigned_abs v"
  have "unat (?u mod 100000000) < 100 ^ 4" by (simp add: unat_mod_distrib)
  then obtain i where "frac_loop (unat (?u mod 100000000)) (2 * 4) (replicate 8 48) =
      (0, i, pad (2 * 4) (unat (?u mod 100000000)) @ drop (2 * 4) (replicate 8 48))"
    using frac_loop_pad [of "unat (?u mod 100000000)" 4 "replicate 8 48"] by auto
  then have loop: "frac_loop (unat (?u mod 100000000)) 8 (replicate 8 48) = (0, i, pad 8 (unat ?u mod 100000000))"
    by (simp add: unat_mod_distrib)
  have "emits (if sint v < 0 then write_byte 45 else (\<lambda>w. (Inr (), w))) (if sint v < 0 then [45] else [])"
    by (simp add: emitting)
  moreover have "emits (write_u64 (?u div 100000000)) (dec (unat ?u div 100000000))"
    using emits_write_u64 [of "?u div 100000000"] by (simp add: unat_div_distrib)
  ultimately show ?thesis
    unfolding write_fixed_point_8_def fixed_text_def Let_def loop prod.case
    by (intro emits_and_then) (simp_all add: emitting)
qed

lemma parse_fixed_text: "parse_fixed_point_8 (fixed_text v) = v"
proof -
  let ?u = "unat (unsigned_abs v)"
  obtain xs where xs: "dec (?u div 100000000) = ascii xs" "digits xs" "value_of xs = ?u div 100000000"
    using dec_ascii by blast
  obtain ys where ys: "pad 8 (?u mod 100000000) = ascii ys" "digits ys" "value_of ys = ?u mod 100000000" "length ys = 8"
    using pad_ascii [of 8 "?u mod 100000000"] by auto
  have "value_of (xs @ ys) = ?u" using xs ys by (simp add: value_of_append)
  moreover have "fixed_text v = number_text (sint v < 0) xs ys"
    using xs ys by (simp add: fixed_text_def number_text_def)
  ultimately show ?thesis
    using parse_number_text [OF xs(2) ys(2), of "sint v < 0"] ys(4)
    by (simp add: scaled_value_def unsigned_abs_def)
qed

section \<open>The message texts\<close>

abbreviation (input) udec :: "'a::len word \<Rightarrow> bytes" where
  "udec x \<equiv> dec (unat x)"

definition telemetry_texts :: "TelemetryTimestamps \<Rightarrow> bytes list" where
  "telemetry_texts t =
     [bstr '',\"telemetry\":{\"t0\":'', udec (t0_exchange_ns t), bstr '',\"t1\":'', udec (t1_ingest_nic_ns t),
      bstr '',\"t2\":'', udec (t2_engine_proc_ns t), bstr '',\"t3\":'', udec (t3_egress_ns t), bstr ''}}'']"

definition bbo_json_text :: "NormalizedBbo \<Rightarrow> bytes" where
  "bbo_json_text b = concat
     ([bstr ''{\"type\":\"bbo\",\"market_id\":'', udec (bbo_market_id b),
       bstr '',\"venue\":'', udec (bbo_venue b), bstr '',\"chain\":'', udec (bbo_chain b),
       bstr '',\"sequence\":'', udec (bbo_sequence b), bstr '',\"bid_px\":\"'', fixed_text (bid_price b),
       bstr ''\",\"bid_qty\":\"'', fixed_text (bid_qty b), bstr ''\",\"ask_px\":\"'', fixed_text (ask_price b),
       bstr ''\",\"ask_qty\":\"'', fixed_text (ask_qty b), bstr ''\",\"spread_bps\":'', udec (spread_bps b),
       bstr '',\"flags\":'', udec (bbo_flags b)] @ telemetry_texts (bbo_telemetry b))"

definition trade_json_text :: "UnifiedTrade \<Rightarrow> bytes" where
  "trade_json_text t = concat
     ([bstr ''{\"type\":\"trade\",\"market_id\":'', udec (trade_market_id t),
       bstr '',\"venue\":'', udec (trade_venue t), bstr '',\"chain\":'', udec (trade_chain t),
       bstr '',\"sequence\":'', udec (trade_sequence t), bstr '',\"trade_id\":'', udec (trade_id t),
       bstr '',\"price\":\"'', fixed_text (trade_price t), bstr ''\",\"size\":\"'', fixed_text (trade_size t),
       bstr ''\",\"side\":'', udec (trade_side t), bstr '',\"is_liquidation\":'',
       bstr (if is_liquidation t then ''true'' else ''false'')] @ telemetry_texts (trade_telemetry t))"

lemma emits_write_u64_cast: "LENGTH('a) \<le> 64 \<Longrightarrow> emits (write_u64 (ucast (x :: 'a::len word))) (udec x)"
  using emits_write_u64 [of "ucast x"] by simp

lemma telemetry_emits: "list_all2 emits (telemetry_ops t) (telemetry_texts t)"
  by (simp add: telemetry_ops_def telemetry_texts_def emitting)

lemma bbo_json_emits: "emits (write_seq (bbo_json_ops b)) (bbo_json_text b)"
  unfolding bbo_json_text_def bbo_json_ops_def
  by (intro emits_seq list_all2_appendI telemetry_emits) (simp add: emitting emits_write_u64_cast)

lemma trade_json_emits: "emits (write_seq (trade_json_ops t)) (trade_json_text t)"
  unfolding trade_json_text_def trade_json_ops_def
  by (intro emits_seq list_all2_appendI telemetry_emits) (simp add: emitting emits_write_u64_cast)

lemma finish_json_emits:
  assumes "emits f t"
  shows "if length t \<le> length out then finish_json (f (writer_new out)) = (Inr (length t), t @ drop (length t) out)
    else \<exists>e. fst (finish_json (f (writer_new out))) = Inl e"
  using emits_fit [OF assms, of "writer_new out"] emits_overflow [OF assms, of "writer_new out"]
  by (cases "length t \<le> length out")
     (auto simp: writer_new_def finish_json_def write_at_def split: prod.splits sum.splits)

lemma length_dec_u64: "length (udec (x :: u64)) \<le> 20"
  using unat_less_power [of x] by (intro length_dec_le) simp_all

lemma length_dec_u32: "length (udec (x :: u32)) \<le> 10"
  using unat_less_power [of x] by (intro length_dec_le) simp_all

lemma length_dec_u16: "length (udec (x :: u16)) \<le> 5"
  using unat_less_power [of x] by (intro length_dec_le) simp_all

lemma length_dec_u8: "length (udec (x :: u8)) \<le> 3"
  using unat_less_power [of x] by (intro length_dec_le) simp_all

lemma length_fixed_text: "length (fixed_text v) \<le> 22"
proof -
  have "length (dec (unat (unsigned_abs v) div 100000000)) \<le> 12"
    using unat_less_power [of "unsigned_abs v"] by (intro length_dec_le) simp_all
  then show ?thesis by (simp add: fixed_text_def)
qed

lemma length_telemetry_texts: "length (concat (telemetry_texts t)) \<le> 119"
  using length_dec_u64 [of "t0_exchange_ns t"] length_dec_u64 [of "t1_ingest_nic_ns t"]
    length_dec_u64 [of "t2_engine_proc_ns t"] length_dec_u64 [of "t3_egress_ns t"]
  by (simp add: telemetry_texts_def)

lemma length_bbo_json_text: "length (bbo_json_text b) \<le> 512"
  using length_telemetry_texts [of "bbo_telemetry b"] length_dec_u32 [of "bbo_market_id b"]
    length_dec_u16 [of "bbo_venue b"] length_dec_u16 [of "bbo_chain b"] length_dec_u64 [of "bbo_sequence b"]
    length_fixed_text [of "bid_price b"] length_fixed_text [of "bid_qty b"] length_fixed_text [of "ask_price b"]
    length_fixed_text [of "ask_qty b"] length_dec_u16 [of "spread_bps b"] length_dec_u16 [of "bbo_flags b"]
  by (simp add: bbo_json_text_def)

lemma length_trade_json_text: "length (trade_json_text t) \<le> 512"
  using length_telemetry_texts [of "trade_telemetry t"] length_dec_u32 [of "trade_market_id t"]
    length_dec_u16 [of "trade_venue t"] length_dec_u16 [of "trade_chain t"] length_dec_u64 [of "trade_sequence t"]
    length_dec_u64 [of "trade_id t"] length_fixed_text [of "trade_price t"] length_fixed_text [of "trade_size t"]
    length_dec_u8 [of "trade_side t"]
  by (simp add: trade_json_text_def)

lemma serialize_bbo_json_512:
  "length out = 512 \<Longrightarrow>
   serialize_bbo_json b out = (Inr (length (bbo_json_text b)), bbo_json_text b @ drop (length (bbo_json_text b)) out)"
  using finish_json_emits [OF bbo_json_emits, of b out] length_bbo_json_text [of b]
  by (simp add: serialize_bbo_json_def)

lemma serialize_trade_json_512:
  "length out = 512 \<Longrightarrow>
   serialize_trade_json t out = (Inr (length (trade_json_text t)), trade_json_text t @ drop (length (trade_json_text t)) out)"
  using finish_json_emits [OF trade_json_emits, of t out] length_trade_json_text [of t]
  by (simp add: serialize_trade_json_def)

section \<open>Properties\<close>

text \<open>C8: Printing and parsing prices are inverse: for every signed 64-bit value, its minimum included,
  the fixed-point printer succeeds exactly when its text fits the buffer, and the parser of the core
  engine applied to the bytes written returns the value.\<close>

theorem fixed_point_print_parse:
  "(case write_fixed_point_8 v (writer_new out) of
      (Inr _, w) \<Rightarrow> length (fixed_text v) \<le> length out \<and> parse_fixed_point_8 (take (jw_pos w) (jw_buf w)) = v
    | (Inl _, w) \<Rightarrow> length out < length (fixed_text v))"
  using emits_fit [OF emits_write_fixed_point_8 [of v], of "writer_new out"]
    emits_overflow [OF emits_write_fixed_point_8 [of v], of "writer_new out"] parse_fixed_text [of v]
  by (cases "length (fixed_text v) \<le> length out")
     (auto simp: writer_new_def write_at_def split: prod.splits sum.splits)

text \<open>The table-driven integer printer writes the decimal digits: whenever the text fits, the bytes
  written are the digits of the value in base ten, most significant first and without leading zeros.\<close>

theorem write_u64_decimal:
  assumes "jw_pos w + length (dec (unat val)) \<le> length (jw_buf w)"
  shows "write_u64 val w =
     (Inr (), w\<lparr>jw_buf := write_at (jw_buf w) (jw_pos w) (dec (unat val)), jw_pos := jw_pos w + length (dec (unat val))\<rparr>)
   \<and> (\<exists>ds. dec (unat val) = ascii ds \<and> digits ds \<and> value_of ds = unat val)"
  using emits_fit [OF emits_write_u64 assms] dec_ascii [of "unat val"] by blast

theorem write_u64_decimal_witness:
  "write_u64 0 (writer_new [7, 7]) = (Inr (), \<lparr>jw_buf = [48, 7], jw_pos = 1\<rparr>)"
proof -
  have "dec (unat (0 :: u64)) = [48]" by (simp add: dec.simps)
  then show ?thesis
    using write_u64_decimal [of "writer_new [7, 7]" 0] by (simp add: writer_new_def write_at_def)
qed

text \<open>C12: The 512-byte buffers of the router are large enough: for every quote and every trade the
  serializers succeed and write the message text of at most 512 bytes, and for a buffer of any size they
  succeed exactly when the text fits.\<close>

theorem json_fits_512:
  "serialize_bbo_json bbo (replicate 512 0) =
     (Inr (length (bbo_json_text bbo)), bbo_json_text bbo @ replicate (512 - length (bbo_json_text bbo)) 0) \<and>
   serialize_trade_json trade (replicate 512 0) =
     (Inr (length (trade_json_text trade)), trade_json_text trade @ replicate (512 - length (trade_json_text trade)) 0) \<and>
   length (bbo_json_text bbo) \<le> 512 \<and> length (trade_json_text trade) \<le> 512 \<and>
   ((\<exists>n. fst (serialize_bbo_json bbo out) = Inr n) \<longleftrightarrow> length (bbo_json_text bbo) \<le> length out) \<and>
   ((\<exists>n. fst (serialize_trade_json trade out) = Inr n) \<longleftrightarrow> length (trade_json_text trade) \<le> length out)"
  using serialize_bbo_json_512 [of "replicate 512 0" bbo] serialize_trade_json_512 [of "replicate 512 0" trade]
    length_bbo_json_text [of bbo] length_trade_json_text [of trade]
    finish_json_emits [OF bbo_json_emits, of bbo out] finish_json_emits [OF trade_json_emits, of trade out]
  by (auto simp: serialize_bbo_json_def serialize_trade_json_def split: if_splits)

end
