(* ===== verification/Topic_Router.thy ===== *)
theory Topic_Router
  imports Topic_Key Client_Bitmap Client_Session Sbe Fast_Json "HOL-Library.Mapping"
begin

text \<open>
  The inverted topic router of \<open>src/crates/distribution/src/router.rs\<close>: the map from topic keys to
  client bitmaps, the map of registered sessions, the subscription operations and the two dispatch
  functions with their lazily filled wire buffers. A lock is represented by the value it guards and a
  flag saying whether it is poisoned; every operation is one critical section. The sink of a dispatch
  is the list of deliveries in the order of the calls.
\<close>

section \<open>State\<close>

definition STREAM_TYPE_BBO :: u8 where "STREAM_TYPE_BBO = 1"
definition STREAM_TYPE_DEPTH :: u8 where "STREAM_TYPE_DEPTH = 2"
definition STREAM_TYPE_TRADE :: u8 where "STREAM_TYPE_TRADE = 3"
definition STREAM_TYPE_MEMPOOL :: u8 where "STREAM_TYPE_MEMPOOL = 4"

datatype RouterError =
  ClientAlreadyExists u32 | ClientNotFound u32 | CapacityExceeded | LockPoisoned

record DispatchMetrics =
  matched_clients :: nat
  delivered_clients :: nat
  filtered_clients :: nat
  rate_limited_clients :: nat
  sbe_bytes_dispatched :: nat
  json_bytes_dispatched :: nat

definition metrics_default :: DispatchMetrics where
  "metrics_default = \<lparr>matched_clients = 0, delivered_clients = 0, filtered_clients = 0,
     rate_limited_clients = 0, sbe_bytes_dispatched = 0, json_bytes_dispatched = 0\<rparr>"

record InvertedTopicRouter =
  topics :: "(TopicKey, ClientBitmap) mapping"
  topics_poisoned :: bool
  clients :: "(u32, ClientSession) mapping"
  clients_poisoned :: bool

definition router_new :: InvertedTopicRouter where
  "router_new = \<lparr>topics = Mapping.empty, topics_poisoned = False,
     clients = Mapping.empty, clients_poisoned = False\<rparr>"

section \<open>Registration and subscription\<close>

definition register_client :: "InvertedTopicRouter \<Rightarrow> ClientSession \<Rightarrow> InvertedTopicRouter \<times> (RouterError + u32)" where
  "register_client r session =
     (if clients_poisoned r then (r, Inl LockPoisoned)
      else let cid = session_id session
           in if Mapping.lookup (clients r) cid \<noteq> None then (r, Inl (ClientAlreadyExists cid))
              else (r\<lparr>clients := Mapping.update cid session (clients r)\<rparr>, Inr cid))"

text \<open>The removed session is marked closed before its last reference is dropped.\<close>

definition unregister_client :: "InvertedTopicRouter \<Rightarrow> u32 \<Rightarrow> InvertedTopicRouter \<times> (RouterError + unit)" where
  "unregister_client r client_id =
     (if clients_poisoned r then (r, Inl LockPoisoned)
      else case Mapping.lookup (clients r) client_id of
        None \<Rightarrow> (r, Inl (ClientNotFound client_id))
      | Some session \<Rightarrow>
          let session = set_state session Closed;
              r = r\<lparr>clients := Mapping.delete client_id (clients r)\<rparr>
          in if topics_poisoned r then (r, Inl LockPoisoned)
             else let ts = Mapping.map_values (\<lambda>_ bitmap. fst (bitmap_remove bitmap client_id)) (topics r);
                      ts = Mapping.filter (\<lambda>_ bitmap. \<not> bitmap_is_empty bitmap) ts
                  in (r\<lparr>topics := ts\<rparr>, Inr ()))"

definition subscribe :: "InvertedTopicRouter \<Rightarrow> u32 \<Rightarrow> TopicKey \<Rightarrow> InvertedTopicRouter \<times> (RouterError + unit)" where
  "subscribe r client_id topic =
     (if clients_poisoned r then (r, Inl LockPoisoned)
      else case Mapping.lookup (clients r) client_id of
        None \<Rightarrow> (r, Inl (ClientNotFound client_id))
      | Some session \<Rightarrow>
          let r = r\<lparr>clients := Mapping.update client_id (set_state session Subscribed) (clients r)\<rparr>
          in if topics_poisoned r then (r, Inl LockPoisoned)
             else let bitmap = (case Mapping.lookup (topics r) topic of None \<Rightarrow> bitmap_new | Some b \<Rightarrow> b)
                  in (r\<lparr>topics := Mapping.update topic (fst (bitmap_insert bitmap client_id)) (topics r)\<rparr>, Inr ()))"

definition unsubscribe :: "InvertedTopicRouter \<Rightarrow> u32 \<Rightarrow> TopicKey \<Rightarrow> InvertedTopicRouter \<times> (RouterError + unit)" where
  "unsubscribe r client_id topic =
     (if topics_poisoned r then (r, Inl LockPoisoned)
      else case Mapping.lookup (topics r) topic of
        None \<Rightarrow> (r, Inr ())
      | Some bitmap \<Rightarrow>
          (r\<lparr>topics := Mapping.update topic (fst (bitmap_remove bitmap client_id)) (topics r)\<rparr>, Inr ()))"

definition update_filter :: "InvertedTopicRouter \<Rightarrow> u32 \<Rightarrow> ClientFilterPredicate \<Rightarrow> InvertedTopicRouter \<times> (RouterError + unit)" where
  "update_filter r client_id f =
     (if clients_poisoned r then (r, Inl LockPoisoned)
      else case Mapping.lookup (clients r) client_id of
        None \<Rightarrow> (r, Inl (ClientNotFound client_id))
      | Some session \<Rightarrow>
          if filter_poisoned session then (r, Inl LockPoisoned)
          else (r\<lparr>clients := Mapping.update client_id (session\<lparr>session_filter := f\<rparr>) (clients r)\<rparr>, Inr ()))"

definition client_count :: "InvertedTopicRouter \<Rightarrow> nat" where
  "client_count r = (if clients_poisoned r then 0 else Mapping.size (clients r))"

definition topic_count :: "InvertedTopicRouter \<Rightarrow> nat" where
  "topic_count r = (if topics_poisoned r then 0 else Mapping.size (topics r))"

section \<open>Dispatch\<close>

type_synonym delivery = "u32 \<times> WireProtocol \<times> bytes"

text \<open>What the closure passed to \<open>for_each\<close> captures: the sessions, the metrics, the two lazy buffers
  with their flags and lengths, and the deliveries so far.\<close>

record dispatch_env =
  de_clients :: "(u32, ClientSession) mapping"
  de_metrics :: DispatchMetrics
  de_sbe_buf :: bytes
  de_sbe_encoded :: bool
  de_sbe_len :: nat
  de_json_buf :: bytes
  de_json_encoded :: bool
  de_json_len :: nat
  de_sink :: "delivery list"

definition dispatch_env_new :: "(u32, ClientSession) mapping \<Rightarrow> nat \<Rightarrow> dispatch_env" where
  "dispatch_env_new cs sbe_total =
     \<lparr>de_clients = cs, de_metrics = metrics_default,
      de_sbe_buf = replicate sbe_total 0, de_sbe_encoded = False, de_sbe_len = 0,
      de_json_buf = replicate 512 0, de_json_encoded = False, de_json_len = 0, de_sink = []\<rparr>"

text \<open>The SBE arm of the protocol match, for a given encoder.\<close>

definition deliver_sbe ::
  "(bytes \<Rightarrow> SbeError + nat \<times> bytes) \<Rightarrow> u32 \<Rightarrow> ClientSession \<Rightarrow> dispatch_env \<Rightarrow> dispatch_env" where
  "deliver_sbe enc client_id session e =
     (let e = (if de_sbe_encoded e then e
               else case enc (de_sbe_buf e) of
                 Inr (len, buf) \<Rightarrow> e\<lparr>de_sbe_buf := buf, de_sbe_len := len, de_sbe_encoded := True\<rparr>
               | Inl _ \<Rightarrow> e)
      in if de_sbe_encoded e
         then let m = de_metrics e
              in e\<lparr>de_sink := de_sink e @ [(client_id, WireProtocol.Sbe, take (de_sbe_len e) (de_sbe_buf e))],
                   de_clients := Mapping.update client_id (record_delivery session (de_sbe_len e)) (de_clients e),
                   de_metrics := m\<lparr>delivered_clients := delivered_clients m + 1,
                     sbe_bytes_dispatched := sbe_bytes_dispatched m + de_sbe_len e\<rparr>\<rparr>
         else e)"

text \<open>The JSON arm.\<close>

definition deliver_json ::
  "(bytes \<Rightarrow> (JsonError + nat) \<times> bytes) \<Rightarrow> u32 \<Rightarrow> ClientSession \<Rightarrow> dispatch_env \<Rightarrow> dispatch_env" where
  "deliver_json ser client_id session e =
     (let e = (if de_json_encoded e then e
               else case ser (de_json_buf e) of
                 (Inr len, buf) \<Rightarrow> e\<lparr>de_json_buf := buf, de_json_len := len, de_json_encoded := True\<rparr>
               | (Inl _, buf) \<Rightarrow> e\<lparr>de_json_buf := buf\<rparr>)
      in if de_json_encoded e
         then let m = de_metrics e
              in e\<lparr>de_sink := de_sink e @ [(client_id, WireProtocol.Json, take (de_json_len e) (de_json_buf e))],
                   de_clients := Mapping.update client_id (record_delivery session (de_json_len e)) (de_clients e),
                   de_metrics := m\<lparr>delivered_clients := delivered_clients m + 1,
                     json_bytes_dispatched := json_bytes_dispatched m + de_json_len e\<rparr>\<rparr>
         else e)"

text \<open>The closure: the two dispatch functions differ in the filter test and the encoders.\<close>

definition dispatch_client ::
  "(ClientFilterPredicate \<Rightarrow> bool) \<Rightarrow> (bytes \<Rightarrow> SbeError + nat \<times> bytes) \<Rightarrow>
   (bytes \<Rightarrow> (JsonError + nat) \<times> bytes) \<Rightarrow> u64 \<Rightarrow> u32 \<Rightarrow> dispatch_env \<Rightarrow> dispatch_env" where
  "dispatch_client rejects enc ser now_ms client_id e =
     (let m = de_metrics e;
          m = m\<lparr>matched_clients := matched_clients m + 1\<rparr>;
          e = e\<lparr>de_metrics := m\<rparr>
      in case Mapping.lookup (de_clients e) client_id of
           None \<Rightarrow> e
         | Some session \<Rightarrow>
             if \<not> is_active session then e
             else if \<not> filter_poisoned session \<and> rejects (session_filter session)
             then e\<lparr>de_metrics := m\<lparr>filtered_clients := filtered_clients m + 1\<rparr>\<rparr>
             else let (session, allowed) = try_consume_token session 1 now_ms;
                      e = e\<lparr>de_clients := Mapping.update client_id session (de_clients e)\<rparr>
                  in if \<not> allowed
                     then e\<lparr>de_metrics := m\<lparr>rate_limited_clients := rate_limited_clients m + 1\<rparr>\<rparr>
                     else case protocol session of
                            WireProtocol.Sbe \<Rightarrow> deliver_sbe enc client_id session e
                          | WireProtocol.Json \<Rightarrow> deliver_json ser client_id session e)"

definition dispatch_all ::
  "(ClientFilterPredicate \<Rightarrow> bool) \<Rightarrow> (bytes \<Rightarrow> SbeError + nat \<times> bytes) \<Rightarrow> nat \<Rightarrow>
   (bytes \<Rightarrow> (JsonError + nat) \<times> bytes) \<Rightarrow> u64 \<Rightarrow> ClientBitmap \<Rightarrow> InvertedTopicRouter \<Rightarrow>
   InvertedTopicRouter \<times> DispatchMetrics \<times> delivery list" where
  "dispatch_all rejects enc sbe_total ser now_ms candidates r =
     (if bitmap_is_empty candidates \<or> clients_poisoned r then (r, metrics_default, [])
      else let e = fold (dispatch_client rejects enc ser now_ms) (bitmap_for_each candidates)
                     (dispatch_env_new (clients r) sbe_total)
           in (r\<lparr>clients := de_clients e\<rparr>, de_metrics e, de_sink e))"

definition bbo_candidates :: "InvertedTopicRouter \<Rightarrow> NormalizedBbo \<Rightarrow> ClientBitmap" where
  "bbo_candidates r bbo =
     (let exact_topic = topic_new (ucast (bbo_venue bbo)) (bbo_market_id bbo) STREAM_TYPE_BBO (ucast (bbo_flags bbo));
          default_topic = topic_new (ucast (bbo_venue bbo)) (bbo_market_id bbo) STREAM_TYPE_BBO 0;
          exact = Mapping.lookup_default bitmap_new (topics r) exact_topic
      in if exact_topic \<noteq> default_topic
         then bitmap_union exact (Mapping.lookup_default bitmap_new (topics r) default_topic)
         else exact)"

definition bbo_rejects :: "NormalizedBbo \<Rightarrow> ClientFilterPredicate \<Rightarrow> bool" where
  "bbo_rejects bbo f \<longleftrightarrow> max_spread_bps f > 0 \<and> ucast (spread_bps bbo) > max_spread_bps f"

definition dispatch_bbo ::
  "InvertedTopicRouter \<Rightarrow> NormalizedBbo \<Rightarrow> u64 \<Rightarrow> InvertedTopicRouter \<times> DispatchMetrics \<times> delivery list" where
  "dispatch_bbo r bbo now_ms =
     (if topics_poisoned r then (r, metrics_default, [])
      else dispatch_all (bbo_rejects bbo) (encode_bbo_sbe bbo) TOTAL_SBE_BBO_LEN (serialize_bbo_json bbo)
             now_ms (bbo_candidates r bbo) r)"

definition trade_candidates :: "InvertedTopicRouter \<Rightarrow> UnifiedTrade \<Rightarrow> ClientBitmap" where
  "trade_candidates r trade =
     (let topic = topic_new (ucast (trade_venue trade)) (trade_market_id trade) STREAM_TYPE_TRADE 0
      in Mapping.lookup_default bitmap_new (topics r) topic)"

definition dispatch_trade ::
  "InvertedTopicRouter \<Rightarrow> UnifiedTrade \<Rightarrow> f64 \<Rightarrow> u64 \<Rightarrow> InvertedTopicRouter \<times> DispatchMetrics \<times> delivery list" where
  "dispatch_trade r trade notional_usd now_ms =
     (if topics_poisoned r then (r, metrics_default, [])
      else dispatch_all (\<lambda>f. \<not> matches_trade f notional_usd) (encode_trade_sbe trade) TOTAL_SBE_TRADE_LEN
             (serialize_trade_json trade) now_ms (trade_candidates r trade) r)"

section \<open>Subscriptions\<close>

text \<open>The abstract view: a client is registered, and it is subscribed to a topic.\<close>

definition registered :: "InvertedTopicRouter \<Rightarrow> u32 \<Rightarrow> bool" where
  "registered r c \<longleftrightarrow> Mapping.lookup (clients r) c \<noteq> None"

definition subscribed :: "InvertedTopicRouter \<Rightarrow> TopicKey \<Rightarrow> u32 \<Rightarrow> bool" where
  "subscribed r t c \<longleftrightarrow> (case Mapping.lookup (topics r) t of None \<Rightarrow> False | Some b \<Rightarrow> bitmap_contains b c)"

definition router_wf :: "InvertedTopicRouter \<Rightarrow> bool" where
  "router_wf r \<longleftrightarrow> (\<forall>t b. Mapping.lookup (topics r) t = Some b \<longrightarrow> bitmap_inv b)"

lemma lookup_map_filter:
  "Mapping.lookup (Mapping.filter P (Mapping.map_values f m)) k =
     (case Mapping.lookup m k of None \<Rightarrow> None | Some v \<Rightarrow> if P k (f k v) then Some (f k v) else None)"
  by (simp add: lookup_filter lookup_map_values split: option.splits)

lemma subscribe_ok:
  assumes "subscribe r c t = (r', Inr ())" "router_wf r"
  shows "router_wf r' \<and> (\<forall>t' c'. subscribed r' t' c' \<longleftrightarrow> subscribed r t' c' \<or> (t' = t \<and> c' = c \<and> unat c < MAX_CLIENT_CAPACITY))
    \<and> (\<forall>c'. registered r' c' \<longleftrightarrow> registered r c')"
  using assms bm.inv_new
  by (auto simp: subscribe_def Let_def router_wf_def subscribed_def registered_def lookup_update'
      bitmap_contains_insert split: if_splits option.splits)

lemma unsubscribe_ok:
  assumes "unsubscribe r c t = (r', Inr ())" "router_wf r"
  shows "router_wf r' \<and> (\<forall>t' c'. subscribed r' t' c' \<longleftrightarrow> subscribed r t' c' \<and> \<not> (t' = t \<and> c' = c))
    \<and> (\<forall>c'. registered r' c' \<longleftrightarrow> registered r c')"
  using assms
  by (auto simp: unsubscribe_def router_wf_def subscribed_def registered_def lookup_update'
      bitmap_contains_remove split: if_splits option.splits)

lemma unregister_ok:
  assumes "unregister_client r c = (r', Inr ())" "router_wf r"
  shows "router_wf r' \<and> (\<forall>t' c'. subscribed r' t' c' \<longleftrightarrow> subscribed r t' c' \<and> c' \<noteq> c)
    \<and> (\<forall>c'. registered r' c' \<longleftrightarrow> registered r c' \<and> c' \<noteq> c)"
proof -
  have r': "r' = r\<lparr>clients := Mapping.delete c (clients r),
      topics := Mapping.filter (\<lambda>_ b. \<not> bitmap_is_empty b) (Mapping.map_values (\<lambda>_ b. fst (bitmap_remove b c)) (topics r))\<rparr>"
    using assms(1) by (auto simp: unregister_client_def Let_def split: if_splits option.splits)
  have "subscribed r' t' c' \<longleftrightarrow> subscribed r t' c' \<and> c' \<noteq> c" for t' c'
  proof (cases "Mapping.lookup (topics r) t'")
    case (Some b)
    then have "bitmap_inv b" using assms(2) by (simp add: router_wf_def)
    then show ?thesis
      using Some bitmap_is_empty_iff [of "fst (bitmap_remove b c)"]
      by (auto simp: subscribed_def r' lookup_map_filter bitmap_contains_remove)
  qed (simp add: subscribed_def r' lookup_map_filter)
  moreover have "router_wf r'"
    using assms(2) by (auto simp: router_wf_def r' lookup_map_filter split: option.splits if_splits)
  moreover have "registered r' c' \<longleftrightarrow> registered r c' \<and> c' \<noteq> c" for c'
    by (cases "c' = c") (simp_all add: registered_def r')
  ultimately show ?thesis by blast
qed

lemma register_ok:
  assumes "register_client r s = (r', Inr c)" "router_wf r"
  shows "c = session_id s \<and> \<not> registered r c \<and> router_wf r' \<and> (\<forall>t' c'. subscribed r' t' c' \<longleftrightarrow> subscribed r t' c')
    \<and> (\<forall>c'. registered r' c' \<longleftrightarrow> registered r c' \<or> c' = c)"
  using assms
  by (auto simp: register_client_def Let_def router_wf_def subscribed_def registered_def lookup_update'
      split: if_splits option.splits)

text \<open>C10: Subscription management refines a relation between topics and clients: a successful
  subscription adds exactly the pair (and nothing for a client id of 1024 or more, for which the call
  still reports success), an unsubscription removes exactly the pair, and unregistering a client removes
  it from every topic and touches no other client; registrations change only by register and
  unregister.\<close>

theorem subscription_refinement:
  assumes "router_wf r"
  shows "(case subscribe r c t of (r', Inr _) \<Rightarrow> router_wf r' \<and> registered r c \<and>
            (\<forall>t' c'. subscribed r' t' c' \<longleftrightarrow> subscribed r t' c' \<or> (t' = t \<and> c' = c \<and> unat c < 1024)) \<and>
            (\<forall>c'. registered r' c' \<longleftrightarrow> registered r c')
          | (r', Inl _) \<Rightarrow> clients_poisoned r \<or> topics_poisoned r \<or> \<not> registered r c) \<and>
    (case unsubscribe r c t of (r', Inr _) \<Rightarrow> router_wf r' \<and>
            (\<forall>t' c'. subscribed r' t' c' \<longleftrightarrow> subscribed r t' c' \<and> \<not> (t' = t \<and> c' = c)) \<and>
            (\<forall>c'. registered r' c' \<longleftrightarrow> registered r c')
          | (r', Inl _) \<Rightarrow> topics_poisoned r) \<and>
    (case unregister_client r c of (r', Inr _) \<Rightarrow> router_wf r' \<and> registered r c \<and>
            (\<forall>t' c'. subscribed r' t' c' \<longleftrightarrow> subscribed r t' c' \<and> c' \<noteq> c) \<and>
            (\<forall>c'. registered r' c' \<longleftrightarrow> registered r c' \<and> c' \<noteq> c)
          | (r', Inl _) \<Rightarrow> clients_poisoned r \<or> topics_poisoned r \<or> \<not> registered r c)"
proof -
  have cap: "MAX_CLIENT_CAPACITY = 1024" by (simp add: MAX_CLIENT_CAPACITY_def DEFAULT_BITMAP_WORDS_def)
  have "clients_poisoned r \<or> topics_poisoned r \<or> \<not> registered r c" if "snd (subscribe r c t) = Inl e" for e
    using that by (auto simp: subscribe_def registered_def Let_def split: if_splits option.splits)
  moreover have "registered r c" if "snd (subscribe r c t) = Inr u" for u
    using that by (auto simp: subscribe_def registered_def Let_def split: if_splits option.splits)
  moreover have "topics_poisoned r" if "snd (unsubscribe r c t) = Inl e" for e
    using that by (auto simp: unsubscribe_def split: if_splits option.splits)
  moreover have "clients_poisoned r \<or> topics_poisoned r \<or> \<not> registered r c" if "snd (unregister_client r c) = Inl e" for e
    using that by (auto simp: unregister_client_def registered_def Let_def split: if_splits option.splits)
  moreover have "registered r c" if "snd (unregister_client r c) = Inr u" for u
    using that by (auto simp: unregister_client_def registered_def Let_def split: if_splits option.splits)
  ultimately show ?thesis
    using subscribe_ok [OF _ assms, of c t] unsubscribe_ok [OF _ assms, of c t] unregister_ok [OF _ assms, of c] cap
    by (fastforce split: prod.splits sum.splits)
qed

theorem subscription_refinement_witness:
  "\<exists>r'. subscribe (fst (register_client router_new (session_new 7 WireProtocol.Sbe 100 10 0))) 7 (TopicKey 5) = (r', Inr ())
     \<and> subscribed r' (TopicKey 5) 7 \<and> \<not> subscribed r' (TopicKey 6) 7 \<and> \<not> subscribed r' (TopicKey 5) 8"
proof -
  let ?r = "fst (register_client router_new (session_new 7 WireProtocol.Sbe 100 10 0))"
  have wf: "router_wf ?r"
    by (simp add: router_wf_def register_client_def router_new_def Let_def session_new_def)
  obtain r' where sub: "subscribe ?r 7 (TopicKey 5) = (r', Inr ())"
    by (simp add: subscribe_def register_client_def router_new_def session_new_def)
  have "\<not> subscribed ?r t c" for t c
    by (simp add: subscribed_def register_client_def router_new_def Let_def session_new_def)
  then show ?thesis using subscription_refinement [OF wf, of 7 "TopicKey 5"] sub by simp
qed

end
