(* ===== verification/Router_Dispatch.thy ===== *)
theory Router_Dispatch
  imports Topic_Router
begin

text \<open>
  What the two dispatch functions of \<open>Topic_Router\<close> deliver. The specification gives each candidate
  a verdict from its session alone; the fan-out loop, with its shared buffers and counters, is shown to
  deliver exactly the payloads the verdicts ask for, in ascending client order, and to count them.
\<close>

section \<open>What a dispatch does to one client\<close>

text \<open>The outcome for a candidate, from its session alone.\<close>

datatype verdict = Absent | Inactive | Filtered | RateLimited | Deliver WireProtocol

definition client_verdict :: "(ClientFilterPredicate \<Rightarrow> bool) \<Rightarrow> u64 \<Rightarrow> ClientSession option \<Rightarrow> verdict" where
  "client_verdict rejects now_ms so =
     (case so of None \<Rightarrow> Absent
      | Some s \<Rightarrow> if \<not> is_active s then Inactive
          else if \<not> filter_poisoned s \<and> rejects (session_filter s) then Filtered
          else if \<not> snd (try_consume (rate_limiter s) 1 now_ms) then RateLimited
          else Deliver (protocol s))"

text \<open>The session afterwards; \<open>psize p\<close> is the length of the payload in protocol \<open>p\<close>.\<close>

definition session_after ::
  "(ClientFilterPredicate \<Rightarrow> bool) \<Rightarrow> u64 \<Rightarrow> (WireProtocol \<Rightarrow> nat) \<Rightarrow> ClientSession \<Rightarrow> ClientSession" where
  "session_after rejects now_ms psize s =
     (case client_verdict rejects now_ms (Some s) of
        RateLimited \<Rightarrow> fst (try_consume_token s 1 now_ms)
      | Deliver p \<Rightarrow> record_delivery (fst (try_consume_token s 1 now_ms)) (psize p)
      | _ \<Rightarrow> s)"

definition bump :: "(WireProtocol \<Rightarrow> nat) \<Rightarrow> verdict \<Rightarrow> DispatchMetrics \<Rightarrow> DispatchMetrics" where
  "bump psize v m =
     (let m = m\<lparr>matched_clients := matched_clients m + 1\<rparr>
      in case v of
           Filtered \<Rightarrow> m\<lparr>filtered_clients := filtered_clients m + 1\<rparr>
         | RateLimited \<Rightarrow> m\<lparr>rate_limited_clients := rate_limited_clients m + 1\<rparr>
         | Deliver WireProtocol.Sbe \<Rightarrow> m\<lparr>delivered_clients := delivered_clients m + 1,
             sbe_bytes_dispatched := sbe_bytes_dispatched m + psize WireProtocol.Sbe\<rparr>
         | Deliver WireProtocol.Json \<Rightarrow> m\<lparr>delivered_clients := delivered_clients m + 1,
             json_bytes_dispatched := json_bytes_dispatched m + psize WireProtocol.Json\<rparr>
         | _ \<Rightarrow> m)"

text \<open>The specification of a whole dispatch over a list of candidates.\<close>

definition spec_sink :: "(u32 \<Rightarrow> verdict) \<Rightarrow> (WireProtocol \<Rightarrow> bytes) \<Rightarrow> u32 list \<Rightarrow> delivery list" where
  "spec_sink v payload cs = List.map_filter (\<lambda>c. case v c of Deliver p \<Rightarrow> Some (c, p, payload p) | _ \<Rightarrow> None) cs"

definition spec_metrics :: "(u32 \<Rightarrow> verdict) \<Rightarrow> (WireProtocol \<Rightarrow> nat) \<Rightarrow> u32 list \<Rightarrow> DispatchMetrics" where
  "spec_metrics v psize cs =
     \<lparr>matched_clients = length cs,
      delivered_clients = length (filter (\<lambda>c. \<exists>p\<in>{WireProtocol.Sbe, WireProtocol.Json}. v c = Deliver p) cs),
      filtered_clients = length (filter (\<lambda>c. v c = Filtered) cs),
      rate_limited_clients = length (filter (\<lambda>c. v c = RateLimited) cs),
      sbe_bytes_dispatched = psize WireProtocol.Sbe * length (filter (\<lambda>c. v c = Deliver WireProtocol.Sbe) cs),
      json_bytes_dispatched = psize WireProtocol.Json * length (filter (\<lambda>c. v c = Deliver WireProtocol.Json) cs)\<rparr>"

lemma spec_metrics_snoc: "spec_metrics v psize (cs @ [c]) = bump psize (v c) (spec_metrics v psize cs)"
proof (cases "v c")
  case (Deliver p)
  then show ?thesis by (cases p) (simp_all add: spec_metrics_def bump_def)
qed (simp_all add: spec_metrics_def bump_def)

lemma spec_metrics_Nil: "spec_metrics v psize [] = metrics_default"
  by (simp add: spec_metrics_def metrics_default_def)

lemma spec_sink_snoc:
  "spec_sink v payload (cs @ [c]) = spec_sink v payload cs @ (case v c of Deliver p \<Rightarrow> [(c, p, payload p)] | _ \<Rightarrow> [])"
  by (simp add: spec_sink_def List.map_filter_def split: verdict.splits)

section \<open>The payload encoders\<close>

text \<open>What the fan-out relies on: on the zeroed buffers the router allocates, both encoders succeed, and
  the bytes written are the payload of the message.\<close>

locale payload_encoders =
  fixes enc :: "bytes \<Rightarrow> SbeError + nat \<times> bytes"
    and ser :: "bytes \<Rightarrow> (JsonError + nat) \<times> bytes"
    and total :: nat
    and payload :: "WireProtocol \<Rightarrow> bytes"
  assumes enc_ok: "\<exists>rest. enc (replicate total 0) = Inr (length (payload WireProtocol.Sbe), payload WireProtocol.Sbe @ rest)"
    and ser_ok: "\<exists>rest. ser (replicate 512 0) = (Inr (length (payload WireProtocol.Json)), payload WireProtocol.Json @ rest)"
begin

definition buffers_ok :: "dispatch_env \<Rightarrow> bool" where
  "buffers_ok e \<longleftrightarrow>
     (if de_sbe_encoded e
      then de_sbe_len e = length (payload WireProtocol.Sbe) \<and> take (de_sbe_len e) (de_sbe_buf e) = payload WireProtocol.Sbe
      else de_sbe_buf e = replicate total 0) \<and>
     (if de_json_encoded e
      then de_json_len e = length (payload WireProtocol.Json) \<and> take (de_json_len e) (de_json_buf e) = payload WireProtocol.Json
      else de_json_buf e = replicate 512 0)"

lemma buffers_ok_update [simp]:
  "buffers_ok (e\<lparr>de_metrics := m\<rparr>) = buffers_ok e"
  "buffers_ok (e\<lparr>de_clients := cs\<rparr>) = buffers_ok e"
  by (simp_all add: buffers_ok_def)

definition after_delivery :: "WireProtocol \<Rightarrow> u32 \<Rightarrow> ClientSession \<Rightarrow> dispatch_env \<Rightarrow> dispatch_env \<Rightarrow> bool" where
  "after_delivery p c s e e' \<longleftrightarrow> buffers_ok e' \<and> de_sink e' = de_sink e @ [(c, p, payload p)] \<and>
     de_clients e' = Mapping.update c (record_delivery s (length (payload p))) (de_clients e) \<and>
     de_metrics e' = (case p of
       WireProtocol.Sbe \<Rightarrow> (de_metrics e)\<lparr>delivered_clients := delivered_clients (de_metrics e) + 1,
         sbe_bytes_dispatched := sbe_bytes_dispatched (de_metrics e) + length (payload p)\<rparr>
     | WireProtocol.Json \<Rightarrow> (de_metrics e)\<lparr>delivered_clients := delivered_clients (de_metrics e) + 1,
         json_bytes_dispatched := json_bytes_dispatched (de_metrics e) + length (payload p)\<rparr>)"

lemma deliver_sbe_ok: "buffers_ok e \<Longrightarrow> after_delivery WireProtocol.Sbe c s e (deliver_sbe enc c s e)"
  using enc_ok by (auto simp: after_delivery_def buffers_ok_def deliver_sbe_def Let_def)

lemma deliver_json_ok: "buffers_ok e \<Longrightarrow> after_delivery WireProtocol.Json c s e (deliver_json ser c s e)"
  using ser_ok by (auto simp: after_delivery_def buffers_ok_def deliver_json_def Let_def)

text \<open>One candidate: the effect is that of the verdict, whatever the buffers held.\<close>

definition after_client ::
  "(ClientFilterPredicate \<Rightarrow> bool) \<Rightarrow> u64 \<Rightarrow> u32 \<Rightarrow> dispatch_env \<Rightarrow> dispatch_env \<Rightarrow> bool" where
  "after_client rejects now_ms c e e' \<longleftrightarrow>
     (let so = Mapping.lookup (de_clients e) c; v = client_verdict rejects now_ms so
      in buffers_ok e' \<and>
         de_sink e' = de_sink e @ (case v of Deliver p \<Rightarrow> [(c, p, payload p)] | _ \<Rightarrow> []) \<and>
         de_metrics e' = bump (\<lambda>p. length (payload p)) v (de_metrics e) \<and>
         (\<forall>d. Mapping.lookup (de_clients e') d =
            (if d = c then map_option (session_after rejects now_ms (\<lambda>p. length (payload p))) so
             else Mapping.lookup (de_clients e) d)))"

lemma dispatch_client_deliver:
  fixes e :: dispatch_env
  assumes ok: "buffers_ok e" and s: "Mapping.lookup (de_clients e) c = Some s"
    and act: "is_active s" "\<not> (\<not> filter_poisoned s \<and> rejects (session_filter s))"
    and grant: "snd (try_consume (rate_limiter s) 1 now_ms)"
  shows "after_client rejects now_ms c e (dispatch_client rejects enc ser now_ms c e)"
proof -
  let ?m = "(de_metrics e)\<lparr>matched_clients := matched_clients (de_metrics e) + 1\<rparr>"
  obtain s' where tc: "try_consume_token s 1 now_ms = (s', True)"
    using grant try_consume_token_result [of s 1 now_ms] by (metis prod.collapse)
  have p: "protocol s' = protocol s" using try_consume_token_fields(1) [of s 1 now_ms] tc by simp
  let ?e = "e\<lparr>de_metrics := ?m, de_clients := Mapping.update c s' (de_clients e)\<rparr>"
  have ok': "buffers_ok ?e" using ok by simp
  have "dispatch_client rejects enc ser now_ms c e =
      (case protocol s of WireProtocol.Sbe \<Rightarrow> deliver_sbe enc c s' ?e | WireProtocol.Json \<Rightarrow> deliver_json ser c s' ?e)"
    using s act tc p by (cases "protocol s") (auto simp: dispatch_client_def Let_def)
  then have "after_delivery (protocol s) c s' ?e (dispatch_client rejects enc ser now_ms c e)"
    using deliver_sbe_ok [OF ok'] deliver_json_ok [OF ok'] by (cases "protocol s") simp_all
  moreover have "client_verdict rejects now_ms (Some s) = Deliver (protocol s)"
    using act grant by (auto simp: client_verdict_def)
  ultimately show ?thesis
    using s tc
    by (cases "protocol s")
       (auto simp: after_client_def after_delivery_def session_after_def bump_def Let_def lookup_update')
qed

lemma dispatch_client_ok:
  fixes e :: dispatch_env
  assumes ok: "buffers_ok e"
  shows "after_client rejects now_ms c e (dispatch_client rejects enc ser now_ms c e)"
proof (cases "client_verdict rejects now_ms (Mapping.lookup (de_clients e) c)")
  case (Deliver p)
  then show ?thesis
    using dispatch_client_deliver [OF ok] by (auto simp: client_verdict_def split: option.splits if_splits)
next
  case RateLimited
  then obtain s where s: "Mapping.lookup (de_clients e) c = Some s" and act: "is_active s"
      "\<not> (\<not> filter_poisoned s \<and> rejects (session_filter s))" "\<not> snd (try_consume (rate_limiter s) 1 now_ms)"
    by (auto simp: client_verdict_def split: option.splits if_splits)
  obtain s' where "try_consume_token s 1 now_ms = (s', False)"
    using act(3) try_consume_token_result [of s 1 now_ms] by (metis prod.collapse)
  then show ?thesis
    using s act ok RateLimited
    by (auto simp: after_client_def dispatch_client_def session_after_def bump_def Let_def lookup_update')
next
  case Absent
  then show ?thesis
    using ok by (auto simp: after_client_def dispatch_client_def client_verdict_def bump_def Let_def
        split: option.splits if_splits)
next
  case Inactive
  then show ?thesis
    using ok by (auto simp: after_client_def dispatch_client_def client_verdict_def bump_def Let_def
        session_after_def split: option.splits if_splits)
next
  case Filtered
  then show ?thesis
    using ok by (auto simp: after_client_def dispatch_client_def client_verdict_def bump_def Let_def
        session_after_def split: option.splits if_splits)
qed

text \<open>All candidates, each visited once.\<close>

lemma fold_dispatch_client:
  fixes rejects :: "ClientFilterPredicate \<Rightarrow> bool" and now_ms :: u64
  defines "e cs0 cs \<equiv> fold (dispatch_client rejects enc ser now_ms) cs (dispatch_env_new cs0 total)"
    and "v cs0 c \<equiv> client_verdict rejects now_ms (Mapping.lookup cs0 c)"
  assumes "distinct cs"
  shows "buffers_ok (e cs0 cs) \<and> de_sink (e cs0 cs) = spec_sink (v cs0) payload cs \<and>
    de_metrics (e cs0 cs) = spec_metrics (v cs0) (\<lambda>p. length (payload p)) cs \<and>
    (\<forall>d. Mapping.lookup (de_clients (e cs0 cs)) d =
       (if d \<in> set cs then map_option (session_after rejects now_ms (\<lambda>p. length (payload p))) (Mapping.lookup cs0 d)
        else Mapping.lookup cs0 d))"
  using assms(3)
proof (induction cs rule: rev_induct)
  case Nil
  then show ?case
    by (simp add: e_def dispatch_env_new_def buffers_ok_def spec_metrics_Nil spec_sink_def)
next
  case (snoc c cs)
  then have IH: "buffers_ok (e cs0 cs)" "de_sink (e cs0 cs) = spec_sink (v cs0) payload cs"
      "de_metrics (e cs0 cs) = spec_metrics (v cs0) (\<lambda>p. length (payload p)) cs"
      "\<And>d. Mapping.lookup (de_clients (e cs0 cs)) d =
         (if d \<in> set cs then map_option (session_after rejects now_ms (\<lambda>p. length (payload p))) (Mapping.lookup cs0 d)
          else Mapping.lookup cs0 d)" and c: "c \<notin> set cs" by auto
  have "e cs0 (cs @ [c]) = dispatch_client rejects enc ser now_ms c (e cs0 cs)" by (simp add: e_def)
  moreover have "client_verdict rejects now_ms (Mapping.lookup cs0 c) = v cs0 c" by (simp add: v_def)
  ultimately show ?case
    using dispatch_client_ok [OF IH(1), of rejects now_ms c] IH c
    by (simp add: after_client_def Let_def spec_sink_snoc spec_metrics_snoc)
qed

end

interpretation bbo_payload: payload_encoders "encode_bbo_sbe bbo" "serialize_bbo_json bbo" TOTAL_SBE_BBO_LEN
    "\<lambda>p. case p of WireProtocol.Sbe \<Rightarrow> bbo_wire bbo | WireProtocol.Json \<Rightarrow> bbo_json_text bbo" for bbo
  by unfold_locales (simp_all add: encode_bbo_wire serialize_bbo_json_512)

interpretation trade_payload: payload_encoders "encode_trade_sbe trade" "serialize_trade_json trade" TOTAL_SBE_TRADE_LEN
    "\<lambda>p. case p of WireProtocol.Sbe \<Rightarrow> trade_wire trade | WireProtocol.Json \<Rightarrow> trade_json_text trade" for trade
  by unfold_locales (simp_all add: encode_trade_wire serialize_trade_json_512)

section \<open>Candidates\<close>

lemma bitmap_inv_lookup_default:
  "router_wf r \<Longrightarrow> bitmap_inv (Mapping.lookup_default bitmap_new (topics r) t)"
  by (auto simp: router_wf_def Mapping.lookup_default_def split: option.splits)

lemma contains_lookup_default:
  "bitmap_contains (Mapping.lookup_default bitmap_new (topics r) t) c \<longleftrightarrow> subscribed r t c"
  by (simp add: subscribed_def Mapping.lookup_default_def split: option.splits)

text \<open>The topics a message is published on.\<close>

definition bbo_topics :: "NormalizedBbo \<Rightarrow> TopicKey list" where
  "bbo_topics bbo =
     [topic_new (ucast (bbo_venue bbo)) (bbo_market_id bbo) STREAM_TYPE_BBO (ucast (bbo_flags bbo)),
      topic_new (ucast (bbo_venue bbo)) (bbo_market_id bbo) STREAM_TYPE_BBO 0]"

definition trade_topics :: "UnifiedTrade \<Rightarrow> TopicKey list" where
  "trade_topics trade = [topic_new (ucast (trade_venue trade)) (trade_market_id trade) STREAM_TYPE_TRADE 0]"

text \<open>The subscribers of a list of topics, in ascending order of their ids.\<close>

definition subscribers :: "InvertedTopicRouter \<Rightarrow> TopicKey list \<Rightarrow> u32 list" where
  "subscribers r ts = filter (\<lambda>c. list_ex (\<lambda>t. subscribed r t c) ts) (map of_nat [0..<1024])"

lemma for_each_filter:
  "bitmap_inv b \<Longrightarrow> bitmap_for_each b = filter (bitmap_contains b) (map of_nat [0..<1024])"
  by (simp add: for_each_members member_ids_def MAX_CLIENT_CAPACITY_def DEFAULT_BITMAP_WORDS_def)

lemma bbo_candidates_subscribers:
  assumes "router_wf r"
  shows "bitmap_inv (bbo_candidates r bbo) \<and> bitmap_for_each (bbo_candidates r bbo) = subscribers r (bbo_topics bbo)"
proof -
  have inv: "bitmap_inv (bbo_candidates r bbo)"
    using assms by (simp add: bbo_candidates_def Let_def bitmap_inv_lookup_default)
  have "bitmap_contains (bbo_candidates r bbo) = (\<lambda>c. list_ex (\<lambda>t. subscribed r t c) (bbo_topics bbo))"
    by (rule ext) (auto simp: bbo_candidates_def bbo_topics_def Let_def bitmap_contains_union contains_lookup_default)
  with inv show ?thesis by (simp add: for_each_filter subscribers_def)
qed

lemma trade_candidates_subscribers:
  assumes "router_wf r"
  shows "bitmap_inv (trade_candidates r trade) \<and> bitmap_for_each (trade_candidates r trade) = subscribers r (trade_topics trade)"
proof -
  have inv: "bitmap_inv (trade_candidates r trade)"
    using assms by (simp add: trade_candidates_def Let_def bitmap_inv_lookup_default)
  have "bitmap_contains (trade_candidates r trade) = (\<lambda>c. list_ex (\<lambda>t. subscribed r t c) (trade_topics trade))"
    by (rule ext) (auto simp: trade_candidates_def trade_topics_def Let_def contains_lookup_default)
  with inv show ?thesis by (simp add: for_each_filter subscribers_def)
qed

text \<open>The specification of a dispatch on a router: deliveries, metrics and the sessions afterwards.\<close>

definition dispatch_spec ::
  "(ClientFilterPredicate \<Rightarrow> bool) \<Rightarrow> (WireProtocol \<Rightarrow> bytes) \<Rightarrow> u64 \<Rightarrow> u32 list \<Rightarrow> InvertedTopicRouter \<Rightarrow>
   InvertedTopicRouter \<times> DispatchMetrics \<times> delivery list \<Rightarrow> bool" where
  "dispatch_spec rejects payload now_ms cs r res \<longleftrightarrow>
     (let v = (\<lambda>c. client_verdict rejects now_ms (Mapping.lookup (clients r) c)); psize = (\<lambda>p. length (payload p))
      in case res of (r', m, out) \<Rightarrow>
           out = spec_sink v payload cs \<and> m = spec_metrics v psize cs \<and>
           topics r' = topics r \<and> topics_poisoned r' = topics_poisoned r \<and> clients_poisoned r' = clients_poisoned r \<and>
           (\<forall>d. Mapping.lookup (clients r') d =
              (if d \<in> set cs then map_option (session_after rejects now_ms psize) (Mapping.lookup (clients r) d)
               else Mapping.lookup (clients r) d)))"

context payload_encoders
begin

lemma dispatch_all_spec:
  assumes "bitmap_inv b" "\<not> clients_poisoned r"
  shows "dispatch_spec rejects payload now_ms (bitmap_for_each b) r (dispatch_all rejects enc total ser now_ms b r)"
proof (cases "bitmap_is_empty b")
  case True
  then have "bitmap_for_each b = []" using bm.enum_empty_iff [OF assms(1)] by simp
  then show ?thesis
    using True by (simp add: dispatch_all_def dispatch_spec_def spec_metrics_Nil spec_sink_def)
next
  case False
  then show ?thesis
    using fold_dispatch_client [OF bm.enum_distinct [OF assms(1)], of rejects now_ms "clients r"] assms(2)
    by (simp add: dispatch_all_def dispatch_spec_def Let_def)
qed

end

lemma dispatch_bbo_spec:
  assumes "router_wf r" "\<not> topics_poisoned r" "\<not> clients_poisoned r"
  shows "dispatch_spec (bbo_rejects bbo) (\<lambda>p. case p of WireProtocol.Sbe \<Rightarrow> bbo_wire bbo | WireProtocol.Json \<Rightarrow> bbo_json_text bbo)
    now_ms (subscribers r (bbo_topics bbo)) r (dispatch_bbo r bbo now_ms)"
  using bbo_payload.dispatch_all_spec [of "bbo_candidates r bbo" r "bbo_rejects bbo" bbo now_ms]
    bbo_candidates_subscribers [OF assms(1), of bbo] assms(2,3)
  by (simp add: dispatch_bbo_def)

lemma dispatch_trade_spec:
  assumes "router_wf r" "\<not> topics_poisoned r" "\<not> clients_poisoned r"
  shows "dispatch_spec (\<lambda>f. \<not> matches_trade f notional)
    (\<lambda>p. case p of WireProtocol.Sbe \<Rightarrow> trade_wire trade | WireProtocol.Json \<Rightarrow> trade_json_text trade)
    now_ms (subscribers r (trade_topics trade)) r (dispatch_trade r trade notional now_ms)"
  using trade_payload.dispatch_all_spec [of "trade_candidates r trade" r "\<lambda>f. \<not> matches_trade f notional" trade now_ms]
    trade_candidates_subscribers [OF assms(1), of trade] assms(2,3)
  by (simp add: dispatch_trade_def)

lemma sorted_subscribers: "sorted_wrt (<) (subscribers r ts)"
proof -
  have "sorted_wrt (\<lambda>i j. (of_nat i :: u32) < of_nat j) [0..<1024]"
    by (simp add: sorted_wrt_iff_nth_less word_less_nat_alt unat_of_nat_small)
  then show ?thesis by (simp add: subscribers_def sorted_wrt_filter sorted_wrt_map)
qed

section \<open>Reachable routers\<close>

text \<open>The operations of a router, as one step each; a session may be registered in any state.\<close>

inductive router_step :: "InvertedTopicRouter \<Rightarrow> InvertedTopicRouter \<Rightarrow> bool" where
  step_register: "register_client r s = (r', res) \<Longrightarrow> router_step r r'"
| step_unregister: "unregister_client r c = (r', res) \<Longrightarrow> router_step r r'"
| step_subscribe: "subscribe r c t = (r', res) \<Longrightarrow> router_step r r'"
| step_unsubscribe: "unsubscribe r c t = (r', res) \<Longrightarrow> router_step r r'"
| step_update_filter: "update_filter r c f = (r', res) \<Longrightarrow> router_step r r'"
| step_dispatch_bbo: "dispatch_bbo r bbo now_ms = (r', m, out) \<Longrightarrow> router_step r r'"
| step_dispatch_trade: "dispatch_trade r trade notional now_ms = (r', m, out) \<Longrightarrow> router_step r r'"

inductive router_reachable :: "InvertedTopicRouter \<Rightarrow> bool" where
  reach_new: "router_reachable router_new"
| reach_step: "router_reachable r \<Longrightarrow> router_step r r' \<Longrightarrow> router_reachable r'"

text \<open>Every subscriber is registered under its own id, in state subscribed.\<close>

definition router_inv :: "InvertedTopicRouter \<Rightarrow> bool" where
  "router_inv r \<longleftrightarrow> \<not> topics_poisoned r \<and> \<not> clients_poisoned r \<and> router_wf r \<and>
     (\<forall>c s. Mapping.lookup (clients r) c = Some s \<longrightarrow> session_id s = c) \<and>
     (\<forall>t c. subscribed r t c \<longrightarrow> (\<exists>s. Mapping.lookup (clients r) c = Some s \<and> session_state s = Subscribed))"

lemma session_after_keeps:
  "session_id (session_after rejects now_ms psize s) = session_id s"
  "session_state (session_after rejects now_ms psize s) = session_state s"
  by (auto simp: session_after_def session_state_def record_delivery_def split: verdict.splits)

lemma dispatch_spec_inv:
  assumes "router_inv r" "dispatch_spec rejects payload now_ms cs r (r', m, out)"
  shows "router_inv r'"
proof -
  from assms(2) have same: "topics r' = topics r" "topics_poisoned r' = topics_poisoned r"
      "clients_poisoned r' = clients_poisoned r"
    and look: "\<And>d. Mapping.lookup (clients r') d =
       (if d \<in> set cs then map_option (session_after rejects now_ms (\<lambda>p. length (payload p))) (Mapping.lookup (clients r) d)
        else Mapping.lookup (clients r) d)"
    by (auto simp: dispatch_spec_def Let_def)
  have sub: "subscribed r' = subscribed r" by (auto simp: subscribed_def same fun_eq_iff)
  show ?thesis
    using assms(1) unfolding router_inv_def router_wf_def same sub look
    by (auto simp: session_after_keeps split: if_splits) (metis option.simps(9) session_after_keeps(2))+
qed

lemma router_inv_new: "router_inv router_new"
  by (simp add: router_inv_def router_new_def router_wf_def subscribed_def)

lemma subscribed_update_clients [simp]: "subscribed (r\<lparr>clients := cs\<rparr>) = subscribed r"
  by (simp add: subscribed_def fun_eq_iff)

lemma router_wf_update_clients [simp]: "router_wf (r\<lparr>clients := cs\<rparr>) = router_wf r"
  by (simp add: router_wf_def)

lemma register_inv:
  assumes "router_inv r" "register_client r s = (r', res)"
  shows "router_inv r'"
  using assms
  by (fastforce simp: register_client_def router_inv_def Let_def lookup_update' split: if_splits)

lemma update_filter_inv:
  assumes "router_inv r" "update_filter r c f = (r', res)"
  shows "router_inv r'"
  using assms
  by (fastforce simp: update_filter_def router_inv_def lookup_update' session_state_def split: if_splits option.splits)

lemma unsubscribe_inv:
  assumes "router_inv r" "unsubscribe r c t = (r', res)"
  shows "router_inv r'"
proof -
  have "res = Inr ()" "clients r' = clients r" "topics_poisoned r' = topics_poisoned r" "clients_poisoned r' = clients_poisoned r"
    using assms by (auto simp: unsubscribe_def router_inv_def split: option.splits)
  then show ?thesis using assms unsubscribe_ok [of r c t r'] by (simp add: router_inv_def) blast
qed

lemma unregister_inv:
  assumes "router_inv r" "unregister_client r c = (r', res)"
  shows "router_inv r'"
proof (cases res)
  case (Inl e)
  then show ?thesis
    using assms by (auto simp: unregister_client_def router_inv_def Let_def split: option.splits)
next
  case (Inr u)
  then have "clients r' = Mapping.delete c (clients r)" "topics_poisoned r' = topics_poisoned r" "clients_poisoned r' = clients_poisoned r"
    using assms by (auto simp: unregister_client_def Let_def split: option.splits if_splits)
  moreover have "Mapping.lookup (Mapping.delete c m) d = (if d = c then None else Mapping.lookup m d)" for m :: "(u32, ClientSession) mapping" and d
    by simp
  ultimately show ?thesis using assms unregister_ok [of r c r'] Inr by (simp add: router_inv_def) blast
qed

lemma subscribe_inv:
  assumes "router_inv r" "subscribe r c t = (r', res)"
  shows "router_inv r'"
proof (cases res)
  case (Inl e)
  then show ?thesis
    using assms by (auto simp: subscribe_def router_inv_def Let_def split: option.splits)
next
  case (Inr u)
  then obtain s where s: "Mapping.lookup (clients r) c = Some s"
      "clients r' = Mapping.update c (set_state s Subscribed) (clients r)"
      "topics_poisoned r' = topics_poisoned r" "clients_poisoned r' = clients_poisoned r"
    using assms by (auto simp: subscribe_def Let_def split: option.splits if_splits)
  moreover have "session_id (set_state s st) = session_id s" for st by (simp add: set_state_def)
  ultimately show ?thesis
    using assms subscribe_ok [of r c t r'] Inr
    by (fastforce simp: router_inv_def lookup_update')
qed

lemma router_inv_reachable: "router_reachable r \<Longrightarrow> router_inv r"
proof (induction rule: router_reachable.induct)
  case (reach_step r r')
  note inv = reach_step.IH
  then have wf: "router_wf r" "\<not> topics_poisoned r" "\<not> clients_poisoned r" by (simp_all add: router_inv_def)
  from reach_step.hyps(2) show ?case
  proof (cases rule: router_step.cases)
    case (step_dispatch_bbo bbo now_ms m out)
    then show ?thesis using dispatch_spec_inv [OF inv] dispatch_bbo_spec [OF wf] by metis
  next
    case (step_dispatch_trade trade notional now_ms m out)
    then show ?thesis using dispatch_spec_inv [OF inv] dispatch_trade_spec [OF wf] by metis
  qed (rule register_inv [OF inv] unregister_inv [OF inv] subscribe_inv [OF inv] unsubscribe_inv [OF inv]
      update_filter_inv [OF inv], assumption)+
qed (rule router_inv_new)

section \<open>Properties\<close>



text \<open>C1: Dispatching a quote delivers to exactly the clients subscribed to its exact or default topic
  that are registered, active, not excluded by their spread filter and granted a token by their own
  limiter, once each and in ascending order of client id, the SBE frame or the JSON text of this quote
  according to the client's protocol; the metrics count exactly these outcomes, and only the visited
  clients' limiters and counters change.\<close>

theorem dispatch_bbo_exact:
  assumes "router_reachable r"
  shows "dispatch_spec (bbo_rejects bbo)
    (\<lambda>p. case p of WireProtocol.Sbe \<Rightarrow> bbo_wire bbo | WireProtocol.Json \<Rightarrow> bbo_json_text bbo)
    now_ms (subscribers r (bbo_topics bbo)) r (dispatch_bbo r bbo now_ms)"
  using router_inv_reachable [OF assms] by (intro dispatch_bbo_spec) (simp_all add: router_inv_def)

text \<open>A router with one subscribed client, for the witnesses.\<close>

definition demo_router :: InvertedTopicRouter where
  "demo_router = fst (subscribe (fst (register_client router_new (session_new 7 WireProtocol.Sbe 100 10 0))) 7
     (topic_new 0 0 STREAM_TYPE_BBO 0))"

lemma demo_router_reachable: "router_reachable demo_router"
  unfolding demo_router_def by (metis reach_new reach_step step_register step_subscribe prod.collapse)

lemma demo_router_lookup:
  "Mapping.lookup (clients demo_router) c = (if c = 7 then Some (set_state (session_new 7 WireProtocol.Sbe 100 10 0) Subscribed) else None)"
  "subscribed demo_router t c \<longleftrightarrow> t = topic_new 0 0 STREAM_TYPE_BBO 0 \<and> c = 7"
  using bm.contains_ins [OF bm.inv_new, of 7 c]
  by (auto simp: demo_router_def subscribe_def register_client_def router_new_def session_new_def subscribed_def
      lookup_update' MAX_CLIENT_CAPACITY_def DEFAULT_BITMAP_WORDS_def)

lemma demo_router_subscribers: "subscribers demo_router (bbo_topics bbo_default) = [7]"
proof (rule sorted_distinct_set_unique)
  have "(7 :: u32) \<in> of_nat ` {0..<1024}" by (rule image_eqI [of _ _ 7]) simp_all
  then show "set (subscribers demo_router (bbo_topics bbo_default)) = set [7]"
    by (auto simp: subscribers_def bbo_topics_def demo_router_lookup bbo_default_def)
qed (use sorted_subscribers in \<open>auto simp: strict_sorted_iff\<close>)

lemma demo_router_grant: "snd (try_consume (bucket_new 100 10 0) 1 1000)"
  by code_simp

theorem dispatch_bbo_exact_witness:
  "snd (snd (dispatch_bbo demo_router bbo_default 1000)) = [(7, WireProtocol.Sbe, bbo_wire bbo_default)]"
proof -
  have "client_verdict (bbo_rejects bbo_default) 1000 (Mapping.lookup (clients demo_router) 7) = Deliver WireProtocol.Sbe"
    using demo_router_grant
    by (simp add: client_verdict_def demo_router_lookup bbo_rejects_def)
       (simp add: session_new_def set_state_def filter_default_def)
  then show ?thesis
    using dispatch_bbo_exact [OF demo_router_reachable, of bbo_default 1000]
    by (auto simp: dispatch_spec_def Let_def demo_router_subscribers spec_sink_def List.map_filter_def split: prod.splits)
qed

text \<open>The same for trades, with the notional filter: a client whose minimum notional is above the
  trade's, or when either is not a number, is filtered out.\<close>

theorem dispatch_trade_exact:
  assumes "router_reachable r"
  shows "dispatch_spec (\<lambda>f. \<not> matches_trade f notional)
    (\<lambda>p. case p of WireProtocol.Sbe \<Rightarrow> trade_wire trade | WireProtocol.Json \<Rightarrow> trade_json_text trade)
    now_ms (subscribers r (trade_topics trade)) r (dispatch_trade r trade notional now_ms)"
  using router_inv_reachable [OF assms] by (intro dispatch_trade_spec) (simp_all add: router_inv_def)

theorem dispatch_trade_exact_witness:
  "dispatch_spec (\<lambda>f. \<not> matches_trade f 5)
    (\<lambda>p. case p of WireProtocol.Sbe \<Rightarrow> trade_wire trade_default | WireProtocol.Json \<Rightarrow> trade_json_text trade_default)
    1000 (subscribers router_new (trade_topics trade_default)) router_new (dispatch_trade router_new trade_default 5 1000)"
  by (rule dispatch_trade_exact [OF reach_new])

lemma spec_metrics_sum:
  assumes "\<forall>c\<in>set cs. v c \<noteq> Absent \<and> v c \<noteq> Inactive"
  shows "matched_clients (spec_metrics v psize cs) = delivered_clients (spec_metrics v psize cs)
    + filtered_clients (spec_metrics v psize cs) + rate_limited_clients (spec_metrics v psize cs)"
  using assms
proof (induction cs rule: rev_induct)
  case (snoc c cs)
  then show ?case
    by (cases "v c") (auto simp: spec_metrics_snoc bump_def Let_def split: WireProtocol.split)
qed (simp add: spec_metrics_def)

lemma spec_metrics_sink:
  "delivered_clients (spec_metrics v (\<lambda>p. length (payload p)) cs) = length (spec_sink v payload cs) \<and>
   sbe_bytes_dispatched (spec_metrics v (\<lambda>p. length (payload p)) cs) + json_bytes_dispatched (spec_metrics v (\<lambda>p. length (payload p)) cs)
     = sum_list (map (\<lambda>(c, p, bs). length bs) (spec_sink v payload cs))"
proof (induction cs rule: rev_induct)
  case (snoc c cs)
  then show ?case
    by (cases "v c") (auto simp: spec_metrics_snoc spec_sink_snoc bump_def Let_def split: WireProtocol.split)
qed (simp add: spec_metrics_def spec_sink_def)

lemma spec_sink_ids: "map fst (spec_sink v payload cs) = filter (\<lambda>c. \<exists>p. v c = Deliver p) cs"
proof (induction cs rule: rev_induct)
  case (snoc c cs)
  then show ?case by (auto simp: spec_sink_snoc split: verdict.splits)
qed (simp add: spec_sink_def)

text \<open>The dispatch metrics account for every matched client of a reachable router: matched is
  delivered plus filtered plus rate-limited, delivered is the number of sink calls, the two byte counters
  add up to the bytes handed to the sink, and the sink is called for strictly increasing client ids.\<close>

theorem dispatch_bbo_accounting:
  assumes "router_reachable r" and "dispatch_bbo r bbo now_ms = (r', m, out)"
  shows "matched_clients m = delivered_clients m + filtered_clients m + rate_limited_clients m \<and>
    delivered_clients m = length out \<and>
    sbe_bytes_dispatched m + json_bytes_dispatched m = sum_list (map (\<lambda>(c, p, bs). length bs) out) \<and>
    sorted_wrt (<) (map fst out)"
proof -
  let ?v = "\<lambda>c. client_verdict (bbo_rejects bbo) now_ms (Mapping.lookup (clients r) c)"
  let ?pay = "\<lambda>p. case p of WireProtocol.Sbe \<Rightarrow> bbo_wire bbo | WireProtocol.Json \<Rightarrow> bbo_json_text bbo"
  let ?cs = "subscribers r (bbo_topics bbo)"
  have inv: "router_inv r" using assms(1) by (rule router_inv_reachable)
  have "dispatch_spec (bbo_rejects bbo) ?pay now_ms ?cs r (dispatch_bbo r bbo now_ms)"
    using inv by (intro dispatch_bbo_spec) (simp_all add: router_inv_def)
  then have m: "m = spec_metrics ?v (\<lambda>p. length (?pay p)) ?cs" and out: "out = spec_sink ?v ?pay ?cs"
    using assms(2) by (simp_all add: dispatch_spec_def Let_def)
  have live: "?v c \<noteq> Absent \<and> ?v c \<noteq> Inactive" if "c \<in> set ?cs" for c
  proof -
    from that obtain t where "subscribed r t c" by (auto simp: subscribers_def list_ex_iff)
    then obtain s where "Mapping.lookup (clients r) c = Some s" "session_state s = Subscribed"
      using inv unfolding router_inv_def by blast
    then show ?thesis by (simp add: client_verdict_def is_active_def)
  qed
  show ?thesis
    using spec_metrics_sum [of ?cs ?v "\<lambda>p. length (?pay p)"] live spec_metrics_sink [of ?v ?pay ?cs]
      spec_sink_ids [of ?v ?pay ?cs] sorted_subscribers [of r "bbo_topics bbo"]
    by (simp add: m out sorted_wrt_filter)
qed

theorem dispatch_bbo_accounting_witness:
  "\<exists>r' m out. dispatch_bbo demo_router bbo_default 1000 = (r', m, out) \<and>
     matched_clients m = delivered_clients m + filtered_clients m + rate_limited_clients m \<and> sorted_wrt (<) (map fst out)"
  using dispatch_bbo_accounting [OF demo_router_reachable] by (metis prod_cases3)

end
