(* ===== verification/Order_Book.thy ===== *)
theory Order_Book
  imports Rust_Prelude
begin

text \<open>
  The flat-array price ladder of \<open>src/crates/core-engine/src/lib.rs\<close>: 2048 levels a side, indexed by the
  distance of a price from the base price in ticks, with cached best indices. The theory shows when the
  cached indices are right, and what happens to prices below the base.
\<close>

section \<open>State and operations\<close>

definition PRICE_LEVELS_COUNT :: nat where "PRICE_LEVELS_COUNT = 2048"
definition TICK_SIZE :: i64 where "TICK_SIZE = 100000"

record PriceLevel =
  level_price :: i64
  level_quantity :: u64
  order_count :: u32
  last_update_ts :: u64

definition level_default :: PriceLevel where
  "level_default = \<lparr>level_price = 0, level_quantity = 0, order_count = 0, last_update_ts = 0\<rparr>"

record ContiguousOrderBook =
  bids :: "PriceLevel list"
  asks :: "PriceLevel list"
  best_bid_idx :: nat
  best_ask_idx :: nat
  base_price :: i64

definition book_new :: "i64 \<Rightarrow> ContiguousOrderBook" where
  "book_new base =
     \<lparr>bids = replicate PRICE_LEVELS_COUNT level_default, asks = replicate PRICE_LEVELS_COUNT level_default,
      best_bid_idx = 0, best_ask_idx = PRICE_LEVELS_COUNT - 1, base_price = base\<rparr>"

text \<open>The common head of both updates: the level a price belongs to, if it is on the ladder.\<close>

definition level_index :: "i64 \<Rightarrow> i64 \<Rightarrow> nat option" where
  "level_index base price =
     (let diff = (if sint price \<ge> sint base then sdivide (price - base) TICK_SIZE
                  else sdivide (base - price) TICK_SIZE)
      in if 0 \<le> sint diff \<and> unat diff < PRICE_LEVELS_COUNT
         then Some (min (unat diff) (PRICE_LEVELS_COUNT - 1)) else None)"

text \<open>The two scans for a new best level.\<close>

definition scan_bid :: "nat \<times> i64 \<Rightarrow> nat \<times> PriceLevel \<Rightarrow> nat \<times> i64" where
  "scan_bid = (\<lambda>(best_idx, best_price) (i, level).
     if level_quantity level > 0 \<and> sint (level_price level) > sint best_price
     then (i, level_price level) else (best_idx, best_price))"

definition scan_ask :: "nat \<times> i64 \<Rightarrow> nat \<times> PriceLevel \<Rightarrow> nat \<times> i64" where
  "scan_ask = (\<lambda>(best_idx, best_price) (i, level).
     if level_quantity level > 0 \<and> sint (level_price level) < sint best_price
     then (i, level_price level) else (best_idx, best_price))"

definition recalculate_best_bid :: "ContiguousOrderBook \<Rightarrow> ContiguousOrderBook" where
  "recalculate_best_bid b = b\<lparr>best_bid_idx := fst (foldl scan_bid (0, 0) (enumerate 0 (bids b)))\<rparr>"

definition recalculate_best_ask :: "ContiguousOrderBook \<Rightarrow> ContiguousOrderBook" where
  "recalculate_best_ask b =
     b\<lparr>best_ask_idx := fst (foldl scan_ask (0, 0x7FFFFFFFFFFFFFFF) (enumerate 0 (asks b)))\<rparr>"

definition update_bid :: "ContiguousOrderBook \<Rightarrow> i64 \<Rightarrow> u64 \<Rightarrow> u32 \<Rightarrow> u64 \<Rightarrow> ContiguousOrderBook" where
  "update_bid b price quantity cnt ts =
     (case level_index (base_price b) price of
        None \<Rightarrow> b
      | Some idx \<Rightarrow>
          let b = b\<lparr>bids := (bids b)[idx := \<lparr>level_price = price, level_quantity = quantity,
                                          order_count = cnt, last_update_ts = ts\<rparr>]\<rparr>;
              best = bids b ! best_bid_idx b
          in if quantity > 0 \<and> (level_quantity best = 0 \<or> sint price > sint (level_price best))
             then b\<lparr>best_bid_idx := idx\<rparr>
             else if quantity = 0 \<and> idx = best_bid_idx b then recalculate_best_bid b else b)"

definition update_ask :: "ContiguousOrderBook \<Rightarrow> i64 \<Rightarrow> u64 \<Rightarrow> u32 \<Rightarrow> u64 \<Rightarrow> ContiguousOrderBook" where
  "update_ask b price quantity cnt ts =
     (case level_index (base_price b) price of
        None \<Rightarrow> b
      | Some idx \<Rightarrow>
          let b = b\<lparr>asks := (asks b)[idx := \<lparr>level_price = price, level_quantity = quantity,
                                          order_count = cnt, last_update_ts = ts\<rparr>]\<rparr>;
              best = asks b ! best_ask_idx b
          in if quantity > 0 \<and> (level_quantity best = 0 \<or> sint price < sint (level_price best))
             then b\<lparr>best_ask_idx := idx\<rparr>
             else if quantity = 0 \<and> idx = best_ask_idx b then recalculate_best_ask b else b)"

definition bbo_bid :: "ContiguousOrderBook \<Rightarrow> PriceLevel option" where
  "bbo_bid b = (let level = bids b ! best_bid_idx b in if level_quantity level > 0 then Some level else None)"

definition bbo_ask :: "ContiguousOrderBook \<Rightarrow> PriceLevel option" where
  "bbo_ask b = (let level = asks b ! best_ask_idx b in if level_quantity level > 0 then Some level else None)"

section \<open>Levels of prices above the base\<close>

definition bucket :: "i64 \<Rightarrow> i64 \<Rightarrow> nat" where
  "bucket base price = nat ((sint price - sint base) div 100000)"

lemma sint_diff_nonneg:
  fixes p q :: i64
  assumes "0 < sint q" "sint q \<le> sint p"
  shows "sint (p - q) = sint p - sint q"
proof -
  have "sint p < 2 ^ 63" using sint_less [of p] by simp
  then have "sint (of_int (sint p - sint q) :: i64) = sint p - sint q"
    using assms by (intro sint_of_int_range) simp_all
  then show ?thesis by simp
qed

lemma sint_sdivide_tick:
  fixes d :: i64
  assumes "0 \<le> sint d"
  shows "sint (sdivide d TICK_SIZE) = sint d div 100000"
proof -
  have "sint d < 2 ^ 63" using sint_less [of d] by simp
  then have "sint d div 100000 < 2 ^ 63" using assms by linarith
  moreover have "sint d sdiv 100000 = sint d div 100000"
    using assms by (simp add: signed_divide_int_def sgn_if)
  ultimately show ?thesis
    using assms by (simp add: sdivide_def TICK_SIZE_def sint_of_int_range pos_imp_zdiv_nonneg_iff)
qed

lemma level_index_above:
  assumes "0 < sint base" "sint base \<le> sint price"
  shows "level_index base price = (if bucket base price < PRICE_LEVELS_COUNT then Some (bucket base price) else None)"
proof -
  have "sint (price - base) = sint price - sint base" using sint_diff_nonneg assms by blast
  then have d: "sint (sdivide (price - base) TICK_SIZE) = (sint price - sint base) div 100000"
    using assms by (simp add: sint_sdivide_tick)
  then have nn: "0 \<le> sint (sdivide (price - base) TICK_SIZE)" using assms by simp
  with d have "unat (sdivide (price - base) TICK_SIZE) = bucket base price"
    by (simp add: unat_of_sint_nonneg bucket_def)
  then show ?thesis using assms nn by (auto simp: level_index_def Let_def PRICE_LEVELS_COUNT_def)
qed

text \<open>A side of the ladder on which every resting level sits in the bucket of its own price.\<close>

definition ladder :: "i64 \<Rightarrow> PriceLevel list \<Rightarrow> bool" where
  "ladder base ls \<longleftrightarrow> length ls = PRICE_LEVELS_COUNT \<and>
     (\<forall>i<PRICE_LEVELS_COUNT. level_quantity (ls ! i) > 0 \<longrightarrow>
        sint base \<le> sint (level_price (ls ! i)) \<and> bucket base (level_price (ls ! i)) = i)"

lemma bucket_bounds:
  "sint base \<le> sint p \<Longrightarrow> sint base + int (bucket base p) * 100000 \<le> sint p \<and> sint p < sint base + (int (bucket base p) + 1) * 100000"
proof -
  assume "sint base \<le> sint p"
  then have b: "int (bucket base p) = (sint p - sint base) div 100000"
    by (simp add: bucket_def pos_imp_zdiv_nonneg_iff)
  define q m where "q = (sint p - sint base) div 100000" and "m = (sint p - sint base) mod 100000"
  have "sint p - sint base = q * 100000 + m" "0 \<le> m" "m < 100000" by (simp_all add: q_def m_def)
  then have "sint base + q * 100000 \<le> sint p" "sint p < sint base + (q * 100000 + 100000)" by linarith+
  then show ?thesis unfolding b q_def [symmetric] by (simp add: distrib_right)
qed

lemma ladder_mono:
  assumes "ladder base ls" "i < j" "j < PRICE_LEVELS_COUNT"
    and "level_quantity (ls ! i) > 0" "level_quantity (ls ! j) > 0"
  shows "sint (level_price (ls ! i)) < sint (level_price (ls ! j))"
proof -
  have "sint (level_price (ls ! i)) < sint base + (int i + 1) * 100000"
    using assms bucket_bounds [of base "level_price (ls ! i)"] by (simp add: ladder_def)
  also have "\<dots> \<le> sint base + int j * 100000" using assms(2) by simp
  also have "\<dots> \<le> sint (level_price (ls ! j))"
    using assms bucket_bounds [of base "level_price (ls ! j)"] by (simp add: ladder_def)
  finally show ?thesis .
qed

lemma ladder_update:
  assumes "ladder base ls" "sint base \<le> sint p" "bucket base p < PRICE_LEVELS_COUNT"
  shows "ladder base (ls[bucket base p := \<lparr>level_price = p, level_quantity = q, order_count = c, last_update_ts = t\<rparr>])"
  using assms by (auto simp: ladder_def nth_list_update)

lemma ladder_new: "ladder base (replicate PRICE_LEVELS_COUNT level_default)"
  by (simp add: ladder_def level_default_def)

section \<open>The cached best indices\<close>

definition best_bid_ok :: "PriceLevel list \<Rightarrow> nat \<Rightarrow> bool" where
  "best_bid_ok ls best \<longleftrightarrow> best < PRICE_LEVELS_COUNT \<and>
     (\<forall>i<PRICE_LEVELS_COUNT. level_quantity (ls ! i) > 0 \<longrightarrow> i \<le> best \<and> level_quantity (ls ! best) > 0)"

definition best_ask_ok :: "PriceLevel list \<Rightarrow> nat \<Rightarrow> bool" where
  "best_ask_ok ls best \<longleftrightarrow> best < PRICE_LEVELS_COUNT \<and>
     (\<forall>i<PRICE_LEVELS_COUNT. level_quantity (ls ! i) > 0 \<longrightarrow> best \<le> i \<and> level_quantity (ls ! best) > 0)"

lemma enumerate_take_Suc:
  "k < length ls \<Longrightarrow> enumerate 0 (take (Suc k) ls) = enumerate 0 (take k ls) @ [(k, ls ! k)]"
  by (simp add: take_Suc_conv_app_nth enumerate_append_eq)

lemma scan_bid_prefix:
  assumes "ladder base ls" "0 < sint base" "k \<le> PRICE_LEVELS_COUNT"
    and "foldl scan_bid (0, 0) (enumerate 0 (take k ls)) = (bi, bp)"
  shows "(bi < k \<and> level_quantity (ls ! bi) > 0 \<and> bp = level_price (ls ! bi) \<or> bi = 0 \<and> bp = 0 \<and> (\<forall>i<k. level_quantity (ls ! i) = 0))
    \<and> (\<forall>i<k. level_quantity (ls ! i) > 0 \<longrightarrow> i \<le> bi)"
  using assms(3,4)
proof (induction k arbitrary: bi bp)
  case (Suc k)
  have len: "k < length ls" using Suc.prems(1) assms(1) by (simp add: ladder_def)
  obtain ci cp where c: "foldl scan_bid (0, 0) (enumerate 0 (take k ls)) = (ci, cp)" by fastforce
  have IH: "(ci < k \<and> level_quantity (ls ! ci) > 0 \<and> cp = level_price (ls ! ci) \<or> ci = 0 \<and> cp = 0 \<and> (\<forall>i<k. level_quantity (ls ! i) = 0))
      \<and> (\<forall>i<k. level_quantity (ls ! i) > 0 \<longrightarrow> i \<le> ci)"
    using Suc.IH [OF _ c] Suc.prems(1) by simp
  have step: "(bi, bp) = scan_bid (ci, cp) (k, ls ! k)"
    using Suc.prems(2) by (simp add: enumerate_take_Suc [OF len] c)
  show ?case
  proof (cases "level_quantity (ls ! k) > 0")
    case True
    then have "sint base \<le> sint (level_price (ls ! k))" using assms(1) Suc.prems(1) by (simp add: ladder_def)
    then have "sint cp < sint (level_price (ls ! k))"
      using IH True assms(2) ladder_mono [OF assms(1), of ci k] Suc.prems(1) by auto
    then have "bi = k" "bp = level_price (ls ! k)" using step True by (simp_all add: scan_bid_def)
    then show ?thesis using True by (auto simp: less_Suc_eq)
  next
    case False
    then have "(bi, bp) = (ci, cp)" "level_quantity (ls ! k) = 0" using step by (simp_all add: scan_bid_def word_gt_0)
    then show ?thesis using IH by (auto simp: less_Suc_eq)
  qed
qed simp

lemma scan_ask_prefix:
  assumes "ladder base ls" "\<forall>i<PRICE_LEVELS_COUNT. level_quantity (ls ! i) > 0 \<longrightarrow> sint (level_price (ls ! i)) < 2 ^ 63 - 1"
    and "k \<le> PRICE_LEVELS_COUNT" "foldl scan_ask (0, 0x7FFFFFFFFFFFFFFF) (enumerate 0 (take k ls)) = (bi, bp)"
  shows "(bi < k \<and> level_quantity (ls ! bi) > 0 \<and> bp = level_price (ls ! bi) \<or>
      bi = 0 \<and> bp = 0x7FFFFFFFFFFFFFFF \<and> (\<forall>i<k. level_quantity (ls ! i) = 0))
    \<and> (\<forall>i<k. level_quantity (ls ! i) > 0 \<longrightarrow> bi \<le> i)"
  using assms(3,4)
proof (induction k arbitrary: bi bp)
  case (Suc k)
  have len: "k < length ls" using Suc.prems(1) assms(1) by (simp add: ladder_def)
  obtain ci cp where c: "foldl scan_ask (0, 0x7FFFFFFFFFFFFFFF) (enumerate 0 (take k ls)) = (ci, cp)" by fastforce
  have IH: "(ci < k \<and> level_quantity (ls ! ci) > 0 \<and> cp = level_price (ls ! ci) \<or>
        ci = 0 \<and> cp = 0x7FFFFFFFFFFFFFFF \<and> (\<forall>i<k. level_quantity (ls ! i) = 0))
      \<and> (\<forall>i<k. level_quantity (ls ! i) > 0 \<longrightarrow> ci \<le> i)"
    using Suc.IH [OF _ c] Suc.prems(1) by simp
  have step: "(bi, bp) = scan_ask (ci, cp) (k, ls ! k)"
    using Suc.prems(2) by (simp add: enumerate_take_Suc [OF len] c)
  have max: "sint (0x7FFFFFFFFFFFFFFF :: i64) = 2 ^ 63 - 1" by simp
  show ?case
  proof (cases "level_quantity (ls ! k) > 0")
    case True
    then have lt: "sint (level_price (ls ! k)) < 2 ^ 63 - 1" using assms(2) Suc.prems(1) by simp
    from IH consider (some) "ci < k" "level_quantity (ls ! ci) > 0" "cp = level_price (ls ! ci)" 
      | (none) "cp = 0x7FFFFFFFFFFFFFFF" "\<forall>i<k. level_quantity (ls ! i) = 0" by blast
    then show ?thesis
    proof cases
      case some
      then have "sint cp < sint (level_price (ls ! k))"
        using True ladder_mono [OF assms(1), of ci k] Suc.prems(1) by simp
      then have "(bi, bp) = (ci, cp)" using step by (simp add: scan_ask_def)
      then show ?thesis using IH some by (auto simp: less_Suc_eq)
    next
      case none
      then have "bi = k" "bp = level_price (ls ! k)" using step True lt max by (simp_all add: scan_ask_def)
      then show ?thesis using True none by (auto simp: less_Suc_eq)
    qed
  next
    case False
    then have "(bi, bp) = (ci, cp)" "level_quantity (ls ! k) = 0" using step by (simp_all add: scan_ask_def word_gt_0)
    then show ?thesis using IH by (auto simp: less_Suc_eq)
  qed
qed simp

lemma recalculate_best_bid_ok:
  assumes "ladder base (bids b)" "0 < sint base"
  shows "best_bid_ok (bids b) (best_bid_idx (recalculate_best_bid b))"
proof -
  obtain bi bp where f: "foldl scan_bid (0, 0) (enumerate 0 (bids b)) = (bi, bp)" by fastforce
  have "take PRICE_LEVELS_COUNT (bids b) = bids b" using assms(1) by (simp add: ladder_def)
  from scan_bid_prefix [OF assms order_refl, unfolded this, OF f] f show ?thesis
    by (auto simp: best_bid_ok_def recalculate_best_bid_def PRICE_LEVELS_COUNT_def)
qed

lemma recalculate_best_ask_ok:
  assumes "ladder base (asks b)"
    "\<forall>i<PRICE_LEVELS_COUNT. level_quantity (asks b ! i) > 0 \<longrightarrow> sint (level_price (asks b ! i)) < 2 ^ 63 - 1"
  shows "best_ask_ok (asks b) (best_ask_idx (recalculate_best_ask b))"
proof -
  obtain bi bp where f: "foldl scan_ask (0, 0x7FFFFFFFFFFFFFFF) (enumerate 0 (asks b)) = (bi, bp)" by fastforce
  have "take PRICE_LEVELS_COUNT (asks b) = asks b" using assms(1) by (simp add: ladder_def)
  from scan_ask_prefix [OF assms order_refl, unfolded this, OF f] f show ?thesis
    by (auto simp: best_ask_ok_def recalculate_best_ask_def PRICE_LEVELS_COUNT_def)
qed

section \<open>The book\<close>

definition book_inv :: "ContiguousOrderBook \<Rightarrow> bool" where
  "book_inv b \<longleftrightarrow> ladder (base_price b) (bids b) \<and> ladder (base_price b) (asks b) \<and>
     best_bid_ok (bids b) (best_bid_idx b) \<and> best_ask_ok (asks b) (best_ask_idx b) \<and>
     (\<forall>i<PRICE_LEVELS_COUNT. level_quantity (asks b ! i) > 0 \<longrightarrow> sint (level_price (asks b ! i)) < 2 ^ 63 - 1)"

lemma ladder_best_bid_price:
  assumes "ladder base ls" "best_bid_ok ls best" "i < PRICE_LEVELS_COUNT" "level_quantity (ls ! i) > 0"
  shows "sint (level_price (ls ! i)) \<le> sint (level_price (ls ! best)) \<and> level_quantity (ls ! best) > 0"
proof -
  have "i \<le> best" "level_quantity (ls ! best) > 0" "best < PRICE_LEVELS_COUNT" using assms by (auto simp: best_bid_ok_def)
  then show ?thesis using ladder_mono [OF assms(1), of i best] assms(4) by (cases "i = best") auto
qed

lemma ladder_best_ask_price:
  assumes "ladder base ls" "best_ask_ok ls best" "i < PRICE_LEVELS_COUNT" "level_quantity (ls ! i) > 0"
  shows "sint (level_price (ls ! best)) \<le> sint (level_price (ls ! i)) \<and> level_quantity (ls ! best) > 0"
proof -
  have "best \<le> i" "level_quantity (ls ! best) > 0" using assms by (auto simp: best_ask_ok_def)
  then show ?thesis using ladder_mono [OF assms(1), of best i] assms(3,4) by (cases "i = best") auto
qed

lemma update_bid_inv:
  assumes inv: "book_inv b" and base: "0 < sint (base_price b)" "sint (base_price b) \<le> sint p"
  shows "book_inv (update_bid b p q c t) \<and> base_price (update_bid b p q c t) = base_price b"
proof (cases "bucket (base_price b) p < PRICE_LEVELS_COUNT")
  case False
  then show ?thesis using inv level_index_above [OF base] by (simp add: update_bid_def)
next
  case True
  let ?i = "bucket (base_price b) p" and ?l = "\<lparr>level_price = p, level_quantity = q, order_count = c, last_update_ts = t\<rparr>"
  let ?b = "b\<lparr>bids := (bids b)[?i := ?l]\<rparr>"
  have lad: "ladder (base_price b) (bids ?b)" and len: "length (bids b) = PRICE_LEVELS_COUNT"
    using inv ladder_update [OF _ base(2) True] by (simp_all add: book_inv_def ladder_def)
  have best: "best_bid_ok (bids b) (best_bid_idx b)" using inv by (simp add: book_inv_def)
  have upd: "update_bid b p q c t =
      (if q > 0 \<and> (level_quantity (bids ?b ! best_bid_idx b) = 0 \<or> sint (level_price (bids ?b ! best_bid_idx b)) < sint p)
       then ?b\<lparr>best_bid_idx := ?i\<rparr>
       else if q = 0 \<and> ?i = best_bid_idx b then recalculate_best_bid ?b else ?b)"
    using True level_index_above [OF base] unfolding update_bid_def Let_def by auto
  consider (new) "q > 0" "level_quantity (bids ?b ! best_bid_idx b) = 0 \<or> sint (level_price (bids ?b ! best_bid_idx b)) < sint p"
    | (recalc) "q = 0" "?i = best_bid_idx b"
    | (low) "q > 0" "level_quantity (bids ?b ! best_bid_idx b) > 0" "sint p \<le> sint (level_price (bids ?b ! best_bid_idx b))"
    | (gone) "q = 0" "?i \<noteq> best_bid_idx b"
    by (metis linorder_not_le word_gt_0)
  then have "best_bid_ok (bids (update_bid b p q c t)) (best_bid_idx (update_bid b p q c t))"
  proof cases
    case new
    have "j \<le> ?i" if j: "j < PRICE_LEVELS_COUNT" "level_quantity (bids ?b ! j) > 0" for j
    proof (rule ccontr)
      assume "\<not> j \<le> ?i"
      then have ji: "?i < j" by simp
      then have "level_quantity (bids b ! j) > 0" using j by simp
      then have "j \<le> best_bid_idx b" "level_quantity (bids b ! best_bid_idx b) > 0" using best j by (auto simp: best_bid_ok_def)
      moreover from this ji have "bids ?b ! best_bid_idx b = bids b ! best_bid_idx b" by simp
      ultimately have "sint (level_price (bids ?b ! best_bid_idx b)) < sint (level_price (bids ?b ! ?i))"
        "sint (level_price (bids ?b ! ?i)) < sint (level_price (bids ?b ! best_bid_idx b))"
        using new True len ladder_mono [OF lad, of ?i "best_bid_idx b"] best ji by (auto simp: best_bid_ok_def)
      then show False by simp
    qed
    then show ?thesis using upd new True len by (simp add: best_bid_ok_def)
  next
    case recalc
    have "best_bid_ok (bids ?b) (best_bid_idx (recalculate_best_bid ?b))"
      using lad base by (intro recalculate_best_bid_ok [where base = "base_price b"]) simp_all
    then show ?thesis using upd recalc by (simp add: recalculate_best_bid_def)
  next
    case low
    have "?i \<le> best_bid_idx b"
      using low True len ladder_mono [OF lad, of "best_bid_idx b" ?i] by (cases "best_bid_idx b < ?i") auto
    then have "best_bid_ok (bids ?b) (best_bid_idx b)"
      using best low True len by (auto simp: best_bid_ok_def nth_list_update)
    then show ?thesis using upd low by auto
  next
    case gone
    then show ?thesis
      using upd best True len by (auto simp: best_bid_ok_def nth_list_update split: if_splits)
  qed
  moreover have "asks (update_bid b p q c t) = asks b" "best_ask_idx (update_bid b p q c t) = best_ask_idx b"
    "base_price (update_bid b p q c t) = base_price b" "bids (update_bid b p q c t) = bids ?b"
    unfolding upd by (simp_all add: recalculate_best_bid_def)
  ultimately show ?thesis using inv lad by (simp add: book_inv_def)
qed

lemma update_ask_inv:
  assumes inv: "book_inv b" and base: "0 < sint (base_price b)" "sint (base_price b) \<le> sint p" and max: "sint p < 2 ^ 63 - 1"
  shows "book_inv (update_ask b p q c t) \<and> base_price (update_ask b p q c t) = base_price b"
proof (cases "bucket (base_price b) p < PRICE_LEVELS_COUNT")
  case False
  then show ?thesis using inv level_index_above [OF base] by (simp add: update_ask_def)
next
  case True
  let ?i = "bucket (base_price b) p" and ?l = "\<lparr>level_price = p, level_quantity = q, order_count = c, last_update_ts = t\<rparr>"
  let ?b = "b\<lparr>asks := (asks b)[?i := ?l]\<rparr>"
  have lad: "ladder (base_price b) (asks ?b)" and len: "length (asks b) = PRICE_LEVELS_COUNT"
    using inv ladder_update [OF _ base(2) True] by (simp_all add: book_inv_def ladder_def)
  have bound: "\<forall>i<PRICE_LEVELS_COUNT. level_quantity (asks ?b ! i) > 0 \<longrightarrow> sint (level_price (asks ?b ! i)) < 2 ^ 63 - 1"
    using inv max len True by (auto simp: book_inv_def nth_list_update split: if_splits)
  have best: "best_ask_ok (asks b) (best_ask_idx b)" using inv by (simp add: book_inv_def)
  have upd: "update_ask b p q c t =
      (if q > 0 \<and> (level_quantity (asks ?b ! best_ask_idx b) = 0 \<or> sint p < sint (level_price (asks ?b ! best_ask_idx b)))
       then ?b\<lparr>best_ask_idx := ?i\<rparr>
       else if q = 0 \<and> ?i = best_ask_idx b then recalculate_best_ask ?b else ?b)"
    using True level_index_above [OF base] unfolding update_ask_def Let_def by auto
  consider (new) "q > 0" "level_quantity (asks ?b ! best_ask_idx b) = 0 \<or> sint p < sint (level_price (asks ?b ! best_ask_idx b))"
    | (recalc) "q = 0" "?i = best_ask_idx b"
    | (high) "q > 0" "level_quantity (asks ?b ! best_ask_idx b) > 0" "sint (level_price (asks ?b ! best_ask_idx b)) \<le> sint p"
    | (gone) "q = 0" "?i \<noteq> best_ask_idx b"
    by (metis linorder_not_le word_gt_0)
  then have "best_ask_ok (asks (update_ask b p q c t)) (best_ask_idx (update_ask b p q c t))"
  proof cases
    case new
    have "?i \<le> j" if j: "j < PRICE_LEVELS_COUNT" "level_quantity (asks ?b ! j) > 0" for j
    proof (rule ccontr)
      assume "\<not> ?i \<le> j"
      then have ji: "j < ?i" by simp
      then have "level_quantity (asks b ! j) > 0" using j by simp
      then have "best_ask_idx b \<le> j" "level_quantity (asks b ! best_ask_idx b) > 0" using best j by (auto simp: best_ask_ok_def)
      moreover from this ji have "asks ?b ! best_ask_idx b = asks b ! best_ask_idx b" by simp
      ultimately have "sint (level_price (asks ?b ! ?i)) < sint (level_price (asks ?b ! best_ask_idx b))"
        "sint (level_price (asks ?b ! best_ask_idx b)) < sint (level_price (asks ?b ! ?i))"
        using new True len ladder_mono [OF lad, of "best_ask_idx b" ?i] ji by auto
      then show False by simp
    qed
    then show ?thesis using upd new True len by (simp add: best_ask_ok_def)
  next
    case recalc
    have "best_ask_ok (asks ?b) (best_ask_idx (recalculate_best_ask ?b))"
      using lad bound by (intro recalculate_best_ask_ok [where base = "base_price b"]) simp_all
    then show ?thesis using upd recalc by (simp add: recalculate_best_ask_def)
  next
    case high
    have "best_ask_idx b \<le> ?i"
      using high True len best ladder_mono [OF lad, of ?i "best_ask_idx b"]
      by (cases "?i < best_ask_idx b") (auto simp: best_ask_ok_def)
    then have "best_ask_ok (asks ?b) (best_ask_idx b)"
      using best high True len by (auto simp: best_ask_ok_def nth_list_update)
    then show ?thesis using upd high by auto
  next
    case gone
    then show ?thesis
      using upd best True len by (auto simp: best_ask_ok_def nth_list_update split: if_splits)
  qed
  moreover have "bids (update_ask b p q c t) = bids b" "best_bid_idx (update_ask b p q c t) = best_bid_idx b"
    "base_price (update_ask b p q c t) = base_price b" "asks (update_ask b p q c t) = asks ?b"
    unfolding upd by (simp_all add: recalculate_best_ask_def)
  ultimately show ?thesis using inv lad bound by (simp add: book_inv_def)
qed

text \<open>Books fed with prices at or above a positive base.\<close>

inductive book_reachable :: "i64 \<Rightarrow> ContiguousOrderBook \<Rightarrow> bool" for base where
  book_start: "0 < sint base \<Longrightarrow> book_reachable base (book_new base)"
| book_bid: "book_reachable base b \<Longrightarrow> sint base \<le> sint p \<Longrightarrow> book_reachable base (update_bid b p q c t)"
| book_ask: "book_reachable base b \<Longrightarrow> sint base \<le> sint p \<Longrightarrow> sint p < 2 ^ 63 - 1 \<Longrightarrow>
    book_reachable base (update_ask b p q c t)"

lemma book_reachable_inv: "book_reachable base b \<Longrightarrow> book_inv b \<and> base_price b = base \<and> 0 < sint base"
proof (induction rule: book_reachable.induct)
  case book_start
  then show ?case
    using ladder_new [of base]
    by (simp add: book_new_def book_inv_def best_bid_ok_def best_ask_ok_def PRICE_LEVELS_COUNT_def level_default_def)
qed (simp_all add: update_bid_inv update_ask_inv)

section \<open>Properties\<close>



text \<open>A price below the base shares its level with the mirror price above it: a bid at \<open>base - d\<close>
  ticks overwrites the resting bid at \<open>base + d\<close> ticks, whatever its quantity, so the ladder loses a
  resting level of a different price.\<close>

theorem book_mirror_price_collision:
  assumes "0 < d" "d < 2048" "0 < sint base" "sint base < 2 ^ 62" "204800000 < sint base"
    and "length (bids b) = 2048" "base_price b = base"
  shows "level_index base (base + of_nat d * 100000) = Some d \<and> level_index base (base - of_nat d * 100000) = Some d \<and>
    bids (update_bid b (base - of_nat d * 100000) q c t) ! d =
      \<lparr>level_price = base - of_nat d * 100000, level_quantity = q, order_count = c, last_update_ts = t\<rparr>"
proof -
  have e: "base + of_nat d * 100000 = of_int (sint base + int d * 100000)" "base - of_nat d * 100000 = of_int (sint base - int d * 100000)"
    by simp_all
  have up: "sint (base + of_nat d * 100000) = sint base + int d * 100000"
    unfolding e using assms by (intro sint_of_int_range) simp_all
  have down: "sint (base - of_nat d * 100000) = sint base - int d * 100000"
    unfolding e using assms by (intro sint_of_int_range) simp_all
  have hi: "level_index base (base + of_nat d * 100000) = Some d"
    using assms up by (subst level_index_above) (simp_all add: bucket_def PRICE_LEVELS_COUNT_def)
  have "sint (base - (base - of_nat d * 100000)) = int d * 100000"
    using sint_diff_nonneg [of "base - of_nat d * 100000" base] down assms by simp
  then have "sint (sdivide (base - (base - of_nat d * 100000)) TICK_SIZE) = int d"
    by (subst sint_sdivide_tick) simp_all
  then have lo: "level_index base (base - of_nat d * 100000) = Some d"
    using down assms by (auto simp: level_index_def Let_def PRICE_LEVELS_COUNT_def unat_of_sint_nonneg)
  show ?thesis
    using hi lo assms by (simp add: update_bid_def Let_def recalculate_best_bid_def)
qed

theorem book_mirror_price_collision_witness:
  "bids (update_bid (update_bid (book_new 5000000000) 5000500000 7 1 1) 4999500000 9 1 2) ! 5
     = \<lparr>level_price = 4999500000, level_quantity = 9, order_count = 1, last_update_ts = 2\<rparr>"
proof -
  let ?b = "update_bid (book_new 5000000000) 5000500000 7 1 1"
  have "book_reachable 5000000000 ?b" by (rule book_bid, rule book_start) simp_all
  then have "length (bids ?b) = 2048" "base_price ?b = 5000000000"
    using book_reachable_inv by (auto simp: book_inv_def ladder_def PRICE_LEVELS_COUNT_def)
  then show ?thesis
    using book_mirror_price_collision [of 5 5000000000 ?b 9 1 2] by simp
qed

end
