(* ===== verification/Topology.thy ===== *)
theory Topology
  imports Rust_Prelude
begin

text \<open>
  Hardware tiers and their negotiation, \<open>src/crates/core-engine/src/topology/mod.rs\<close>. A probe is the
  record of its three answers; the process environment is a parameter. \<open>Hardware_Probe\<close> computes the
  answers of a Linux host.
\<close>

section \<open>Data\<close>

datatype HardwareTier = Tier1MidRange | Tier2CloudVirtualized | Tier3EnterpriseBareMetal

fun tier_as_str :: "HardwareTier \<Rightarrow> string" where
  "tier_as_str Tier1MidRange = ''Tier1_MidRange''"
| "tier_as_str Tier2CloudVirtualized = ''Tier2_CloudVirtualized''"
| "tier_as_str Tier3EnterpriseBareMetal = ''Tier3_EnterpriseBareMetal''"

datatype HypervisorKind =
  HvNone | AwsNitro | Kvm | Xen | HyperV | GcpCompute | DockerContainer | HvUnknown string

definition is_virtualized :: "HypervisorKind \<Rightarrow> bool" where
  "is_virtualized h = (case h of HvNone \<Rightarrow> False | _ \<Rightarrow> True)"

fun hypervisor_as_str :: "HypervisorKind \<Rightarrow> string" where
  "hypervisor_as_str HvNone = ''BareMetal(None)''"
| "hypervisor_as_str AwsNitro = ''AwsNitro''"
| "hypervisor_as_str Kvm = ''KVM''"
| "hypervisor_as_str Xen = ''Xen''"
| "hypervisor_as_str HyperV = ''HyperV''"
| "hypervisor_as_str GcpCompute = ''GcpCompute''"
| "hypervisor_as_str DockerContainer = ''DockerContainer''"
| "hypervisor_as_str (HvUnknown name) = name"

record CpuTopology =
  total_logical_cores :: nat
  total_physical_cores :: nat
  numa_nodes :: nat
  is_hybrid :: bool
  performance_cores :: "nat list"
  efficiency_cores :: "nat list"
  l1d_cache_bytes :: nat
  l2_cache_bytes :: nat
  l3_cache_bytes :: nat
  has_invariant_tsc :: bool

definition cpu_default :: CpuTopology where
  "cpu_default = \<lparr>total_logical_cores = 4, total_physical_cores = 4, numa_nodes = 1, is_hybrid = False,
     performance_cores = [0..<4], efficiency_cores = [], l1d_cache_bytes = 32 * 1024,
     l2_cache_bytes = 512 * 1024, l3_cache_bytes = 8 * 1024 * 1024, has_invariant_tsc = False\<rparr>"

record EnvironmentCapabilities =
  has_hugetlb :: bool
  has_mlock :: bool
  has_sched_fifo :: bool
  has_raw_sockets :: bool
  cgroup_cpu_quota_us :: "u64 option"
  cgroup_cpu_period_us :: "u64 option"
  max_locked_memory_bytes :: u64

definition caps_default :: EnvironmentCapabilities where
  "caps_default = \<lparr>has_hugetlb = False, has_mlock = False, has_sched_fifo = False, has_raw_sockets = False,
     cgroup_cpu_quota_us = None, cgroup_cpu_period_us = None, max_locked_memory_bytes = 0\<rparr>"

record RuntimeProfile =
  profile_tier :: HardwareTier
  profile_hypervisor :: HypervisorKind
  profile_cpu :: CpuTopology
  profile_caps :: EnvironmentCapabilities
  auto_detected :: bool
  override_reason :: "string option"

text \<open>The answers of a probe, as a mock probe holds them.\<close>

record MockHardwareProbe =
  mock_hypervisor :: HypervisorKind
  mock_cpu :: CpuTopology
  mock_caps :: EnvironmentCapabilities

section \<open>Negotiation\<close>

definition ascii_lower :: "string \<Rightarrow> string" where
  "ascii_lower = map (\<lambda>c. let n = of_char c :: nat in if 65 \<le> n \<and> n \<le> 90 then char_of (n + 32) else c)"

definition parse_tier_override :: "string \<Rightarrow> HardwareTier option" where
  "parse_tier_override val =
     (let v = ascii_lower val
      in if v \<in> {''tier1'', ''midrange'', ''1''} then Some Tier1MidRange
         else if v \<in> {''tier2'', ''cloud'', ''virtualized'', ''2''} then Some Tier2CloudVirtualized
         else if v \<in> {''tier3'', ''baremetal'', ''enterprise'', ''3''} then Some Tier3EnterpriseBareMetal
         else None)"

text \<open>\<open>std::env::var\<close> is the parameter \<open>env\<close>.\<close>

definition env_override :: "(string \<Rightarrow> string option) \<Rightarrow> HardwareTier option" where
  "env_override env =
     (case (case env ''CMP_HARDWARE_PROFILE'' of Some v \<Rightarrow> Some v | None \<Rightarrow> env ''CMP_PROFILE'') of
        Some val \<Rightarrow> parse_tier_override val | None \<Rightarrow> None)"

definition auto_tier :: "HypervisorKind \<Rightarrow> CpuTopology \<Rightarrow> EnvironmentCapabilities \<Rightarrow> HardwareTier" where
  "auto_tier hypervisor cpu caps =
     (if \<not> is_virtualized hypervisor \<and> total_physical_cores cpu \<ge> 16 \<and> has_hugetlb caps \<and> has_sched_fifo caps
      then Tier3EnterpriseBareMetal
      else if is_virtualized hypervisor \<or> cgroup_cpu_quota_us caps \<noteq> None then Tier2CloudVirtualized
      else Tier1MidRange)"

definition negotiate_profile ::
  "(string \<Rightarrow> string option) \<Rightarrow> MockHardwareProbe \<Rightarrow> HardwareTier option \<Rightarrow> RuntimeProfile" where
  "negotiate_profile env probe override_tier =
     (let hypervisor = mock_hypervisor probe; cpu = mock_cpu probe; caps = mock_caps probe;
          chosen_override = (case override_tier of Some t \<Rightarrow> Some t | None \<Rightarrow> env_override env)
      in case chosen_override of
           Some tier \<Rightarrow>
             \<lparr>profile_tier = tier, profile_hypervisor = hypervisor, profile_cpu = cpu, profile_caps = caps,
              auto_detected = False,
              override_reason = Some (''Operator override set to '' @ tier_as_str tier)\<rparr>
         | None \<Rightarrow>
             \<lparr>profile_tier = auto_tier hypervisor cpu caps, profile_hypervisor = hypervisor, profile_cpu = cpu,
              profile_caps = caps, auto_detected = True, override_reason = None\<rparr>)"

section \<open>The mock hosts\<close>

definition new_tier1_laptop :: MockHardwareProbe where
  "new_tier1_laptop = \<lparr>mock_hypervisor = HvNone,
     mock_cpu = \<lparr>total_logical_cores = 8, total_physical_cores = 4, numa_nodes = 1, is_hybrid = False,
       performance_cores = [0, 1, 2, 3], efficiency_cores = [], l1d_cache_bytes = 32 * 1024,
       l2_cache_bytes = 512 * 1024, l3_cache_bytes = 8 * 1024 * 1024, has_invariant_tsc = False\<rparr>,
     mock_caps = caps_default\<rparr>"

definition new_tier2_aws_nitro :: MockHardwareProbe where
  "new_tier2_aws_nitro = \<lparr>mock_hypervisor = AwsNitro,
     mock_cpu = \<lparr>total_logical_cores = 8, total_physical_cores = 4, numa_nodes = 1, is_hybrid = False,
       performance_cores = [0..<8], efficiency_cores = [], l1d_cache_bytes = 32 * 1024,
       l2_cache_bytes = 1024 * 1024, l3_cache_bytes = 32 * 1024 * 1024, has_invariant_tsc = True\<rparr>,
     mock_caps = \<lparr>has_hugetlb = True, has_mlock = True, has_sched_fifo = False, has_raw_sockets = False,
       cgroup_cpu_quota_us = Some 400000, cgroup_cpu_period_us = Some 100000,
       max_locked_memory_bytes = 64 * 1024 * 1024\<rparr>\<rparr>"

definition new_tier3_bare_metal :: MockHardwareProbe where
  "new_tier3_bare_metal = \<lparr>mock_hypervisor = HvNone,
     mock_cpu = \<lparr>total_logical_cores = 128, total_physical_cores = 64, numa_nodes = 2, is_hybrid = False,
       performance_cores = [0..<128], efficiency_cores = [], l1d_cache_bytes = 32 * 1024,
       l2_cache_bytes = 1024 * 1024, l3_cache_bytes = 256 * 1024 * 1024, has_invariant_tsc = True\<rparr>,
     mock_caps = \<lparr>has_hugetlb = True, has_mlock = True, has_sched_fifo = True, has_raw_sockets = True,
       cgroup_cpu_quota_us = None, cgroup_cpu_period_us = None,
       max_locked_memory_bytes = 128 * 1024 * 1024 * 1024\<rparr>\<rparr>"

section \<open>Properties\<close>

text \<open>Tier negotiation: an explicit override wins over the environment, the environment over
  detection; without either, a virtualized host is never given the bare-metal tier, the bare-metal tier
  needs at least 16 physical cores, huge pages and real-time scheduling, a host that has them all and is
  not virtualized always gets it, and the answers of the probe are passed on unchanged.\<close>

theorem negotiate_profile_tier:
  "profile_tier (negotiate_profile env probe (Some t)) = t \<and>
   (env_override env = Some t' \<longrightarrow> profile_tier (negotiate_profile env probe None) = t') \<and>
   (env_override env = None \<longrightarrow>
      (profile_tier (negotiate_profile env probe None) = Tier3EnterpriseBareMetal \<longleftrightarrow>
         \<not> is_virtualized (mock_hypervisor probe) \<and> 16 \<le> total_physical_cores (mock_cpu probe) \<and>
         has_hugetlb (mock_caps probe) \<and> has_sched_fifo (mock_caps probe)) \<and>
      (profile_tier (negotiate_profile env probe None) = Tier1MidRange \<longrightarrow>
         \<not> is_virtualized (mock_hypervisor probe) \<and> cgroup_cpu_quota_us (mock_caps probe) = None)) \<and>
   (auto_detected (negotiate_profile env probe ov) \<longleftrightarrow> ov = None \<and> env_override env = None) \<and>
   profile_cpu (negotiate_profile env probe ov) = mock_cpu probe"
  by (auto simp: negotiate_profile_def auto_tier_def Let_def split: option.splits if_splits)

theorem negotiate_profile_tier_witness:
  "profile_tier (negotiate_profile (\<lambda>_. None) new_tier3_bare_metal None) = Tier3EnterpriseBareMetal \<and>
   profile_tier (negotiate_profile (\<lambda>_. Some ''Cloud'') new_tier3_bare_metal None) = Tier2CloudVirtualized"
proof -
  have none: "env_override (\<lambda>_. None) = None" by (simp add: env_override_def)
  have cloud: "env_override (\<lambda>_. Some ''Cloud'') = Some Tier2CloudVirtualized" by code_simp
  show ?thesis
    using negotiate_profile_tier [of "\<lambda>_. None" new_tier3_bare_metal] none
      negotiate_profile_tier [of "\<lambda>_. Some ''Cloud''" new_tier3_bare_metal _ Tier2CloudVirtualized] cloud
    by (simp add: new_tier3_bare_metal_def is_virtualized_def)
qed

end
