(* ===== verification/Shm_Ring.thy ===== *)
theory Shm_Ring
  imports Ingest_Models Topology
begin

text \<open>
  The single-writer ring of \<open>src/crates/distribution/src/shm.rs\<close>, in both forms: the elastic ring with
  its cascade of backing files, and the const-generic one. The file system is a parameter of the
  cascade. Both rings are shown to be a bounded log: a reader with its own cursor gets the messages in
  order, or is told exactly how many it missed.
\<close>

section \<open>Data\<close>

definition SHM_MAGIC :: u32 where "SHM_MAGIC = 0x434D5031"
definition SHM_VERSION :: u32 where "SHM_VERSION = 1"
definition DEFAULT_SHM_PATH :: string where "DEFAULT_SHM_PATH = ''/dev/shm/cmp_market_data.shm''"
definition DEFAULT_SHM_SLOTS :: nat where "DEFAULT_SHM_SLOTS = 16384"

datatype ShmMsgKind = KindBbo | KindTrade | KindHeartbeat

fun shm_kind_code :: "ShmMsgKind \<Rightarrow> u8" where
  "shm_kind_code KindBbo = 1"
| "shm_kind_code KindTrade = 2"
| "shm_kind_code KindHeartbeat = 3"

record ShmMessageSlot =
  slot_sequence :: u64
  slot_kind :: u8
  slot_flags :: u8
  slot_venue_id :: u16
  slot_market_id :: u32
  slot_telemetry :: TelemetryTimestamps
  slot_price :: i64
  slot_qty :: u64

definition slot_default :: ShmMessageSlot where
  "slot_default = \<lparr>slot_sequence = 0, slot_kind = 0, slot_flags = 0, slot_venue_id = 0, slot_market_id = 0,
     slot_telemetry = telemetry_default, slot_price = 0, slot_qty = 0\<rparr>"

record ShmHeader =
  shm_magic :: u32
  shm_version :: u32
  slot_capacity :: u32
  slot_size_bytes :: u32
  writer_pid :: u32
  writer_heartbeat_ns :: u64
  head_sequence :: u64

datatype ShmReadStatus = ReadOk | ReadEmpty | ReadOverrun u64

datatype ShmBackendKind =
    HugeTLB nat string | PosixShm string | AnonymousOrTmpfs string | UnixDomainSocket string | InMemory

fun backend_as_str :: "ShmBackendKind \<Rightarrow> string" where
  "backend_as_str (HugeTLB _ _) = ''HugeTLB''"
| "backend_as_str (PosixShm _) = ''PosixShm''"
| "backend_as_str (AnonymousOrTmpfs _) = ''AnonymousOrTmpfs''"
| "backend_as_str (UnixDomainSocket _) = ''UnixDomainSocket''"
| "backend_as_str InMemory = ''InMemory''"

record ElasticShmConfig =
  cfg_tier :: HardwareTier
  cfg_capacity :: nat
  preferred_path :: "string option"
  enable_hugetlb :: bool
  enable_mlock :: bool

fun config_for_tier :: "HardwareTier \<Rightarrow> ElasticShmConfig" where
  "config_for_tier Tier3EnterpriseBareMetal =
     \<lparr>cfg_tier = Tier3EnterpriseBareMetal, cfg_capacity = 65536,
      preferred_path = Some ''/dev/hugepages/cmp_market_data.shm'', enable_hugetlb = True, enable_mlock = True\<rparr>"
| "config_for_tier Tier2CloudVirtualized =
     \<lparr>cfg_tier = Tier2CloudVirtualized, cfg_capacity = 16384,
      preferred_path = Some ''/dev/shm/cmp_market_data.shm'', enable_hugetlb = False, enable_mlock = False\<rparr>"
| "config_for_tier Tier1MidRange =
     \<lparr>cfg_tier = Tier1MidRange, cfg_capacity = 4096, preferred_path = None, enable_hugetlb = False,
      enable_mlock = False\<rparr>"

record ElasticShmRing =
  shm_backend :: ShmBackendKind
  shm_capacity :: nat
  shm_mask :: u64
  shm_header :: ShmHeader
  shm_slots :: "ShmMessageSlot list"
  backing_file :: "string option"

section \<open>Creation\<close>

text \<open>What the cascade asks of the file system: whether a directory exists, whether a file can be opened
  and sized, and the temporary directory's file.\<close>

record file_system =
  fs_is_dir :: "string \<Rightarrow> bool"
  fs_open_sized :: "string \<Rightarrow> nat \<Rightarrow> bool"
  fs_tmp_path :: string

definition shm_header_new :: "nat \<Rightarrow> u32 \<Rightarrow> ShmHeader" where
  "shm_header_new capacity pid =
     \<lparr>shm_magic = SHM_MAGIC, shm_version = SHM_VERSION, slot_capacity = of_nat capacity, slot_size_bytes = 64,
      writer_pid = pid, writer_heartbeat_ns = 0, head_sequence = 0\<rparr>"

definition init_memory_backed ::
  "ShmBackendKind \<Rightarrow> nat \<Rightarrow> u64 \<Rightarrow> u32 \<Rightarrow> string option \<Rightarrow> ElasticShmRing" where
  "init_memory_backed backend capacity msk pid file =
     \<lparr>shm_backend = backend, shm_capacity = capacity, shm_mask = msk, shm_header = shm_header_new capacity pid,
      shm_slots = replicate capacity slot_default, backing_file = file\<rparr>"

definition create_or_fallback :: "file_system \<Rightarrow> ElasticShmConfig \<Rightarrow> u32 \<Rightarrow> ElasticShmRing" where
  "create_or_fallback fs config pid =
     (let capacity = (if is_power_of_two (cfg_capacity config) then cfg_capacity config
                      else next_power_of_two (cfg_capacity config));
          msk = of_nat capacity - 1;
          total_bytes = 64 + capacity * 64;
          huge_path = (case preferred_path config of Some p \<Rightarrow> p | None \<Rightarrow> ''/dev/hugepages/cmp_market_data.shm'');
          posix_path = (case preferred_path config of Some p \<Rightarrow> p | None \<Rightarrow> DEFAULT_SHM_PATH);
          tmp_path = fs_tmp_path fs
      in if enable_hugetlb config \<and> fs_is_dir fs ''/dev/hugepages'' \<and> fs_open_sized fs huge_path total_bytes
         then init_memory_backed (HugeTLB (2 * 1024 * 1024) huge_path) capacity msk pid (Some huge_path)
         else if fs_is_dir fs ''/dev/shm'' \<and> fs_open_sized fs posix_path total_bytes
         then init_memory_backed (PosixShm posix_path) capacity msk pid (Some posix_path)
         else if fs_open_sized fs tmp_path total_bytes
         then init_memory_backed (AnonymousOrTmpfs tmp_path) capacity msk pid (Some tmp_path)
         else init_memory_backed InMemory capacity msk pid None)"

section \<open>Publishing and reading\<close>

text \<open>The payload fields of a slot, written before its sequence number.\<close>

definition fill_bbo :: "NormalizedBbo \<Rightarrow> ShmMessageSlot \<Rightarrow> ShmMessageSlot" where
  "fill_bbo bbo slot = slot\<lparr>slot_kind := shm_kind_code KindBbo, slot_venue_id := bbo_venue bbo,
     slot_market_id := bbo_market_id bbo, slot_telemetry := bbo_telemetry bbo, slot_price := bid_price bbo,
     slot_qty := bid_qty bbo, slot_flags := ucast (bbo_flags bbo)\<rparr>"

definition fill_trade :: "UnifiedTrade \<Rightarrow> ShmMessageSlot \<Rightarrow> ShmMessageSlot" where
  "fill_trade trade slot = slot\<lparr>slot_kind := shm_kind_code KindTrade, slot_venue_id := trade_venue trade,
     slot_market_id := trade_market_id trade, slot_telemetry := trade_telemetry trade, slot_price := trade_price trade,
     slot_qty := trade_size trade, slot_flags := (if is_liquidation trade then 0x01 else 0x00)\<rparr>"

definition publish_bbo :: "ElasticShmRing \<Rightarrow> NormalizedBbo \<Rightarrow> u64 \<Rightarrow> ElasticShmRing \<times> u64" where
  "publish_bbo r bbo now_ns =
     (let current_seq = head_sequence (shm_header r);
          next_seq = current_seq + 1;
          slot_idx = unat (next_seq AND shm_mask r);
          slot = (fill_bbo bbo (shm_slots r ! slot_idx))\<lparr>slot_sequence := next_seq\<rparr>
      in (r\<lparr>shm_slots := (shm_slots r)[slot_idx := slot],
            shm_header := (shm_header r)\<lparr>writer_heartbeat_ns := now_ns, head_sequence := next_seq\<rparr>\<rparr>, next_seq))"

definition publish_trade :: "ElasticShmRing \<Rightarrow> UnifiedTrade \<Rightarrow> u64 \<Rightarrow> ElasticShmRing \<times> u64" where
  "publish_trade r trade now_ns =
     (let current_seq = head_sequence (shm_header r);
          next_seq = current_seq + 1;
          slot_idx = unat (next_seq AND shm_mask r);
          slot = (fill_trade trade (shm_slots r ! slot_idx))\<lparr>slot_sequence := next_seq\<rparr>
      in (r\<lparr>shm_slots := (shm_slots r)[slot_idx := slot],
            shm_header := (shm_header r)\<lparr>writer_heartbeat_ns := now_ns, head_sequence := next_seq\<rparr>\<rparr>, next_seq))"

text \<open>A read takes the reader's cursor and output slot and returns both.\<close>

definition try_read :: "ElasticShmRing \<Rightarrow> u64 \<Rightarrow> ShmMessageSlot \<Rightarrow> u64 \<times> ShmMessageSlot \<times> ShmReadStatus" where
  "try_read r reader_cursor out =
     (let head = head_sequence (shm_header r); cap = of_nat (shm_capacity r)
      in if reader_cursor \<ge> head then (reader_cursor, out, ReadEmpty)
         else if head > reader_cursor + cap
         then (head - cap, out, ReadOverrun (head - (reader_cursor + cap)))
         else let next_cursor = reader_cursor + 1;
                  slot_idx = unat (next_cursor AND shm_mask r);
                  out = shm_slots r ! slot_idx
              in if slot_sequence out = next_cursor then (next_cursor, out, ReadOk)
                 else (head, out, ReadEmpty))"

section \<open>The const-generic ring\<close>

record ShmRingBuffer =
  rb_header :: ShmHeader
  rb_slots :: "ShmMessageSlot list"

definition shm_ring_new :: "nat \<Rightarrow> u32 \<Rightarrow> ShmRingBuffer outcome" where
  "shm_ring_new n pid =
     (if is_power_of_two n
      then Ret \<lparr>rb_header = shm_header_new n pid, rb_slots = replicate n slot_default\<rparr>
      else Panic)"

definition rb_publish_bbo :: "nat \<Rightarrow> ShmRingBuffer \<Rightarrow> NormalizedBbo \<Rightarrow> u64 \<Rightarrow> ShmRingBuffer \<times> u64" where
  "rb_publish_bbo n r bbo now_ns =
     (let current_seq = head_sequence (rb_header r);
          next_seq = current_seq + 1;
          slot_idx = unat (next_seq AND (of_nat n - 1));
          slot = (fill_bbo bbo (rb_slots r ! slot_idx))\<lparr>slot_sequence := next_seq\<rparr>
      in (r\<lparr>rb_slots := (rb_slots r)[slot_idx := slot],
            rb_header := (rb_header r)\<lparr>writer_heartbeat_ns := now_ns, head_sequence := next_seq\<rparr>\<rparr>, next_seq))"

definition rb_publish_trade :: "nat \<Rightarrow> ShmRingBuffer \<Rightarrow> UnifiedTrade \<Rightarrow> u64 \<Rightarrow> ShmRingBuffer \<times> u64" where
  "rb_publish_trade n r trade now_ns =
     (let current_seq = head_sequence (rb_header r);
          next_seq = current_seq + 1;
          slot_idx = unat (next_seq AND (of_nat n - 1));
          slot = (fill_trade trade (rb_slots r ! slot_idx))\<lparr>slot_sequence := next_seq\<rparr>
      in (r\<lparr>rb_slots := (rb_slots r)[slot_idx := slot],
            rb_header := (rb_header r)\<lparr>writer_heartbeat_ns := now_ns, head_sequence := next_seq\<rparr>\<rparr>, next_seq))"

definition rb_try_read :: "nat \<Rightarrow> ShmRingBuffer \<Rightarrow> u64 \<Rightarrow> ShmMessageSlot \<Rightarrow> u64 \<times> ShmMessageSlot \<times> ShmReadStatus" where
  "rb_try_read n r reader_cursor out =
     (let head = head_sequence (rb_header r); cap = of_nat n
      in if reader_cursor \<ge> head then (reader_cursor, out, ReadEmpty)
         else if head > reader_cursor + cap
         then (head - cap, out, ReadOverrun (head - (reader_cursor + cap)))
         else let next_cursor = reader_cursor + 1;
                  slot_idx = unat (next_cursor AND (of_nat n - 1));
                  out = rb_slots r ! slot_idx
              in if slot_sequence out = next_cursor then (next_cursor, out, ReadOk)
                 else (head, out, ReadEmpty))"

section \<open>The bounded log\<close>

datatype shm_msg = MsgBbo NormalizedBbo | MsgTrade UnifiedTrade

definition fill_msg :: "shm_msg \<Rightarrow> ShmMessageSlot \<Rightarrow> ShmMessageSlot" where
  "fill_msg m slot = (case m of MsgBbo b \<Rightarrow> fill_bbo b slot | MsgTrade t \<Rightarrow> fill_trade t slot)"

text \<open>What a reader should see for the message with a given sequence number.\<close>

definition log_entry :: "shm_msg \<Rightarrow> nat \<Rightarrow> ShmMessageSlot" where
  "log_entry m sq = (fill_msg m slot_default)\<lparr>slot_sequence := of_nat sq\<rparr>"

lemma fill_msg_entry: "(fill_msg m slot)\<lparr>slot_sequence := of_nat sq\<rparr> = log_entry m sq"
  by (cases m; cases slot) (simp_all add: log_entry_def fill_msg_def fill_bbo_def fill_trade_def slot_default_def)

definition spec_read :: "nat \<Rightarrow> shm_msg list \<Rightarrow> u64 \<Rightarrow> ShmMessageSlot \<Rightarrow> u64 \<times> ShmMessageSlot \<times> ShmReadStatus" where
  "spec_read cap msgs c out =
     (if length msgs \<le> unat c then (c, out, ReadEmpty)
      else if unat c + cap < length msgs
      then (of_nat (length msgs - cap), out, ReadOverrun (of_nat (length msgs - unat c - cap)))
      else (c + 1, log_entry (msgs ! unat c) (unat c + 1), ReadOk))"

text \<open>A reader that polls until there is nothing new: how many messages it was told it missed, the slots
  it received, its cursor.\<close>

fun drain_reader ::
  "(u64 \<Rightarrow> ShmMessageSlot \<Rightarrow> u64 \<times> ShmMessageSlot \<times> ShmReadStatus) \<Rightarrow> nat \<Rightarrow> u64 \<Rightarrow> ShmMessageSlot \<Rightarrow>
   nat \<times> ShmMessageSlot list \<times> u64" where
  "drain_reader rd 0 c out = (0, [], c)"
| "drain_reader rd (Suc f) c out =
     (case rd c out of
        (c', out', ReadEmpty) \<Rightarrow> (0, [], c')
      | (c', out', ReadOverrun k) \<Rightarrow>
          (case drain_reader rd f c' out' of (missed, got, c'') \<Rightarrow> (unat k + missed, got, c''))
      | (c', out', ReadOk) \<Rightarrow>
          (case drain_reader rd f c' out' of (missed, got, c'') \<Rightarrow> (missed, out' # got, c'')))"

locale bounded_log =
  fixes publish :: "'r \<Rightarrow> shm_msg \<Rightarrow> u64 \<Rightarrow> 'r \<times> u64"
    and rd :: "'r \<Rightarrow> u64 \<Rightarrow> ShmMessageSlot \<Rightarrow> u64 \<times> ShmMessageSlot \<times> ShmReadStatus"
    and holds :: "'r \<Rightarrow> shm_msg list \<Rightarrow> bool"
    and cap :: "'r \<Rightarrow> nat"
  assumes publish_holds: "holds r msgs \<Longrightarrow> length msgs + 1 + cap r < 2 ^ 64 \<Longrightarrow> publish r m t = (r', sq) \<Longrightarrow>
       holds r' (msgs @ [m]) \<and> cap r' = cap r \<and> sq = of_nat (length msgs + 1)"
    and read_holds: "holds r msgs \<Longrightarrow> length msgs + cap r < 2 ^ 64 \<Longrightarrow> unat c + cap r < 2 ^ 64 \<Longrightarrow> rd r c out = spec_read (cap r) msgs c out"
begin

lemma publish_all_holds:
  "holds r msgs \<Longrightarrow> length msgs + length ms + cap r < 2 ^ 64 \<Longrightarrow>
   holds (foldl (\<lambda>r (m, t). fst (publish r m t)) r ms) (msgs @ map fst ms)
   \<and> cap (foldl (\<lambda>r (m, t). fst (publish r m t)) r ms) = cap r"
proof (induction ms arbitrary: r msgs)
  case (Cons mt ms)
  obtain m t where mt: "mt = (m, t)" by (cases mt)
  obtain r' sq where p: "publish r m t = (r', sq)" by (cases "publish r m t")
  have "holds r' (msgs @ [m]) \<and> cap r' = cap r" using publish_holds [OF Cons.prems(1) _ p] Cons.prems(2) by simp
  with Cons.IH [of r' "msgs @ [m]"] Cons.prems(2) show ?case by (simp add: mt p)
qed simp

lemma drain_in_window:
  assumes "holds r msgs" "length msgs + cap r < 2 ^ 64" "unat c + k = length msgs" "k \<le> cap r" "k < f"
  shows "drain_reader (rd r) f c out =
    (0, map (\<lambda>i. log_entry (msgs ! i) (i + 1)) [unat c..<length msgs], of_nat (length msgs))"
  using assms(3-5)
proof (induction k arbitrary: f c out)
  case 0
  then obtain f' where "f = Suc f'" by (cases f) auto
  moreover have "c = of_nat (length msgs)" using 0 by (intro eq_of_nat) simp
  ultimately show ?case using 0 read_holds [OF assms(1,2), of c out] assms(2) by (simp add: spec_read_def)
next
  case (Suc k)
  then obtain f' where f: "f = Suc f'" by (cases f) auto
  have c: "unat (c + 1) = unat c + 1" using Suc.prems(1) assms(2) by (intro unat_Suc_nowrap) simp
  have "rd r c out = (c + 1, log_entry (msgs ! unat c) (unat c + 1), ReadOk)"
    using Suc.prems read_holds [OF assms(1,2), of c out] assms(2) by (simp add: spec_read_def)
  moreover have "[unat c..<length msgs] = unat c # [unat (c + 1)..<length msgs]"
    using Suc.prems(1) c by (simp add: upt_conv_Cons)
  ultimately show ?case using Suc.IH [of "c + 1" f'] Suc.prems c f by simp
qed

lemma drain_all:
  assumes "holds r msgs" "length msgs + cap r < 2 ^ 64" "unat c \<le> length msgs"
  shows "drain_reader (rd r) (length msgs + 2) c out =
    (length msgs - unat c - cap r,
     map (\<lambda>i. log_entry (msgs ! i) (i + 1)) [max (unat c) (length msgs - cap r)..<length msgs], of_nat (length msgs))"
proof (cases "unat c + cap r < length msgs")
  case True
  let ?c = "of_nat (length msgs - cap r) :: u64"
  have c: "unat ?c = length msgs - cap r" using assms(2) by (intro unat_of_nat_small) simp
  have "rd r c out = (?c, out, ReadOverrun (of_nat (length msgs - unat c - cap r)))"
    using True read_holds [OF assms(1,2), of c out] assms(2) by (simp add: spec_read_def)
  moreover have "unat (of_nat (length msgs - unat c - cap r) :: u64) = length msgs - unat c - cap r"
    using assms(2) by (intro unat_of_nat_small) simp
  moreover have "drain_reader (rd r) (length msgs + 1) ?c out =
      (0, map (\<lambda>i. log_entry (msgs ! i) (i + 1)) [unat ?c..<length msgs], of_nat (length msgs))"
    using True c assms(1,2) by (intro drain_in_window [where k = "cap r"]) simp_all
  moreover have "max (unat c) (length msgs - cap r) = length msgs - cap r" using True by simp
  ultimately show ?thesis by (simp add: c)
next
  case False
  then have "drain_reader (rd r) (length msgs + 2) c out =
      (0, map (\<lambda>i. log_entry (msgs ! i) (i + 1)) [unat c..<length msgs], of_nat (length msgs))"
    using assms by (intro drain_in_window [where k = "length msgs - unat c"]) simp_all
  moreover have "max (unat c) (length msgs - cap r) = unat c" "length msgs - unat c - cap r = 0" using False by simp_all
  ultimately show ?thesis by simp
qed

end

section \<open>Both rings are bounded logs\<close>

definition slots_hold :: "ShmMessageSlot list \<Rightarrow> u64 \<Rightarrow> nat \<Rightarrow> shm_msg list \<Rightarrow> bool" where
  "slots_hold slots head cap msgs \<longleftrightarrow>
     is_power_of_two cap \<and> length slots = cap \<and> unat head = length msgs \<and>
     (\<forall>i<length msgs. length msgs \<le> i + cap \<longrightarrow> slots ! ((i + 1) mod cap) = log_entry (msgs ! i) (i + 1))"

lemma slots_hold_publish:
  assumes "slots_hold slots head cap msgs" "length msgs + 1 < 2 ^ 64"
  shows "slots_hold (slots[unat ((head + 1) AND (of_nat cap - 1)) := log_entry m (length msgs + 1)]) (head + 1) cap (msgs @ [m])
    \<and> head + 1 = of_nat (length msgs + 1)"
proof -
  have p2: "is_power_of_two cap" and len: "length slots = cap" and h: "unat head = length msgs"
    using assms(1) by (simp_all add: slots_hold_def)
  have h1: "unat (head + 1) = length msgs + 1" using assms h by (subst unat_Suc_nowrap) simp_all
  have idx: "unat ((head + 1) AND (of_nat cap - 1)) = (length msgs + 1) mod cap" using power_of_two_mask [OF p2, of "head + 1"] h1 by simp
  have lt: "(length msgs + 1) mod cap < length slots" using power_of_two_bounds [OF p2] len by simp
  have ne: "(length msgs + 1) mod cap \<noteq> (i + 1) mod cap" if "i < length msgs" "length msgs + 1 \<le> i + cap" for i
    using mod_neq_window [of "i + 1" "length msgs + 1" cap] that by simp
  have "head + 1 = of_nat (length msgs + 1)" using h1 by (rule eq_of_nat)
  moreover have "slots_hold (slots[(length msgs + 1) mod cap := log_entry m (length msgs + 1)]) (head + 1) cap (msgs @ [m])"
    using assms(1) h1 lt ne by (auto simp: slots_hold_def nth_append less_Suc_eq)
  ultimately show ?thesis unfolding idx by blast
qed

lemma slots_hold_read:
  assumes hold: "slots_hold slots head cap msgs" and small: "length msgs + cap < 2 ^ 64" "unat c + cap < 2 ^ 64"
  shows "(if c \<ge> head then (c, out, ReadEmpty)
     else if head > c + of_nat cap then (head - of_nat cap, out, ReadOverrun (head - (c + of_nat cap)))
     else let slot = slots ! unat ((c + 1) AND (of_nat cap - 1))
          in if slot_sequence slot = c + 1 then (c + 1, slot, ReadOk) else (head, slot, ReadEmpty))
   = spec_read cap msgs c out"
proof -
  have p2: "is_power_of_two cap" and h: "unat head = length msgs" using hold by (simp_all add: slots_hold_def)
  have head: "head = of_nat (length msgs)" using h by (rule eq_of_nat)
  have uc: "unat (of_nat cap :: u64) = cap" using small by (intro unat_of_nat_small) simp
  have cc: "unat (c + of_nat cap) = unat c + cap" using small uc by (subst unat_add_nowrap) simp_all
  consider (empty) "length msgs \<le> unat c" | (over) "unat c + cap < length msgs" | (ok) "unat c < length msgs" "length msgs \<le> unat c + cap"
    by linarith
  then show ?thesis
  proof cases
    case empty
    then show ?thesis using h by (simp add: spec_read_def word_le_nat_alt)
  next
    case over
    have lt: "\<not> c \<ge> head" "head > c + of_nat cap" using over h cc by (simp_all add: word_le_nat_alt word_less_nat_alt)
    have "of_nat cap \<le> head" using over uc h by (simp add: word_le_nat_alt)
    then have "unat (head - of_nat cap) = length msgs - cap" using uc h by (simp add: unat_sub_nowrap)
    then have "head - of_nat cap = of_nat (length msgs - cap)" by (rule eq_of_nat)
    moreover have "unat (head - (c + of_nat cap)) = length msgs - unat c - cap"
      using over h cc lt(2) by (simp add: unat_sub_nowrap less_imp_le)
    then have "head - (c + of_nat cap) = of_nat (length msgs - unat c - cap)" by (rule eq_of_nat)
    ultimately show ?thesis using over lt by (simp add: spec_read_def)
  next
    case ok
    have lt: "\<not> c \<ge> head" "\<not> head > c + of_nat cap" using ok h cc by (simp_all add: word_le_nat_alt word_less_nat_alt)
    have c1: "unat (c + 1) = unat c + 1" using ok small by (intro unat_Suc_nowrap) simp
    have "slots ! unat ((c + 1) AND (of_nat cap - 1)) = log_entry (msgs ! unat c) (unat c + 1)"
      using hold ok by (simp add: power_of_two_mask [OF p2] c1 slots_hold_def)
    moreover have "slot_sequence (log_entry (msgs ! unat c) (unat c + 1)) = c + 1"
      by (simp add: log_entry_def)
    ultimately show ?thesis using ok lt by (simp add: spec_read_def)
  qed
qed

definition publish_msg :: "ElasticShmRing \<Rightarrow> shm_msg \<Rightarrow> u64 \<Rightarrow> ElasticShmRing \<times> u64" where
  "publish_msg r m now_ns = (case m of MsgBbo b \<Rightarrow> publish_bbo r b now_ns | MsgTrade t \<Rightarrow> publish_trade r t now_ns)"

definition rb_publish_msg :: "nat \<Rightarrow> ShmRingBuffer \<Rightarrow> shm_msg \<Rightarrow> u64 \<Rightarrow> ShmRingBuffer \<times> u64" where
  "rb_publish_msg n r m now_ns = (case m of MsgBbo b \<Rightarrow> rb_publish_bbo n r b now_ns | MsgTrade t \<Rightarrow> rb_publish_trade n r t now_ns)"

definition shm_holds :: "ElasticShmRing \<Rightarrow> shm_msg list \<Rightarrow> bool" where
  "shm_holds r msgs \<longleftrightarrow> slots_hold (shm_slots r) (head_sequence (shm_header r)) (shm_capacity r) msgs \<and>
     shm_mask r = of_nat (shm_capacity r) - 1"

definition rb_holds :: "nat \<Rightarrow> ShmRingBuffer \<Rightarrow> shm_msg list \<Rightarrow> bool" where
  "rb_holds n r msgs \<longleftrightarrow> slots_hold (rb_slots r) (head_sequence (rb_header r)) n msgs"

lemma publish_msg_slot:
  "publish_msg r m t =
     (let nxt = head_sequence (shm_header r) + 1; idx = unat (nxt AND shm_mask r)
      in (r\<lparr>shm_slots := (shm_slots r)[idx := (fill_msg m (shm_slots r ! idx))\<lparr>slot_sequence := nxt\<rparr>],
            shm_header := (shm_header r)\<lparr>writer_heartbeat_ns := t, head_sequence := nxt\<rparr>\<rparr>, nxt))"
  by (cases m) (simp_all add: publish_msg_def publish_bbo_def publish_trade_def fill_msg_def Let_def)

lemma rb_publish_msg_slot:
  "rb_publish_msg n r m t =
     (let nxt = head_sequence (rb_header r) + 1; idx = unat (nxt AND (of_nat n - 1))
      in (r\<lparr>rb_slots := (rb_slots r)[idx := (fill_msg m (rb_slots r ! idx))\<lparr>slot_sequence := nxt\<rparr>],
            rb_header := (rb_header r)\<lparr>writer_heartbeat_ns := t, head_sequence := nxt\<rparr>\<rparr>, nxt))"
  by (cases m) (simp_all add: rb_publish_msg_def rb_publish_bbo_def rb_publish_trade_def fill_msg_def Let_def)

interpretation elastic: bounded_log publish_msg try_read shm_holds shm_capacity
proof
  fix r r' :: ElasticShmRing and msgs m t sq
  assume "shm_holds r msgs" "length msgs + 1 + shm_capacity r < 2 ^ 64" "publish_msg r m t = (r', sq)"
  then show "shm_holds r' (msgs @ [m]) \<and> shm_capacity r' = shm_capacity r \<and> sq = of_nat (length msgs + 1)"
    using slots_hold_publish [of "shm_slots r" "head_sequence (shm_header r)" "shm_capacity r" msgs m]
      fill_msg_entry [where m = m and sq = "length msgs + 1"]
    by (auto simp: shm_holds_def publish_msg_slot Let_def)
next
  fix r :: ElasticShmRing and msgs and c :: u64 and out
  assume "shm_holds r msgs" "length msgs + shm_capacity r < 2 ^ 64" "unat c + shm_capacity r < 2 ^ 64"
  then show "try_read r c out = spec_read (shm_capacity r) msgs c out"
    using slots_hold_read [of "shm_slots r" "head_sequence (shm_header r)" "shm_capacity r" msgs c out]
    by (simp only: shm_holds_def try_read_def Let_def)
qed

interpretation flat: bounded_log "rb_publish_msg n" "rb_try_read n" "rb_holds n" "\<lambda>_. n" for n
proof
  fix r r' :: ShmRingBuffer and msgs m t sq
  assume "rb_holds n r msgs" "length msgs + 1 + n < 2 ^ 64" "rb_publish_msg n r m t = (r', sq)"
  then show "rb_holds n r' (msgs @ [m]) \<and> n = n \<and> sq = of_nat (length msgs + 1)"
    using slots_hold_publish [of "rb_slots r" "head_sequence (rb_header r)" n msgs m]
      fill_msg_entry [where m = m and sq = "length msgs + 1"]
    by (auto simp: rb_holds_def rb_publish_msg_slot Let_def)
next
  fix r :: ShmRingBuffer and msgs and c :: u64 and out
  assume "rb_holds n r msgs" "length msgs + n < 2 ^ 64" "unat c + n < 2 ^ 64"
  then show "rb_try_read n r c out = spec_read n msgs c out"
    using slots_hold_read [of "rb_slots r" "head_sequence (rb_header r)" n msgs c out]
    by (simp only: rb_holds_def rb_try_read_def Let_def)
qed

section \<open>Creation gives an empty log\<close>

lemma create_or_fallback_holds:
  assumes "cfg_capacity config \<le> 2 ^ 63"
  shows "shm_holds (create_or_fallback fs config pid) [] \<and> cfg_capacity config \<le> shm_capacity (create_or_fallback fs config pid)"
  using next_power_of_two_props [OF assms] power_of_two_bounds
  by (auto simp: create_or_fallback_def init_memory_backed_def Let_def shm_holds_def slots_hold_def shm_header_new_def)

section \<open>A writer caught between payload and sequence\<close>

text \<open>A publication cut where another process could observe it: the payload is written, the sequence
  number and the head are not.\<close>

definition publish_payload :: "ElasticShmRing \<Rightarrow> shm_msg \<Rightarrow> ElasticShmRing" where
  "publish_payload r m =
     (let idx = unat ((head_sequence (shm_header r) + 1) AND shm_mask r)
      in r\<lparr>shm_slots := (shm_slots r)[idx := fill_msg m (shm_slots r ! idx)]\<rparr>)"

definition publish_commit :: "ElasticShmRing \<Rightarrow> u64 \<Rightarrow> ElasticShmRing" where
  "publish_commit r now_ns =
     (let nxt = head_sequence (shm_header r) + 1; idx = unat (nxt AND shm_mask r)
      in r\<lparr>shm_slots := (shm_slots r)[idx := (shm_slots r ! idx)\<lparr>slot_sequence := nxt\<rparr>],
           shm_header := (shm_header r)\<lparr>writer_heartbeat_ns := now_ns, head_sequence := nxt\<rparr>\<rparr>)"

lemma publish_msg_split:
  "unat ((head_sequence (shm_header r) + 1) AND shm_mask r) < length (shm_slots r) \<Longrightarrow>
   fst (publish_msg r m t) = publish_commit (publish_payload r m) t"
  by (simp add: publish_msg_slot publish_payload_def publish_commit_def Let_def)

section \<open>Properties\<close>

text \<open>C16: The elastic ring is a bounded log, whichever backing file the host provides: after publishing
  any sequence of quotes and trades into a fresh ring, a reader at any cursor \<open>c\<close> that polls until there is
  nothing new is told it missed exactly the messages that were overwritten, then receives the remaining
  ones unchanged, in order and with their sequence numbers, and ends at the head; missed plus received is
  the number of messages published after \<open>c\<close>.\<close>

theorem shm_reader_accounting:
  assumes "cfg_capacity config \<le> 2 ^ 63" and "unat c \<le> length ms"
    and "length ms + shm_capacity (create_or_fallback fs config pid) < 2 ^ 64"
  shows "let r = foldl (\<lambda>r (m, t). fst (publish_msg r m t)) (create_or_fallback fs config pid) ms;
             cap = shm_capacity (create_or_fallback fs config pid); n = length ms
         in cfg_capacity config \<le> cap \<and>
            drain_reader (try_read r) (n + 2) c out =
              (n - unat c - cap, map (\<lambda>i. log_entry (fst (ms ! i)) (i + 1)) [max (unat c) (n - cap)..<n], of_nat n)"
proof -
  let ?new = "create_or_fallback fs config pid"
  let ?r = "foldl (\<lambda>r (m, t). fst (publish_msg r m t)) ?new ms"
  have init: "shm_holds ?new []" "cfg_capacity config \<le> shm_capacity ?new"
    using create_or_fallback_holds [OF assms(1)] by auto
  have hold: "shm_holds ?r (map fst ms)" "shm_capacity ?r = shm_capacity ?new"
    using elastic.publish_all_holds [OF init(1), of ms] assms(3) by simp_all
  have "drain_reader (try_read ?r) (length ms + 2) c out =
      (length ms - unat c - shm_capacity ?new,
       map (\<lambda>i. log_entry (map fst ms ! i) (i + 1)) [max (unat c) (length ms - shm_capacity ?new)..<length ms], of_nat (length ms))"
    using elastic.drain_all [OF hold(1), of c out] assms(2,3) hold(2) by simp
  then show ?thesis using init(2) by (simp add: Let_def)
qed

lemma two_four: "Suc (Suc 0) = 2" "Suc (Suc (Suc (Suc 0))) = 4"
  by simp_all

theorem shm_reader_accounting_witness:
  "let r = foldl (\<lambda>r (m, t). fst (publish_msg r m t))
             (create_or_fallback \<lparr>fs_is_dir = \<lambda>_. False, fs_open_sized = \<lambda>_ _. False, fs_tmp_path = []\<rparr> (config_for_tier Tier1MidRange) 1)
             [(MsgBbo bbo_default, 10), (MsgTrade trade_default, 20)]
   in drain_reader (try_read r) 4 0 slot_default = (0, [log_entry (MsgBbo bbo_default) 1, log_entry (MsgTrade trade_default) 2], 2)"
proof -
  have "is_power_of_two 4096" by (simp add: is_power_of_two_def upt_conv_Cons)
  then have "shm_capacity (create_or_fallback \<lparr>fs_is_dir = \<lambda>_. False, fs_open_sized = \<lambda>_ _. False, fs_tmp_path = []\<rparr> (config_for_tier Tier1MidRange) 1) = 4096"
    by (simp add: create_or_fallback_def init_memory_backed_def Let_def)
  then show ?thesis
    using shm_reader_accounting [of "config_for_tier Tier1MidRange" 0 "[(MsgBbo bbo_default, 10), (MsgTrade trade_default, 20)]"
        "\<lparr>fs_is_dir = \<lambda>_. False, fs_open_sized = \<lambda>_ _. False, fs_tmp_path = []\<rparr>" 1 slot_default]
    by (simp add: Let_def upt_conv_Cons two_four del: drain_reader.simps)
qed

text \<open>The const-generic ring promises the same for every power of two \<open>N\<close>.\<close>

theorem shm_flat_ring_accounting:
  assumes "shm_ring_new n pid = Ret r0" and "unat c \<le> length ms" and "length ms + n < 2 ^ 64"
  shows "drain_reader (rb_try_read n (foldl (\<lambda>r (m, t). fst (rb_publish_msg n r m t)) r0 ms)) (length ms + 2) c out =
    (length ms - unat c - n, map (\<lambda>i. log_entry (fst (ms ! i)) (i + 1)) [max (unat c) (length ms - n)..<length ms],
     of_nat (length ms))"
proof -
  let ?r = "foldl (\<lambda>r (m, t). fst (rb_publish_msg n r m t)) r0 ms"
  have "rb_holds n r0 []"
    using assms(1) by (auto simp: shm_ring_new_def rb_holds_def slots_hold_def shm_header_new_def split: if_splits)
  then have "rb_holds n ?r (map fst ms)"
    using flat.publish_all_holds [of n r0 "[]" ms] assms(3) by simp
  from flat.drain_all [OF this, of c out] assms(2,3) show ?thesis by simp
qed

theorem shm_flat_ring_accounting_witness:
  "\<exists>r0. shm_ring_new 1 9 = Ret r0 \<and>
     drain_reader (rb_try_read 1 (foldl (\<lambda>r (m, t). fst (rb_publish_msg 1 r m t)) r0 [(MsgBbo bbo_default, 10), (MsgTrade trade_default, 20)]))
       4 0 slot_default = (1, [log_entry (MsgTrade trade_default) 2], 2)"
proof -
  obtain r0 where r0: "shm_ring_new 1 9 = Ret r0"
    by (simp add: shm_ring_new_def is_power_of_two_def upt_conv_Cons)
  then show ?thesis
    using shm_flat_ring_accounting [OF r0, of 0 "[(MsgBbo bbo_default, 10), (MsgTrade trade_default, 20)]" slot_default]
    by (simp add: upt_conv_Cons two_four del: drain_reader.simps)
qed

text \<open>The sequence check does not detect every torn read: with the ring full and the reader exactly one
  lap behind, a writer that has overwritten the payload of the oldest slot but not yet its sequence number
  makes the read succeed with the new message's payload under the old message's sequence number.\<close>

theorem shm_torn_read_accepted:
  assumes "shm_holds r msgs" and "length msgs = unat c + shm_capacity r" and "length msgs + shm_capacity r < 2 ^ 64"
  shows "try_read (publish_payload r m) c out = (c + 1, log_entry m (unat c + 1), ReadOk) \<and>
    fst (publish_msg r m t) = publish_commit (publish_payload r m) t"
proof -
  let ?cap = "shm_capacity r" and ?h = "head_sequence (shm_header r)"
  have p2: "is_power_of_two ?cap" and h: "unat ?h = unat c + ?cap" and len: "length (shm_slots r) = ?cap"
    and msk: "shm_mask r = of_nat ?cap - 1"
    using assms by (simp_all add: shm_holds_def slots_hold_def)
  have pos: "0 < ?cap" using power_of_two_bounds [OF p2] by simp
  have h1: "unat (?h + 1) = unat c + ?cap + 1" and c1: "unat (c + 1) = unat c + 1"
    using assms(2,3) h pos unat_Suc_nowrap [of ?h] unat_Suc_nowrap [of c] by simp_all
  have same: "unat ((?h + 1) AND (of_nat ?cap - 1)) = unat ((c + 1) AND (of_nat ?cap - 1))"
    using mod_add_self2 [of "unat c + 1" ?cap] by (simp add: power_of_two_mask [OF p2] h1 c1)
  have idx: "unat ((c + 1) AND (of_nat ?cap - 1)) < ?cap" using pos by (simp add: power_of_two_mask [OF p2])
  have old: "slot_sequence (shm_slots r ! unat ((c + 1) AND (of_nat ?cap - 1))) = c + 1"
    using assms pos by (simp add: power_of_two_mask [OF p2] c1 shm_holds_def slots_hold_def log_entry_def)
  have seq: "slot_sequence (fill_msg m s) = slot_sequence s" for s
    by (cases m) (simp_all add: fill_msg_def fill_bbo_def fill_trade_def)
  have entry: "fill_msg m s = log_entry m (unat c + 1)" if "slot_sequence s = c + 1" for s
  proof -
    have "(fill_msg m s)\<lparr>slot_sequence := c + 1\<rparr> = fill_msg m s"
      using that seq [of s] by (cases "fill_msg m s") simp
    moreover have "of_nat (unat c + 1) = c + 1" by simp
    ultimately show ?thesis using fill_msg_entry [where m = m and slot = s and sq = "unat c + 1"] by metis
  qed
  have "unat (of_nat ?cap :: u64) = ?cap" using assms(3) by (intro unat_of_nat_small) simp
  then have cc: "unat (c + of_nat ?cap) = unat c + ?cap" using assms(2,3) by (subst unat_add_nowrap) simp_all
  have lt: "\<not> ?h \<le> c" "\<not> c + of_nat ?cap < ?h" using h cc pos by (simp_all add: word_le_nat_alt word_less_nat_alt)
  have slot: "shm_slots (publish_payload r m) ! unat ((c + 1) AND (of_nat ?cap - 1)) = log_entry m (unat c + 1)"
    using entry [OF old] same idx len msk by (simp add: publish_payload_def Let_def)
  moreover have "slot_sequence (log_entry m (unat c + 1)) = c + 1" by (simp add: log_entry_def)
  moreover have "shm_header (publish_payload r m) = shm_header r" "shm_capacity (publish_payload r m) = ?cap"
      "shm_mask (publish_payload r m) = shm_mask r" by (simp_all add: publish_payload_def Let_def)
  ultimately have "try_read (publish_payload r m) c out = (c + 1, log_entry m (unat c + 1), ReadOk)"
    using lt msk by (simp add: try_read_def Let_def)
  moreover have "fst (publish_msg r m t) = publish_commit (publish_payload r m) t"
    using same idx len msk by (intro publish_msg_split) simp
  ultimately show ?thesis by simp
qed

theorem shm_torn_read_accepted_witness:
  "\<exists>r. shm_holds r [MsgBbo bbo_default] \<and>
     try_read (publish_payload r (MsgTrade trade_default)) 0 slot_default = (1, log_entry (MsgTrade trade_default) 1, ReadOk)"
proof -
  let ?cfg = "\<lparr>cfg_tier = Tier1MidRange, cfg_capacity = 1, preferred_path = None, enable_hugetlb = False, enable_mlock = False\<rparr>"
  let ?new = "create_or_fallback \<lparr>fs_is_dir = \<lambda>_. False, fs_open_sized = \<lambda>_ _. False, fs_tmp_path = []\<rparr> ?cfg 1"
  have "is_power_of_two 1" by (simp add: is_power_of_two_def upt_conv_Cons)
  then have cap: "shm_capacity ?new = 1" by (simp add: create_or_fallback_def init_memory_backed_def Let_def)
  obtain r sq where p: "publish_msg ?new (MsgBbo bbo_default) 5 = (r, sq)" by fastforce
  have "shm_holds ?new []" by (intro conjunct1 [OF create_or_fallback_holds]) simp
  then have r: "shm_holds r [MsgBbo bbo_default]" "shm_capacity r = 1"
    using elastic.publish_holds [OF _ _ p, of "[]"] cap by simp_all
  show ?thesis using r shm_torn_read_accepted [OF r(1), of 0 "MsgTrade trade_default" slot_default] by auto
qed

end
