(* ===== verification/Ws_Codec.thy ===== *)
theory Ws_Codec
  imports Rust_Prelude
begin

text \<open>
  RFC 6455 framing of \<open>src/crates/distribution/src/websocket.rs\<close>: opcodes, the chunked unmasking, the
  header decoder and the frame encoder. A payload length is the 64-bit \<open>usize\<close> it is in the code. The
  unmasking reads the host's byte order, taken to be little-endian.
\<close>

section \<open>Data\<close>

datatype WsOpcode = Continuation | Text | Binary | WsClose | WsPing | WsPong

fun opcode_code :: "WsOpcode \<Rightarrow> u8" where
  "opcode_code Continuation = 0x0"
| "opcode_code Text = 0x1"
| "opcode_code Binary = 0x2"
| "opcode_code WsClose = 0x8"
| "opcode_code WsPing = 0x9"
| "opcode_code WsPong = 0xA"

definition opcode_from_u8 :: "u8 \<Rightarrow> WsOpcode option" where
  "opcode_from_u8 val =
     (let v = val AND 0x0F
      in if v = 0x0 then Some Continuation else if v = 0x1 then Some Text else if v = 0x2 then Some Binary
         else if v = 0x8 then Some WsClose else if v = 0x9 then Some WsPing else if v = 0xA then Some WsPong
         else None)"

datatype WsError =
    WsBufferTooSmall nat nat  \<comment> \<open>required, provided\<close>
  | IncompleteFrame
  | InvalidOpcode u8
  | MaskingRequired
  | InvalidPayloadLength
  | InvalidCommand
  | WsClientNotFound u32

record WsFrameHeader =
  fin :: bool
  opcode :: WsOpcode
  masked :: bool
  payload_len :: u64
  mask_key :: bytes
  header_len :: u64

section \<open>Operations\<close>

text \<open>The loop over \<open>chunks_exact_mut(8)\<close>.\<close>

fun unmask_chunks :: "u64 \<Rightarrow> bytes \<Rightarrow> bytes" where
  "unmask_chunks m p =
     (if length p \<ge> 8
      then to_le 8 ((from_le (take 8 p) :: u64) XOR m) @ unmask_chunks m (drop 8 p)
      else [])"

declare unmask_chunks.simps [simp del]

definition unmask_payload :: "bytes \<Rightarrow> bytes \<Rightarrow> bytes" where
  "unmask_payload payload msk =
     (let mask_u32 = (from_le msk :: u32);
          mask_u64 = push_bit 32 (ucast mask_u32) OR ucast mask_u32;
          rem_bytes = drop (length payload div 8 * 8) payload;
          offset = length payload - length rem_bytes
      in unmask_chunks mask_u64 payload
         @ map (\<lambda>(i, byte). byte XOR msk ! ((offset + i) mod 4)) (enumerate 0 rem_bytes))"

definition decode_ws_frame_header :: "bytes \<Rightarrow> WsError + WsFrameHeader" where
  "decode_ws_frame_header buf =
     (if length buf < 2 then Inl IncompleteFrame
      else let b0 = buf ! 0; is_fin = (b0 AND 0x80 \<noteq> 0)
           in case opcode_from_u8 b0 of
                None \<Rightarrow> Inl (InvalidOpcode (b0 AND 0x0F))
              | Some op \<Rightarrow>
                  let b1 = buf ! 1; is_masked = (b1 AND 0x80 \<noteq> 0); len_byte = b1 AND 0x7F;
                      lens = (if len_byte = 126
                              then if length buf < 4 then None
                                   else Some (4 :: nat, ucast (from_be (subslice buf 2 2) :: u16))
                              else if len_byte = 127
                              then if length buf < 10 then None
                                   else Some (10, from_be (subslice buf 2 8) :: u64)
                              else Some (2, ucast len_byte))
                  in case lens of
                       None \<Rightarrow> Inl IncompleteFrame
                     | Some (hlen, plen) \<Rightarrow>
                         if is_masked
                         then if length buf < hlen + 4 then Inl IncompleteFrame
                              else Inr \<lparr>fin = is_fin, opcode = op, masked = is_masked, payload_len = plen,
                                        mask_key = subslice buf hlen 4, header_len = of_nat (hlen + 4)\<rparr>
                         else Inr \<lparr>fin = is_fin, opcode = op, masked = is_masked, payload_len = plen,
                                   mask_key = [0, 0, 0, 0], header_len = of_nat hlen\<rparr>)"

definition encode_ws_frame :: "WsOpcode \<Rightarrow> bytes \<Rightarrow> bytes \<Rightarrow> WsError + nat \<times> bytes" where
  "encode_ws_frame op payload out =
     (let plen = length payload;
          hlen = (if plen < 126 then 2 else if plen \<le> 0xFFFF then 4 else 10);
          total_len = hlen + plen
      in if length out < total_len then Inl (WsBufferTooSmall total_len (length out))
         else let out = out[0 := 0x80 OR opcode_code op];
                  out = (if plen < 126 then out[1 := of_nat plen]
                         else if plen \<le> 0xFFFF
                         then write_at (out[1 := 126]) 2 (to_be 2 (of_nat plen :: u16))
                         else write_at (out[1 := 127]) 2 (to_be 8 (of_nat plen :: u64)));
                  out = write_at out hlen payload
              in Inr (total_len, out))"

section \<open>Unmasking\<close>

text \<open>The reference: byte \<open>i\<close> is combined with byte \<open>i mod 4\<close> of the key.\<close>

definition xor_mask :: "bytes \<Rightarrow> bytes \<Rightarrow> bytes" where
  "xor_mask msk p = map (\<lambda>i. p ! i XOR msk ! (i mod 4)) [0..<length p]"

lemma to_le_xor: "to_le n (x XOR y) = map2 (XOR) (to_le n x) (to_le n y)"
proof (induction n arbitrary: x y)
  case (Suc n)
  have "ucast (x XOR y) = (ucast x XOR ucast y :: u8)" by (rule bit_word_eqI) (auto simp: bit_simps)
  moreover have "drop_bit 8 (x XOR y) = drop_bit 8 x XOR drop_bit 8 y" by (rule bit_word_eqI) (auto simp: bit_simps)
  ultimately show ?case using Suc by simp
qed simp

lemma to_le_append: "to_le (m + n) w = to_le m w @ to_le n (drop_bit (8 * m) w)"
  by (induction m arbitrary: w) (simp_all add: ac_simps)

lemma to_le_ucast_4: "to_le 4 (ucast (x :: u32) :: u64) = to_le 4 x"
proof -
  have "ucast (drop_bit k (ucast x :: u64)) = (ucast (drop_bit k x) :: u8)" for k
    by (rule bit_word_eqI) (auto simp: bit_simps dest: bit_imp_le_length)
  from this [of 0] this [of 8] this [of 16] this [of 24] show ?thesis
    by (simp add: eval_nat_numeral)
qed

lemma mask_u64_bytes:
  assumes "length msk = 4"
  shows "to_le 8 (push_bit 32 (ucast (from_le msk :: u32)) OR ucast (from_le msk :: u32) :: u64) = msk @ msk"
proof -
  let ?m = "from_le msk :: u32" and ?w = "push_bit 32 (ucast (from_le msk :: u32)) OR ucast (from_le msk :: u32) :: u64"
  have m: "to_le 4 ?m = msk" using to_le_from_le [of msk, where 'a = 32] assms by simp
  have "drop_bit 32 ?w = ucast ?m" by (rule bit_word_eqI) (auto simp: bit_simps dest: bit_imp_le_length)
  then have hi: "to_le 4 (drop_bit (8 * 4) ?w) = msk" by (simp add: to_le_ucast_4 m)
  have "ucast (drop_bit k ?w) = (ucast (drop_bit k (ucast ?m :: u64)) :: u8)" if "k \<le> 24" for k
    using that by (intro bit_word_eqI) (auto simp: bit_simps dest: bit_imp_le_length)
  from this [of 0] this [of 8] this [of 16] this [of 24]
  have "to_le 4 ?w = to_le 4 (ucast ?m :: u64)" by (simp add: eval_nat_numeral)
  then have lo: "to_le 4 ?w = msk" by (simp add: to_le_ucast_4 m)
  show ?thesis using to_le_append [of 4 4 ?w] lo hi by simp
qed

lemma unmask_chunk:
  assumes "length msk = 4" "length p = 8"
  shows "to_le 8 ((from_le p :: u64) XOR (push_bit 32 (ucast (from_le msk :: u32)) OR ucast (from_le msk :: u32))) = xor_mask msk p"
proof -
  have "to_le 8 (from_le p :: u64) = p" using to_le_from_le [of p, where 'a = 64] assms by simp
  then have "to_le 8 ((from_le p :: u64) XOR (push_bit 32 (ucast (from_le msk :: u32)) OR ucast (from_le msk :: u32))) = map2 (XOR) p (msk @ msk)"
    by (simp add: to_le_xor mask_u64_bytes [OF assms(1)])
  also have "\<dots> = xor_mask msk p"
  proof (rule nth_equalityI)
    fix i assume "i < length (map2 (XOR) p (msk @ msk))"
    then have i: "i < 8" using assms by simp
    then have "(msk @ msk) ! i = msk ! (i mod 4)"
      using assms by (auto simp: nth_append mod_if)
    then show "map2 (XOR) p (msk @ msk) ! i = xor_mask msk p ! i" using i assms by (simp add: xor_mask_def)
  qed (use assms in \<open>simp add: xor_mask_def\<close>)
  finally show ?thesis .
qed

lemma xor_mask_twice: "xor_mask msk (xor_mask msk p) = p"
  by (rule nth_equalityI) (simp_all add: xor_mask_def xor.assoc)

lemma xor_mask_append:
  "length p mod 4 = 0 \<Longrightarrow> xor_mask msk (p @ q) = xor_mask msk p @ xor_mask msk q"
proof (rule nth_equalityI)
  fix i assume mod: "length p mod 4 = 0" and i: "i < length (xor_mask msk (p @ q))"
  have "i mod 4 = (i - length p) mod 4" if "length p \<le> i"
    using mod that by (metis add_diff_inverse_nat add_0 mod_add_left_eq not_less)
  then show "xor_mask msk (p @ q) ! i = (xor_mask msk p @ xor_mask msk q) ! i"
    using i by (auto simp: xor_mask_def nth_append)
qed (simp add: xor_mask_def)

lemma unmask_chunks_xor:
  assumes "length msk = 4"
  shows "unmask_chunks (push_bit 32 (ucast (from_le msk :: u32)) OR ucast (from_le msk :: u32)) p =
    xor_mask msk (take (length p div 8 * 8) p)"
proof (induction p rule: length_induct)
  case (1 p)
  let ?m = "push_bit 32 (ucast (from_le msk :: u32)) OR ucast (from_le msk :: u32) :: u64"
  show ?case
  proof (cases "length p \<ge> 8")
    case True
    have "length (drop 8 p) div 8 * 8 + 8 = length p div 8 * 8" using True by (simp add: le_div_geq)
    then have "take (length p div 8 * 8) p = take 8 p @ take (length (drop 8 p) div 8 * 8) (drop 8 p)"
      by (metis add.commute take_add)
    then have "xor_mask msk (take (length p div 8 * 8) p) =
        xor_mask msk (take 8 p) @ xor_mask msk (take (length (drop 8 p) div 8 * 8) (drop 8 p))"
      using True by (simp add: xor_mask_append)
    then show ?thesis
      using True 1 unmask_chunk [OF assms, of "take 8 p"] by (simp add: unmask_chunks.simps [of _ p])
  next
    case False
    then show ?thesis by (simp add: unmask_chunks.simps [of _ p] xor_mask_def)
  qed
qed

lemma unmask_payload_xor:
  assumes "length msk = 4"
  shows "unmask_payload p msk = xor_mask msk p"
proof -
  let ?n = "length p div 8 * 8"
  have n: "?n \<le> length p" by simp
  have "map (\<lambda>(i, byte). byte XOR msk ! ((?n + i) mod 4)) (enumerate 0 (drop ?n p)) = xor_mask msk (drop ?n p)"
  proof (rule nth_equalityI)
    fix i assume "i < length (map (\<lambda>(i, byte). byte XOR msk ! ((?n + i) mod 4)) (enumerate 0 (drop ?n p)))"
    moreover have "(?n + i) mod 4 = i mod 4" using mod_mult_self3 [of "length p div 8 * 2" 4 i] by (simp add: mult.assoc)
    ultimately show "map (\<lambda>(i, byte). byte XOR msk ! ((?n + i) mod 4)) (enumerate 0 (drop ?n p)) ! i = xor_mask msk (drop ?n p) ! i"
      by (simp add: xor_mask_def nth_enumerate_eq)
  qed (simp add: xor_mask_def)
  moreover have "xor_mask msk p = xor_mask msk (take ?n p) @ xor_mask msk (drop ?n p)"
    using xor_mask_append [of "take ?n p" msk "drop ?n p"] n by (simp add: mod_mult_left_eq min_absorb2)
  ultimately show ?thesis
    using unmask_chunks_xor [OF assms, of p] n by (simp add: unmask_payload_def Let_def)
qed

section \<open>Frames\<close>

text \<open>The image of a frame with a given first byte, mask bit and key.\<close>

definition len_header :: "nat \<Rightarrow> u8 \<Rightarrow> bytes" where
  "len_header n mask_bit =
     (if n < 126 then [mask_bit OR of_nat n]
      else if n \<le> 0xFFFF then (mask_bit OR 126) # to_be 2 (of_nat n :: u16)
      else (mask_bit OR 127) # to_be 8 (of_nat n :: u64))"

text \<open>A server frame is unmasked; a client frame (RFC 6455, 5.3) carries the key and the masked payload.\<close>

definition server_frame :: "WsOpcode \<Rightarrow> bytes \<Rightarrow> bytes" where
  "server_frame op payload = (0x80 OR opcode_code op) # len_header (length payload) 0 @ payload"

definition client_frame :: "WsOpcode \<Rightarrow> bytes \<Rightarrow> bytes \<Rightarrow> bytes" where
  "client_frame op key payload = (0x80 OR opcode_code op) # len_header (length payload) 0x80 @ key @ xor_mask key payload"

lemma length_len_header [simp]: "length (len_header n b) = (if n < 126 then 1 else if n \<le> 0xFFFF then 3 else 9)"
  by (simp add: len_header_def)

lemma length_server_frame:
  "length (server_frame op payload) = (if length payload < 126 then 2 else if length payload \<le> 0xFFFF then 4 else 10) + length payload"
  by (simp add: server_frame_def)

lemma drop_two: "drop (4 + k) (x # y # zs) = drop (2 + k) zs" "drop (10 + k) (x # y # zs) = drop (8 + k) zs"
  by (simp_all add: drop_Cons')

lemma encode_ws_frame_image:
  "encode_ws_frame op payload out =
     (if length out < length (server_frame op payload)
      then Inl (WsBufferTooSmall (length (server_frame op payload)) (length out))
      else Inr (length (server_frame op payload),
                server_frame op payload @ drop (length (server_frame op payload)) out))"
proof (cases "length out < length (server_frame op payload)")
  case True
  then show ?thesis by (simp add: encode_ws_frame_def Let_def length_server_frame)
next
  case False
  then obtain a b rest where out: "out = a # b # rest"
    by (cases out; cases "tl out") (auto simp: length_server_frame split: if_splits)
  consider (s) "length payload < 126" | (m) "126 \<le> length payload" "length payload \<le> 0xFFFF" | (l) "0xFFFF < length payload"
    by linarith
  then show ?thesis
    using False
    by cases (simp_all add: encode_ws_frame_def Let_def length_server_frame out write_at_def,
        simp_all add: server_frame_def len_header_def drop_two)
qed

lemma opcode_byte:
  "opcode_from_u8 (0x80 OR opcode_code op) = Some op" "(0x80 OR opcode_code op) AND 0x80 \<noteq> 0"
  by (cases op; simp add: opcode_from_u8_def)+

lemma small_len_table:
  "list_all (\<lambda>n. (of_nat n :: u8) AND 0x7F = of_nat n \<and> (of_nat n :: u8) AND 0x80 = 0 \<and>
     (0x80 OR of_nat n :: u8) AND 0x7F = of_nat n \<and> (0x80 OR of_nat n :: u8) AND 0x80 \<noteq> 0) [0..<126]"
  by code_simp

lemma small_len_byte:
  assumes "n < 126"
  shows "(of_nat n :: u8) AND 0x7F = of_nat n" "(of_nat n :: u8) AND 0x80 = 0"
    "(0x80 OR of_nat n :: u8) AND 0x7F = of_nat n" "(0x80 OR of_nat n :: u8) AND 0x80 \<noteq> 0"
    "(of_nat n :: u8) \<noteq> 126" "(of_nat n :: u8) \<noteq> 127" "(ucast (of_nat n :: u8) :: u64) = of_nat n"
proof -
  have u: "unat (of_nat n :: u8) = n" using assms by (intro unat_of_nat_small) simp
  show "(of_nat n :: u8) \<noteq> 126" "(of_nat n :: u8) \<noteq> 127"
    using u assms arg_cong [where f = unat, of "of_nat n :: u8" 126] arg_cong [where f = unat, of "of_nat n :: u8" 127] by auto
  show "(ucast (of_nat n :: u8) :: u64) = of_nat n"
    using u assms by (simp add: word_unat_eq_iff unat_of_nat_small)
qed (use small_len_table assms in \<open>auto simp: list_all_iff\<close>)

lemma len_header_fields:
  "len_header n b ! 0 = (if n < 126 then b OR of_nat n else if n \<le> 0xFFFF then b OR 126 else b OR 127)"
  by (simp add: len_header_def)

text \<open>What the decoder reads back from the image of a frame.\<close>

lemma decode_server_frame:
  assumes "length payload < 2 ^ 64"
  shows "decode_ws_frame_header (server_frame op payload @ rest) =
    Inr \<lparr>fin = True, opcode = op, masked = False, payload_len = of_nat (length payload), mask_key = [0, 0, 0, 0],
         header_len = of_nat (length (server_frame op payload) - length payload)\<rparr>"
proof -
  consider (s) "length payload < 126" | (m) "126 \<le> length payload" "length payload \<le> 0xFFFF" | (l) "0xFFFF < length payload"
    by linarith
  then show ?thesis
  proof cases
    case s
    then show ?thesis
      by (simp add: decode_ws_frame_header_def server_frame_def len_header_def Let_def opcode_byte small_len_byte)
  next
    case m
    have "(ucast (of_nat (length payload) :: u16) :: u64) = of_nat (length payload)"
      using m by (simp add: word_unat_eq_iff unat_of_nat_small)
    then show ?thesis
      using m by (simp add: decode_ws_frame_header_def server_frame_def len_header_def Let_def opcode_byte subslice_def)
  next
    case l
    then show ?thesis
      by (simp add: decode_ws_frame_header_def server_frame_def len_header_def Let_def opcode_byte subslice_def)
  qed
qed

lemma decode_client_frame:
  assumes "length payload < 2 ^ 64" "length key = 4"
  shows "decode_ws_frame_header (client_frame op key payload @ rest) =
    Inr \<lparr>fin = True, opcode = op, masked = True, payload_len = of_nat (length payload), mask_key = key,
         header_len = of_nat (length (client_frame op key payload) - length payload)\<rparr>"
proof -
  have len: "length (xor_mask key payload) = length payload" by (simp add: xor_mask_def)
  consider (s) "length payload < 126" | (m) "126 \<le> length payload" "length payload \<le> 0xFFFF" | (l) "0xFFFF < length payload"
    by linarith
  then show ?thesis
  proof cases
    case s
    then show ?thesis
      using assms(2) len
      by (simp add: decode_ws_frame_header_def client_frame_def len_header_def Let_def opcode_byte small_len_byte subslice_def)
  next
    case m
    have "(ucast (of_nat (length payload) :: u16) :: u64) = of_nat (length payload)"
      using m by (simp add: word_unat_eq_iff unat_of_nat_small)
    then show ?thesis
      using m assms(2) len
      by (simp add: decode_ws_frame_header_def client_frame_def len_header_def Let_def opcode_byte subslice_def)
  next
    case l
    then show ?thesis
      using assms(2) len
      by (simp add: decode_ws_frame_header_def client_frame_def len_header_def Let_def opcode_byte subslice_def)
  qed
qed

section \<open>Properties\<close>

text \<open>The vectorised unmasking, 64 bits at a time with a bytewise tail, is the RFC's bytewise definition
  for payloads of every length, and applying it twice with the same key restores the payload.\<close>

theorem unmask_payload_bytewise:
  assumes "length key = 4"
  shows "unmask_payload payload key = map (\<lambda>i. payload ! i XOR key ! (i mod 4)) [0..<length payload] \<and>
    unmask_payload (unmask_payload payload key) key = payload"
proof -
  have "xor_mask key (xor_mask key payload) = payload" by (rule xor_mask_twice)
  then show ?thesis using unmask_payload_xor [OF assms] by (simp add: xor_mask_def)
qed

theorem unmask_payload_bytewise_witness:
  "unmask_payload (unmask_payload [1, 2, 3, 4, 5, 6, 7, 8, 9, 10, 11] [17, 34, 51, 68]) [17, 34, 51, 68]
     = [1, 2, 3, 4, 5, 6, 7, 8, 9, 10, 11]"
  by (rule conjunct2 [OF unmask_payload_bytewise]) simp

text \<open>C18: Frames round-trip in all three length formats: encoding a payload into a large enough buffer
  writes a frame whose header decodes to the same opcode and length with the final bit set and no mask,
  and whose payload follows the header; a buffer that is too small is refused with both sizes and left
  unwritten.\<close>

theorem ws_frame_roundtrip:
  assumes "length payload < 2 ^ 64"
  shows "(case encode_ws_frame op payload out of
      Inl e \<Rightarrow> length out < length (server_frame op payload) \<and> e = WsBufferTooSmall (length (server_frame op payload)) (length out)
    | Inr (n, out') \<Rightarrow> n \<le> length out \<and> length out' = length out \<and>
        (case decode_ws_frame_header (take n out') of
           Inl _ \<Rightarrow> False
         | Inr h \<Rightarrow> fin h \<and> opcode h = op \<and> \<not> masked h \<and> unat (payload_len h) = length payload \<and>
             unat (header_len h) + length payload = n \<and> drop (unat (header_len h)) (take n out') = payload))"
proof (cases "length out < length (server_frame op payload)")
  case True
  then show ?thesis by (simp add: encode_ws_frame_image)
next
  case False
  let ?f = "server_frame op payload"
  let ?h = "length ?f - length payload"
  have h: "?h = (if length payload < 126 then 2 else if length payload \<le> 0xFFFF then 4 else 10)"
    by (simp add: length_server_frame)
  have "drop ?h ?f = payload"
    by (simp add: h) (simp add: server_frame_def len_header_def)
  moreover have "unat (of_nat ?h :: u64) = ?h" by (intro unat_of_nat_small) (simp add: h)
  moreover have "unat (of_nat (length payload) :: u64) = length payload" using assms by (intro unat_of_nat_small) simp
  moreover have "?h + length payload = length ?f" by (simp add: length_server_frame)
  ultimately show ?thesis
    using False decode_server_frame [OF assms, of op "[]"] by (simp add: encode_ws_frame_image)
qed

theorem ws_frame_roundtrip_witness:
  "\<exists>n out'. encode_ws_frame Text [104, 105] (replicate 4 0) = Inr (n, out') \<and> n = 4 \<and>
     (\<exists>h. decode_ws_frame_header (take n out') = Inr h \<and> opcode h = Text \<and> unat (payload_len h) = 2)"
  using ws_frame_roundtrip [where payload = "[104, 105]" and op = Text and out = "replicate 4 0"]
  by (simp add: encode_ws_frame_image length_server_frame split: sum.splits)

end
