(* ===== verification/Byte_Scan.thy ===== *)
theory Byte_Scan
  imports Fixed_Point
begin

text \<open>
  What the scanners share (the client commands of \<open>websocket.rs\<close>, the field extractors of \<open>cefi-ingest\<close>,
  the health probes and the hardware probe): digits, prefixes, the text behind the first occurrence of a
  pattern, and how it passes over texts in which the pattern cannot start.
\<close>

section \<open>Digits\<close>

definition is_ascii_digit :: "u8 \<Rightarrow> bool" where
  "is_ascii_digit b \<longleftrightarrow> 48 \<le> b \<and> b \<le> 57"

lemma dec_bytes: "list_all (\<lambda>b. 48 \<le> b \<and> b \<le> 57) (dec n)"
proof -
  obtain ds where "dec n = ascii ds" "digits ds" using dec_ascii by blast
  then show ?thesis using digit_byte(1,2) by (auto simp: ascii_def digits_def list_all_iff)
qed

lemma takeWhile_dec:
  "\<not> is_ascii_digit c \<Longrightarrow> takeWhile is_ascii_digit (dec n @ c # rest) = dec n"
  using dec_bytes [of n] by (subst takeWhile_append2) (auto simp: list_all_iff is_ascii_digit_def)

section \<open>Prefixes\<close>

definition starts_with :: "bytes \<Rightarrow> bytes \<Rightarrow> bool" where
  "starts_with s pat \<longleftrightarrow> take (length pat) s = pat"

section \<open>Behind a pattern\<close>

text \<open>The text behind the first occurrence of a pattern.\<close>

definition str_after :: "bytes \<Rightarrow> bytes \<Rightarrow> bytes option" where
  "str_after pat s = map_option (\<lambda>k. drop (k + length pat) s) (str_find pat s)"

lemma str_after_Cons:
  "str_after pat (c # cs) = (if take (length pat) (c # cs) = pat then Some (drop (length pat) (c # cs)) else str_after pat cs)"
  by (cases "str_find pat cs") (auto simp: str_after_def)

lemma str_after_skip:
  assumes "pat = c # pat'" and "c \<notin> set xs"
  shows "str_after pat (xs @ ys) = str_after pat ys"
  using assms by (cases "str_find pat ys") (simp_all add: str_after_def str_find_skip)

lemma str_after_dec:
  assumes "pat = 34 # pat'"
  shows "str_after pat (dec n @ ys) = str_after pat ys"
  using dec_bytes [of n] by (intro str_after_skip [OF assms]) (auto simp: list_all_iff dest!: bspec)

lemma str_after_Nil: "pat = 34 # pat' \<Longrightarrow> str_after pat [] = None"
  by (simp add: str_after_def)

lemma str_contains_after: "str_contains pat s \<longleftrightarrow> str_after pat s \<noteq> None"
  by (simp add: str_contains_def str_after_def)

end
