(* ===== verification/Ws_Engine.thy ===== *)
theory Ws_Engine
  imports Ws_Codec Router_Dispatch Byte_Scan
begin

text \<open>
  The command scanner and the server engine of \<open>src/crates/distribution/src/websocket.rs\<close>: inbound
  frames with their replies, and the broadcasts, which frame each payload once per protocol. A handler
  returns the router, the frames it sends and its result; a slice out of range is \<open>Panic\<close>.
\<close>

section \<open>Text\<close>

definition is_cont :: "u8 \<Rightarrow> bool" where "is_cont b \<longleftrightarrow> 0x80 \<le> b \<and> b \<le> 0xBF"

text \<open>\<open>std::str::from_utf8\<close> accepts exactly the well-formed sequences.\<close>

fun utf8_valid :: "bytes \<Rightarrow> bool" where
  "utf8_valid [] = True"
| "utf8_valid (a # s) =
     (if a < 0x80 then utf8_valid s
      else if 0xC2 \<le> a \<and> a \<le> 0xDF
      then (case s of b # s1 \<Rightarrow> is_cont b \<and> utf8_valid s1 | _ \<Rightarrow> False)
      else if 0xE0 \<le> a \<and> a \<le> 0xEF
      then (case s of b # c # s1 \<Rightarrow>
              (if a = 0xE0 then 0xA0 \<le> b \<and> b \<le> 0xBF
               else if a = 0xED then 0x80 \<le> b \<and> b \<le> 0x9F else is_cont b)
              \<and> is_cont c \<and> utf8_valid s1 | _ \<Rightarrow> False)
      else if 0xF0 \<le> a \<and> a \<le> 0xF4
      then (case s of b # c # d # s1 \<Rightarrow>
              (if a = 0xF0 then 0x90 \<le> b \<and> b \<le> 0xBF
               else if a = 0xF4 then 0x80 \<le> b \<and> b \<le> 0x8F else is_cont b)
              \<and> is_cont c \<and> is_cont d \<and> utf8_valid s1 | _ \<Rightarrow> False)
      else False)"

text \<open>\<open>trim_start\<close> drops the characters with the Unicode property \<open>White_Space\<close>.\<close>

fun trim_start :: "bytes \<Rightarrow> bytes" where
  "trim_start [] = []"
| "trim_start (a # s) =
     (if (0x09 \<le> a \<and> a \<le> 0x0D) \<or> a = 0x20 then trim_start s
      else case s of
        b # s1 \<Rightarrow>
          if a = 0xC2 \<and> (b = 0x85 \<or> b = 0xA0) then trim_start s1
          else (case s1 of
                  c # s2 \<Rightarrow>
                    if (a = 0xE1 \<and> b = 0x9A \<and> c = 0x80)
                       \<or> (a = 0xE2 \<and> b = 0x80 \<and> ((0x80 \<le> c \<and> c \<le> 0x8A) \<or> c = 0xA8 \<or> c = 0xA9 \<or> c = 0xAF))
                       \<or> (a = 0xE2 \<and> b = 0x81 \<and> c = 0x9F) \<or> (a = 0xE3 \<and> b = 0x80 \<and> c = 0x80)
                    then trim_start s2 else a # s
                | [] \<Rightarrow> a # s)
      | [] \<Rightarrow> a # s)"

text \<open>\<open>parse::<u64>\<close> on a nonempty run of digits: an error when the number does not fit.\<close>

definition parse_u64 :: "bytes \<Rightarrow> u64 option" where
  "parse_u64 ds = (let v = foldl (\<lambda>r b. 10 * r + unat (b - 48)) 0 ds in if v < 2 ^ 64 then Some (of_nat v) else None)"

section \<open>Commands\<close>

datatype ClientCommand =
    CmdSubscribe TopicKey | CmdUnsubscribe TopicKey | CmdFilter ClientFilterPredicate | CmdPing | CmdPong

definition extract_json_u64 :: "bytes \<Rightarrow> string \<Rightarrow> u64 option" where
  "extract_json_u64 s key =
     (let pattern1 = bstr (''\"'' @ key @ ''\":'');
          pattern2 = bstr (''\"'' @ key @ ''\" :'')
      in case (case str_find pattern1 s of Some p \<Rightarrow> Some p | None \<Rightarrow> str_find pattern2 s) of
           None \<Rightarrow> None
         | Some pos \<Rightarrow>
             let start = pos + length pattern1;
                 sl = trim_start (drop start s);
                 ds = takeWhile is_ascii_digit sl
             in if length ds > 0 then parse_u64 ds else None)"

definition has_action :: "bytes \<Rightarrow> string \<Rightarrow> bool" where
  "has_action s action \<longleftrightarrow> str_contains (bstr (''\"action\":\"'' @ action @ ''\"'')) s
     \<or> str_contains (bstr (''\"action\": \"'' @ action @ ''\"'')) s"

text \<open>The fields of a topic, each with the early return of \<open>?\<close>.\<close>

definition command_topic :: "bytes \<Rightarrow> u32 \<Rightarrow> TopicKey option" where
  "command_topic s flags =
     (case extract_json_u64 s ''venue'' of None \<Rightarrow> None | Some venue \<Rightarrow>
      case extract_json_u64 s ''market_id'' of None \<Rightarrow> None | Some market_id \<Rightarrow>
      case extract_json_u64 s ''stream_type'' of None \<Rightarrow> None | Some stream_type \<Rightarrow>
        Some (topic_new (ucast venue) (ucast market_id) (ucast stream_type) flags))"

definition parse_client_command :: "bytes \<Rightarrow> ClientCommand option" where
  "parse_client_command s =
     (if \<not> utf8_valid s then None
      else if has_action s ''ping'' then Some CmdPing
      else if has_action s ''pong'' then Some CmdPong
      else if has_action s ''subscribe''
      then map_option CmdSubscribe
             (command_topic s (ucast (case extract_json_u64 s ''flags'' of Some f \<Rightarrow> f | None \<Rightarrow> 0)))
      else if has_action s ''unsubscribe'' then map_option CmdUnsubscribe (command_topic s 0)
      else None)"

section \<open>The engine\<close>

record WebSocketServerEngine =
  router :: InvertedTopicRouter

definition engine_new :: WebSocketServerEngine where
  "engine_new = \<lparr>router = router_new\<rparr>"

definition handle_client_connect ::
  "WebSocketServerEngine \<Rightarrow> u32 \<Rightarrow> WireProtocol \<Rightarrow> u32 \<Rightarrow> u32 \<Rightarrow> u64 \<Rightarrow> WebSocketServerEngine \<times> (WsError + u32)" where
  "handle_client_connect e client_id proto rate_per_sec burst now_ms =
     (let session = session_new client_id proto rate_per_sec burst now_ms
      in case register_client (router e) session of
           (r, Inr cid) \<Rightarrow> (e\<lparr>router := r\<rparr>, Inr cid)
         | (r, Inl _) \<Rightarrow> (e\<lparr>router := r\<rparr>, Inl (WsClientNotFound client_id)))"

definition handle_client_disconnect :: "WebSocketServerEngine \<Rightarrow> u32 \<Rightarrow> WebSocketServerEngine" where
  "handle_client_disconnect e client_id = e\<lparr>router := fst (unregister_client (router e) client_id)\<rparr>"

type_synonym handled = "WebSocketServerEngine \<times> bytes list \<times> (WsError + unit)"

text \<open>Encode a reply into a fresh buffer of the given size and send it, or return the encoder's error.\<close>

definition reply :: "WebSocketServerEngine \<Rightarrow> WsOpcode \<Rightarrow> bytes \<Rightarrow> nat \<Rightarrow> handled" where
  "reply e op payload buf_size =
     (case encode_ws_frame op payload (replicate buf_size 0) of
        Inl err \<Rightarrow> (e, [], Inl err)
      | Inr (len, buf) \<Rightarrow> (e, [take len buf], Inr ()))"

text \<open>A small JSON object built with the writer, whose results the code ignores.\<close>

definition json_note :: "string \<Rightarrow> u64 \<Rightarrow> nat \<Rightarrow> bytes" where
  "json_note prefix value buf_size =
     (let w = writer_new (replicate buf_size 0);
          w = snd (write_str prefix w);
          w = snd (write_u64 value w);
          w = snd (write_str ''}'' w)
      in take (jw_pos w) (jw_buf w))"

definition handle_command :: "WebSocketServerEngine \<Rightarrow> u32 \<Rightarrow> ClientCommand \<Rightarrow> u64 \<Rightarrow> handled" where
  "handle_command e client_id cmd now_ms =
     (case cmd of
        CmdSubscribe topic \<Rightarrow>
          (case subscribe (router e) client_id topic of
             (r, Inl _) \<Rightarrow> (e\<lparr>router := r\<rparr>, [], Inl (WsClientNotFound client_id))
           | (r, Inr _) \<Rightarrow>
               reply (e\<lparr>router := r\<rparr>) Text (json_note ''{\"type\":\"subscribed\",\"topic\":'' (topic_bits topic) 128) 256)
      | CmdUnsubscribe topic \<Rightarrow>
          (case unsubscribe (router e) client_id topic of
             (r, Inl _) \<Rightarrow> (e\<lparr>router := r\<rparr>, [], Inl (WsClientNotFound client_id))
           | (r, Inr _) \<Rightarrow> (e\<lparr>router := r\<rparr>, [], Inr ()))
      | CmdPing \<Rightarrow> reply e Text (json_note ''{\"type\":\"pong\",\"ts\":'' now_ms 64) 128
      | _ \<Rightarrow> (e, [], Inr ()))"

definition handle_inbound_frame :: "WebSocketServerEngine \<Rightarrow> u32 \<Rightarrow> bytes \<Rightarrow> u64 \<Rightarrow> handled outcome" where
  "handle_inbound_frame e client_id frame_bytes now_ms =
     (case decode_ws_frame_header frame_bytes of
        Inl err \<Rightarrow> Ret (e, [], Inl err)
      | Inr header \<Rightarrow>
          let total_required = header_len header + payload_len header
          in if length frame_bytes < unat total_required then Ret (e, [], Inl IncompleteFrame)
             else if total_required < header_len header then Panic
             else let payload = subslice frame_bytes (unat (header_len header))
                                  (unat total_required - unat (header_len header));
                      payload = (if masked header then unmask_payload payload (mask_key header) else payload)
                  in Ret (case opcode header of
                       WsPing \<Rightarrow> reply e WsPong payload 256
                     | WsPong \<Rightarrow> (e, [], Inr ())
                     | WsClose \<Rightarrow> reply (handle_client_disconnect e client_id) WsClose [] 16
                     | Text \<Rightarrow>
                         (case parse_client_command payload of
                            None \<Rightarrow> (e, [], Inr ())
                          | Some cmd \<Rightarrow> handle_command e client_id cmd now_ms)
                     | _ \<Rightarrow> (e, [], Inr ())))"

section \<open>Broadcasts\<close>

text \<open>The two frame caches of a broadcast and the frames sent so far.\<close>

record frame_cache =
  framed_sbe :: bytes
  sbe_cached_len :: nat
  framed_json :: bytes
  json_cached_len :: nat
  frames_sent :: "(u32 \<times> bytes) list"

definition frame_cache_new :: frame_cache where
  "frame_cache_new = \<lparr>framed_sbe = replicate 256 0, sbe_cached_len = 0, framed_json = replicate 1024 0,
     json_cached_len = 0, frames_sent = []\<rparr>"

definition send_framed :: "frame_cache \<Rightarrow> delivery \<Rightarrow> frame_cache" where
  "send_framed st = (\<lambda>(client_id, proto, raw_payload).
     case proto of
       WireProtocol.Sbe \<Rightarrow>
         let st = (if sbe_cached_len st = 0
                   then case encode_ws_frame Binary raw_payload (framed_sbe st) of
                          Inr (len, buf) \<Rightarrow> st\<lparr>framed_sbe := buf, sbe_cached_len := len\<rparr> | Inl _ \<Rightarrow> st
                   else st)
         in if sbe_cached_len st > 0
            then st\<lparr>frames_sent := frames_sent st @ [(client_id, take (sbe_cached_len st) (framed_sbe st))]\<rparr> else st
     | WireProtocol.Json \<Rightarrow>
         let st = (if json_cached_len st = 0
                   then case encode_ws_frame Text raw_payload (framed_json st) of
                          Inr (len, buf) \<Rightarrow> st\<lparr>framed_json := buf, json_cached_len := len\<rparr> | Inl _ \<Rightarrow> st
                   else st)
         in if json_cached_len st > 0
            then st\<lparr>frames_sent := frames_sent st @ [(client_id, take (json_cached_len st) (framed_json st))]\<rparr> else st)"

definition broadcast_bbo ::
  "WebSocketServerEngine \<Rightarrow> NormalizedBbo \<Rightarrow> u64 \<Rightarrow> WebSocketServerEngine \<times> DispatchMetrics \<times> (u32 \<times> bytes) list" where
  "broadcast_bbo e bbo now_ms =
     (case dispatch_bbo (router e) bbo now_ms of
        (r, m, out) \<Rightarrow> (e\<lparr>router := r\<rparr>, m, frames_sent (foldl send_framed frame_cache_new out)))"

definition broadcast_trade ::
  "WebSocketServerEngine \<Rightarrow> UnifiedTrade \<Rightarrow> f64 \<Rightarrow> u64 \<Rightarrow> WebSocketServerEngine \<times> DispatchMetrics \<times> (u32 \<times> bytes) list" where
  "broadcast_trade e trade notional_usd now_ms =
     (case dispatch_trade (router e) trade notional_usd now_ms of
        (r, m, out) \<Rightarrow> (e\<lparr>router := r\<rparr>, m, frames_sent (foldl send_framed frame_cache_new out)))"

section \<open>Inbound frames\<close>

text \<open>What a handler does with an unmasked payload.\<close>

definition handle_payload :: "WebSocketServerEngine \<Rightarrow> u32 \<Rightarrow> WsOpcode \<Rightarrow> bytes \<Rightarrow> u64 \<Rightarrow> handled" where
  "handle_payload e client_id op payload now_ms =
     (case op of
        WsPing \<Rightarrow> reply e WsPong payload 256
      | WsPong \<Rightarrow> (e, [], Inr ())
      | WsClose \<Rightarrow> reply (handle_client_disconnect e client_id) WsClose [] 16
      | Text \<Rightarrow> (case parse_client_command payload of
                   None \<Rightarrow> (e, [], Inr ()) | Some cmd \<Rightarrow> handle_command e client_id cmd now_ms)
      | _ \<Rightarrow> (e, [], Inr ()))"

lemma length_client_frame:
  "length key = 4 \<Longrightarrow> length (client_frame op key payload) =
     (if length payload < 126 then 6 else if length payload \<le> 0xFFFF then 8 else 14) + length payload"
  by (simp add: client_frame_def xor_mask_def)

lemma drop_client_frame:
  "length key = 4 \<Longrightarrow>
   drop (if length payload < 126 then 6 else if length payload \<le> 0xFFFF then 8 else 14) (client_frame op key payload)
     = xor_mask key payload"
  by (simp add: client_frame_def len_header_def)

lemma handle_client_frame:
  assumes key: "length key = 4" and len: "length payload < 2 ^ 63"
  shows "handle_inbound_frame e client_id (client_frame op key payload) now_ms = Ret (handle_payload e client_id op payload now_ms)"
proof -
  let ?f = "client_frame op key payload"
  define h :: nat where "h = (if length payload < 126 then 6 else if length payload \<le> 0xFFFF then 8 else 14)"
  have lf: "length ?f = h + length payload" unfolding h_def by (rule length_client_frame [OF key])
  have h: "h \<le> 14" by (simp add: h_def)
  have uh: "unat (of_nat h :: u64) = h" using h by (intro unat_of_nat_small) simp
  have up: "unat (of_nat (length payload) :: u64) = length payload" using len by (intro unat_of_nat_small) simp
  have ut: "unat (of_nat h + of_nat (length payload) :: u64) = length ?f"
    using len uh up h lf unat_add_nowrap [of "of_nat h :: u64" "of_nat (length payload)"] by simp
  have dec: "decode_ws_frame_header ?f = Inr \<lparr>fin = True, opcode = op, masked = True,
      payload_len = of_nat (length payload), mask_key = key, header_len = of_nat h\<rparr>"
    using decode_client_frame [of payload key op "[]"] key len lf by simp
  have "\<not> (of_nat h + of_nat (length payload) :: u64) < of_nat h"
    using uh ut lf by (simp only: word_less_nat_alt)
  moreover have "subslice ?f h (length ?f - h) = xor_mask key payload"
    using drop_client_frame [OF key, of payload op] lf by (simp add: subslice_def xor_mask_def flip: h_def)
  moreover have "unmask_payload (xor_mask key payload) key = payload"
    using unmask_payload_xor [OF key, of "xor_mask key payload"] xor_mask_twice [of key payload] by simp
  ultimately show ?thesis
    by (simp add: handle_inbound_frame_def dec Let_def ut uh handle_payload_def) (cases op; simp)
qed

lemma reply_frame:
  "reply e op payload n =
     (if length (server_frame op payload) \<le> n then (e, [server_frame op payload], Inr ())
      else (e, [], Inl (WsBufferTooSmall (length (server_frame op payload)) n)))"
  by (simp add: reply_def encode_ws_frame_image)

section \<open>Commands\<close>

lemma utf8_valid_ascii: "list_all (\<lambda>b. b < 0x80) s \<Longrightarrow> utf8_valid s"
  by (induction s) simp_all

lemma parse_u64_dec:
  assumes "n < 2 ^ 64"
  shows "parse_u64 (dec n) = Some (of_nat n)"
proof -
  obtain ds where ds: "dec n = ascii ds" "digits ds" "value_of ds = n" using dec_ascii by blast
  have "foldl (\<lambda>r b. 10 * r + unat (b - 48)) 0 (ascii ds) = value_of ds" using ds(2)
  proof (induction ds rule: rev_induct)
    case (snoc d ds)
    have "unat (of_nat d :: u8) = d" using snoc.prems by (intro unat_of_nat_small) simp
    then show ?case using snoc by (simp add: ascii_def)
  qed (simp add: value_of_def)
  then show ?thesis using ds assms by (simp add: parse_u64_def)
qed

lemma trim_start_dec: "trim_start (dec n @ rest) = dec n @ rest"
proof -
  obtain d ds where d: "dec n = d # ds" "48 \<le> d" "d \<le> 57"
    using dec_bytes [of n] length_dec_pos [of n] by (cases "dec n") auto
  have "d \<noteq> 0x20" "\<not> d \<le> 0x0D" "d \<noteq> 0xC2" "d \<noteq> 0xE1" "d \<noteq> 0xE2" "d \<noteq> 0xE3"
    using d(2,3) by (auto simp: word_le_nat_alt)
  then show ?thesis by (simp add: d(1) split: list.splits)
qed

lemma extract_json_u64_number:
  assumes "str_after (bstr (''\"'' @ key @ ''\":'')) s = Some (dec n @ c # rest)"
    and "\<not> is_ascii_digit c" and "n < 2 ^ 64"
  shows "extract_json_u64 s key = Some (of_nat n)"
  using assms length_dec_pos [of n]
  by (auto simp: extract_json_u64_def str_after_def Let_def trim_start_dec takeWhile_dec parse_u64_dec)

text \<open>A number that is written with a space before the colon is never read.\<close>

lemma extract_json_u64_space:
  assumes "str_find (bstr (''\"'' @ key @ ''\":'')) s = None"
  shows "extract_json_u64 s key = None"
proof (cases "str_find (bstr (''\"'' @ key @ ''\" :'')) s")
  case (Some pos)
  let ?p = "bstr (''\"'' @ key @ ''\" :'')"
  have "take (length ?p) (drop pos s) = ?p" using str_find_Some [OF Some] by (simp add: subslice_def)
  then have "drop pos s = ?p @ drop (length ?p) (drop pos s)" by (metis append_take_drop_id)
  also have "?p = bstr (''\"'' @ key @ ''\" '') @ [58]" by (simp add: bstr_def)
  finally have pos: "drop pos s = bstr (''\"'' @ key @ ''\" '') @ 58 # drop (length ?p) (drop pos s)" by simp
  have "drop (pos + length (bstr (''\"'' @ key @ ''\":''))) s = drop (length (bstr (''\"'' @ key @ ''\" ''))) (drop pos s)"
    by (simp add: add.commute)
  also have "\<dots> = 58 # drop (length ?p) (drop pos s)" by (subst pos) simp
  finally have "drop (pos + length (bstr (''\"'' @ key @ ''\":''))) s = 58 # drop (length ?p) (drop pos s)" .
  then show ?thesis
    using Some assms by (simp add: extract_json_u64_def Let_def is_ascii_digit_def split: list.splits)
qed (use assms in \<open>simp add: extract_json_u64_def Let_def\<close>)

definition subscribe_text :: "u8 \<Rightarrow> u32 \<Rightarrow> u8 \<Rightarrow> u32 \<Rightarrow> bytes" where
  "subscribe_text v m st f =
     bstr ''{\"action\":\"subscribe\",\"venue\":'' @ dec (unat v) @ bstr '',\"market_id\":'' @ dec (unat m)
     @ bstr '',\"stream_type\":'' @ dec (unat st) @ bstr '',\"flags\":'' @ dec (unat f) @ bstr ''}''"

lemmas scan_text = subscribe_text_def bstr_def str_after_Cons str_after_dec str_after_Nil

lemma subscribe_text_fields:
  "str_after (bstr ''\"venue\":'') (subscribe_text v m st f) = Some (dec (unat v) @ 44 # tl (bstr '',\"market_id\":'') @ dec (unat m)
     @ bstr '',\"stream_type\":'' @ dec (unat st) @ bstr '',\"flags\":'' @ dec (unat f) @ bstr ''}'')"
  "str_after (bstr ''\"market_id\":'') (subscribe_text v m st f) = Some (dec (unat m)
     @ 44 # tl (bstr '',\"stream_type\":'') @ dec (unat st) @ bstr '',\"flags\":'' @ dec (unat f) @ bstr ''}'')"
  "str_after (bstr ''\"stream_type\":'') (subscribe_text v m st f) = Some (dec (unat st) @ 44 # tl (bstr '',\"flags\":'') @ dec (unat f) @ bstr ''}'')"
  "str_after (bstr ''\"flags\":'') (subscribe_text v m st f) = Some (dec (unat f) @ 125 # [])"
  by (simp_all add: scan_text)

lemma subscribe_text_action:
  "\<not> has_action (subscribe_text v m st f) ''ping''" "\<not> has_action (subscribe_text v m st f) ''pong''"
  "has_action (subscribe_text v m st f) ''subscribe''"
  by (simp_all add: has_action_def str_contains_after scan_text)

lemma subscribe_text_ascii: "utf8_valid (subscribe_text v m st f)"
proof -
  have "list_all (\<lambda>b. b < 0x80) (dec n)" for n
    using dec_bytes [of n] by (auto simp: list_all_iff word_le_nat_alt word_less_nat_alt dest!: bspec)
  then show ?thesis by (intro utf8_valid_ascii) (simp add: subscribe_text_def bstr_def)
qed

lemma parse_subscribe_text: "parse_client_command (subscribe_text v m st f) = Some (CmdSubscribe (topic_new v m st f))"
proof -
  have nd: "\<not> is_ascii_digit 44" "\<not> is_ascii_digit 125" by (simp_all add: is_ascii_digit_def)
  have lt: "unat v < 2 ^ 64" "unat m < 2 ^ 64" "unat st < 2 ^ 64" "unat f < 2 ^ 64"
    using unat_less_power [of v] unat_less_power [of m] unat_less_power [of st] unat_less_power [of f] by simp_all
  have "extract_json_u64 (subscribe_text v m st f) ''venue'' = Some (of_nat (unat v))"
    using subscribe_text_fields(1) by (intro extract_json_u64_number [OF _ nd(1) lt(1)]) simp
  moreover have "extract_json_u64 (subscribe_text v m st f) ''market_id'' = Some (of_nat (unat m))"
    using subscribe_text_fields(2) by (intro extract_json_u64_number [OF _ nd(1) lt(2)]) simp
  moreover have "extract_json_u64 (subscribe_text v m st f) ''stream_type'' = Some (of_nat (unat st))"
    using subscribe_text_fields(3) by (intro extract_json_u64_number [OF _ nd(1) lt(3)]) simp
  moreover have "extract_json_u64 (subscribe_text v m st f) ''flags'' = Some (of_nat (unat f))"
    using subscribe_text_fields(4) by (intro extract_json_u64_number [OF _ nd(2) lt(4)]) simp
  moreover have "(ucast (ucast v :: u64) :: u8) = v" "(ucast (ucast m :: u64) :: u32) = m"
      "(ucast (ucast st :: u64) :: u8) = st" "(ucast (ucast f :: u64) :: u32) = f"
    using unat_less_power [of v] unat_less_power [of m] unat_less_power [of st] unat_less_power [of f]
    by (simp_all add: word_unat_eq_iff unat_ucast_mod)
  ultimately show ?thesis
    by (simp add: parse_client_command_def subscribe_text_action subscribe_text_ascii command_topic_def)
qed

section \<open>Broadcasts frame each payload once\<close>

text \<open>The engine reads a subscribe command in a masked frame as that command.\<close>

lemma inbound_subscribe:
  assumes "length key = 4"
  shows "handle_inbound_frame e client_id (client_frame Text key (subscribe_text v m st f)) now_ms
    = Ret (handle_command e client_id (CmdSubscribe (topic_new v m st f)) now_ms)"
proof -
  have "length (dec (unat v)) \<le> 3" "length (dec (unat m)) \<le> 10" "length (dec (unat st)) \<le> 3" "length (dec (unat f)) \<le> 10"
    by (rule length_dec_u8 length_dec_u32)+
  then have "length (subscribe_text v m st f) < 2 ^ 63" by (simp add: subscribe_text_def)
  then show ?thesis
    using handle_client_frame [OF assms, of "subscribe_text v m st f" e client_id Text now_ms]
    by (simp add: handle_payload_def parse_subscribe_text)
qed

text \<open>All deliveries of a dispatch carry the same bytes per protocol, so the cached frame is right for
  every client.\<close>

definition frame_of :: "WireProtocol \<Rightarrow> bytes \<Rightarrow> bytes" where
  "frame_of p payload = server_frame (case p of WireProtocol.Sbe \<Rightarrow> Binary | WireProtocol.Json \<Rightarrow> Text) payload"

definition cache_ok :: "(WireProtocol \<Rightarrow> bytes) \<Rightarrow> frame_cache \<Rightarrow> bool" where
  "cache_ok payload st \<longleftrightarrow>
     (if sbe_cached_len st = 0 then framed_sbe st = replicate 256 0
      else take (sbe_cached_len st) (framed_sbe st) = frame_of WireProtocol.Sbe (payload WireProtocol.Sbe)) \<and>
     (if json_cached_len st = 0 then framed_json st = replicate 1024 0
      else take (json_cached_len st) (framed_json st) = frame_of WireProtocol.Json (payload WireProtocol.Json))"

lemma send_framed_ok:
  assumes "cache_ok payload st" "length (frame_of WireProtocol.Sbe (payload WireProtocol.Sbe)) \<le> 256"
    "length (frame_of WireProtocol.Json (payload WireProtocol.Json)) \<le> 1024"
  shows "cache_ok payload (send_framed st (c, p, payload p)) \<and>
    frames_sent (send_framed st (c, p, payload p)) = frames_sent st @ [(c, frame_of p (payload p))]"
proof (cases p)
  case Sbe
  have pos: "0 < length (server_frame Binary (payload WireProtocol.Sbe))" by (simp add: length_server_frame)
  show ?thesis
    using assms pos Sbe
    by (auto simp: cache_ok_def send_framed_def Let_def encode_ws_frame_image frame_of_def)
next
  case Json
  have pos: "0 < length (server_frame Text (payload WireProtocol.Json))" by (simp add: length_server_frame)
  show ?thesis
    using assms pos Json
    by (auto simp: cache_ok_def send_framed_def Let_def encode_ws_frame_image frame_of_def)
qed

lemma broadcast_frames:
  assumes "length (frame_of WireProtocol.Sbe (payload WireProtocol.Sbe)) \<le> 256"
    "length (frame_of WireProtocol.Json (payload WireProtocol.Json)) \<le> 1024"
    and "\<forall>(c, p, bs) \<in> set out. bs = payload p"
  shows "cache_ok payload (foldl send_framed frame_cache_new out) \<and>
    frames_sent (foldl send_framed frame_cache_new out) = map (\<lambda>(c, p, bs). (c, frame_of p bs)) out"
  using assms(3)
proof (induction out rule: rev_induct)
  case Nil
  then show ?case by (simp add: frame_cache_new_def cache_ok_def)
next
  case (snoc d out)
  obtain c p where d: "d = (c, p, payload p)" using snoc.prems by (cases d) auto
  show ?case using snoc send_framed_ok [OF _ assms(1,2), of "foldl send_framed frame_cache_new out" c p] by (simp add: d)
qed

lemma spec_sink_payload: "\<forall>(c, p, bs) \<in> set (spec_sink v payload cs). bs = payload p"
  by (induction cs rule: rev_induct) (auto simp: spec_sink_snoc, auto simp: spec_sink_def split: verdict.splits)

lemma bbo_frame_lengths:
  "length (frame_of WireProtocol.Sbe (bbo_wire bbo)) \<le> 256" "length (frame_of WireProtocol.Json (bbo_json_text bbo)) \<le> 1024"
  using length_bbo_json_text [of bbo] by (simp_all add: frame_of_def length_server_frame sbe_consts)

lemma trade_frame_lengths:
  "length (frame_of WireProtocol.Sbe (trade_wire trade)) \<le> 256" "length (frame_of WireProtocol.Json (trade_json_text trade)) \<le> 1024"
  using length_trade_json_text [of trade] by (simp_all add: frame_of_def length_server_frame sbe_consts)

lemma frames_of_dispatch:
  assumes "dispatch_spec rejects payload now_ms cs r (r', m, out)"
    and "length (frame_of WireProtocol.Sbe (payload WireProtocol.Sbe)) \<le> 256" "length (frame_of WireProtocol.Json (payload WireProtocol.Json)) \<le> 1024"
  shows "frames_sent (foldl send_framed frame_cache_new out) = map (\<lambda>(c, p, bs). (c, frame_of p bs)) out"
proof -
  have "\<forall>(c, p, bs) \<in> set out. bs = payload p" using assms(1) spec_sink_payload by (simp add: dispatch_spec_def Let_def)
  then show ?thesis using broadcast_frames [of payload out] assms(2,3) by simp
qed

lemma broadcast_bbo_image:
  assumes "router_inv (router e)"
  shows "broadcast_bbo e bbo now_ms =
    (case dispatch_bbo (router e) bbo now_ms of
       (r, m, out) \<Rightarrow> (e\<lparr>router := r\<rparr>, m, map (\<lambda>(c, p, bs). (c, frame_of p bs)) out))"
proof -
  obtain r m out where d: "dispatch_bbo (router e) bbo now_ms = (r, m, out)" by (metis prod_cases3)
  have "dispatch_spec (bbo_rejects bbo) (\<lambda>p. case p of WireProtocol.Sbe \<Rightarrow> bbo_wire bbo | WireProtocol.Json \<Rightarrow> bbo_json_text bbo)
      now_ms (subscribers (router e) (bbo_topics bbo)) (router e) (r, m, out)"
    using dispatch_bbo_spec [of "router e" bbo now_ms] assms by (simp add: router_inv_def d)
  from frames_of_dispatch [OF this] show ?thesis
    using bbo_frame_lengths [of bbo] by (simp add: broadcast_bbo_def d)
qed

lemma broadcast_trade_image:
  assumes "router_inv (router e)"
  shows "broadcast_trade e trade notional now_ms =
    (case dispatch_trade (router e) trade notional now_ms of
       (r, m, out) \<Rightarrow> (e\<lparr>router := r\<rparr>, m, map (\<lambda>(c, p, bs). (c, frame_of p bs)) out))"
proof -
  obtain r m out where d: "dispatch_trade (router e) trade notional now_ms = (r, m, out)" by (metis prod_cases3)
  have "dispatch_spec (\<lambda>f. \<not> matches_trade f notional) (\<lambda>p. case p of WireProtocol.Sbe \<Rightarrow> trade_wire trade | WireProtocol.Json \<Rightarrow> trade_json_text trade)
      now_ms (subscribers (router e) (trade_topics trade)) (router e) (r, m, out)"
    using dispatch_trade_spec [of "router e" notional trade now_ms] assms by (simp add: router_inv_def d)
  from frames_of_dispatch [OF this] show ?thesis
    using trade_frame_lengths [of trade] by (simp add: broadcast_trade_def d)
qed

section \<open>Properties\<close>

text \<open>A ping is answered with the identical payload: for every client frame with the ping opcode and a
  payload of up to 252 bytes, masked with any key, the engine sends exactly one frame, a pong carrying the
  unmasked payload; with a longer payload it sends nothing and reports that the 256-byte reply buffer is too
  small. The engine itself is unchanged either way.\<close>

theorem ws_ping_echo:
  assumes "length key = 4" and "length payload < 2 ^ 63"
  shows "handle_inbound_frame e client_id (client_frame WsPing key payload) now_ms =
    Ret (if length payload \<le> 252 then (e, [server_frame WsPong payload], Inr ())
         else (e, [], Inl (WsBufferTooSmall (length (server_frame WsPong payload)) 256)))"
  using handle_client_frame [OF assms, of e client_id WsPing now_ms]
  by (simp add: handle_payload_def reply_frame length_server_frame)

theorem ws_ping_echo_witness:
  "handle_inbound_frame engine_new 7 (client_frame WsPing [1, 2, 3, 4] [104, 105]) 0
     = Ret (engine_new, [server_frame WsPong [104, 105]], Inr ())"
  using ws_ping_echo [of "[1, 2, 3, 4]" "[104, 105]" engine_new 7 0] by simp

lemma json_note_text:
  assumes "length prefix + 21 \<le> n"
  shows "json_note prefix val n = bstr prefix @ dec (unat val) @ bstr ''}''"
proof -
  let ?t = "bstr prefix @ dec (unat val) @ bstr ''}''"
  have emits: "emits (and_then (write_str prefix) (and_then (write_u64 val) (write_str ''}''))) ?t"
    by (intro emitting)
  have fits: "length ?t \<le> n" using assms length_dec_u64 [of val] by simp
  let ?w = "writer_new (replicate n 0)"
  let ?w1 = "?w\<lparr>jw_buf := write_at (jw_buf ?w) (jw_pos ?w) (bstr prefix), jw_pos := jw_pos ?w + length (bstr prefix)\<rparr>"
  have 1: "write_str prefix ?w = (Inr (), ?w1)"
    using fits by (intro emits_fit [OF emits_write_str]) (simp add: writer_new_def)
  have 2: "write_u64 val ?w1 = (Inr (), snd (write_u64 val ?w1))"
    using fits by (subst emits_fit [OF emits_write_u64]; simp add: writer_new_def)+
  have "snd (write_str ''}'' (snd (write_u64 val ?w1))) = snd (and_then (write_str prefix) (and_then (write_u64 val) (write_str ''}'')) ?w)"
    by (subst and_then_def, subst 1, simp only: prod.case sum.case, subst and_then_def, subst 2, simp)
  also have "\<dots> = ?w\<lparr>jw_buf := write_at (jw_buf ?w) 0 ?t, jw_pos := length ?t\<rparr>"
    using emits_fit [OF emits, of ?w] fits by (simp add: writer_new_def)
  finally have "snd (write_str ''}'' (snd (write_u64 val (snd (write_str prefix ?w))))) = ?w\<lparr>jw_buf := write_at (jw_buf ?w) 0 ?t, jw_pos := length ?t\<rparr>"
    by (simp add: 1)
  then show ?thesis
    using fits by (simp add: json_note_def Let_def) (simp add: writer_new_def write_at_def)
qed



text \<open>A broadcast sends each client its own frame although a payload is framed once per protocol: in a
  reachable router the frames of a quote broadcast are those of the dispatch, in the same order, each the
  complete WebSocket frame (binary for SBE, text for JSON) of what the dispatch delivers to that client; the
  router and the metrics are those of the dispatch.\<close>

theorem broadcast_bbo_frames:
  assumes "router_reachable (router e)"
  shows "broadcast_bbo e bbo now_ms =
    (case dispatch_bbo (router e) bbo now_ms of
       (r, m, out) \<Rightarrow> (e\<lparr>router := r\<rparr>, m, map (\<lambda>(c, p, bs). (c, frame_of p bs)) out))"
  by (rule broadcast_bbo_image [OF router_inv_reachable [OF assms]])

theorem broadcast_bbo_frames_witness:
  "broadcast_bbo \<lparr>router = demo_router\<rparr> bbo_default 1000 =
    (case dispatch_bbo demo_router bbo_default 1000 of
       (r, m, out) \<Rightarrow> (\<lparr>router = r\<rparr>, m, map (\<lambda>(c, p, bs). (c, frame_of p bs)) out))"
  using broadcast_bbo_frames [of "\<lparr>router = demo_router\<rparr>" bbo_default 1000] demo_router_reachable by simp

text \<open>C19: One inbound frame can stop the server: a frame of fourteen bytes that announces a masked payload of at
  least 2^64 - 14 bytes makes the sum of header and payload length wrap, passes the completeness test and
  takes a slice whose end lies before its start, which panics; with \<open>panic = "abort"\<close> the process ends.\<close>

theorem ws_length_wrap_panics:
  assumes "2 ^ 64 - 14 \<le> unat (plen :: u64)" and "length key = 4"
  shows "handle_inbound_frame e client_id ((0x80 OR opcode_code op) # 0xFF # to_be 8 plen @ key) now_ms = Panic"
proof -
  let ?f = "(0x80 OR opcode_code op) # 0xFF # to_be 8 plen @ key"
  have dec: "decode_ws_frame_header ?f = Inr \<lparr>fin = True, opcode = op, masked = True, payload_len = plen, mask_key = key, header_len = 14\<rparr>"
    using assms(2) by (simp add: decode_ws_frame_header_def Let_def opcode_byte subslice_def)
  have sum: "unat (14 + plen) = 14 + unat plen - 2 ^ 64"
    using assms(1) unat_less_power [of plen] by (simp add: unat_word_ariths mod_if)
  then have "14 + plen < 14" "unat (14 + plen) \<le> length ?f"
    using unat_less_power [of plen] assms by (simp_all add: word_less_nat_alt)
  then show ?thesis by (simp add: handle_inbound_frame_def dec Let_def)
qed

theorem ws_length_wrap_panics_witness:
  "handle_inbound_frame engine_new 7 (0x81 # 0xFF # to_be 8 (0xFFFFFFFFFFFFFFFF :: u64) @ [0, 0, 0, 0]) 0 = Panic"
  using ws_length_wrap_panics [of "0xFFFFFFFFFFFFFFFF" "[0, 0, 0, 0]" engine_new 7 Text 0] by simp

end
