(* ===== verification/Engine_Run.thy ===== *)
theory Engine_Run
  imports Ws_Engine
begin

text \<open>
  Whole runs of the WebSocket engine of \<open>src/crates/distribution/src/websocket.rs\<close>: any sequence of its public
  calls (connections, disconnections, inbound frames with arbitrary bytes, broadcasts of quotes and trades), with
  the frames each call sends. Shown of all runs: what one client does is invisible to the others, and the
  frames broadcast to a client keep within its rate. A client that subscribes over the wire receives frames
  from which the library's own decoders recover the quotes.
\<close>

section \<open>Runs\<close>

datatype engine_call =
    Connect u32 WireProtocol u32 u32 u64
  | Disconnect u32
  | Inbound u32 bytes u64
  | Quote NormalizedBbo u64
  | Trade UnifiedTrade f64 u64

fun call_client :: "engine_call \<Rightarrow> u32 option" where
  "call_client (Connect c _ _ _ _) = Some c"
| "call_client (Disconnect c) = Some c"
| "call_client (Inbound c _ _) = Some c"
| "call_client _ = None"

text \<open>One call, with the frames it sends and the clients they go to.\<close>

fun engine_do :: "engine_call \<Rightarrow> WebSocketServerEngine \<Rightarrow> (WebSocketServerEngine \<times> (u32 \<times> bytes) list) outcome" where
  "engine_do (Connect c proto rate burst now_ms) e = Ret (fst (handle_client_connect e c proto rate burst now_ms), [])"
| "engine_do (Disconnect c) e = Ret (handle_client_disconnect e c, [])"
| "engine_do (Inbound c bs now_ms) e = and_ret (handle_inbound_frame e c bs now_ms) (\<lambda>(e', sent, _). Ret (e', map (Pair c) sent))"
| "engine_do (Quote bbo now_ms) e = (case broadcast_bbo e bbo now_ms of (e', _, frames) \<Rightarrow> Ret (e', frames))"
| "engine_do (Trade t notional now_ms) e = (case broadcast_trade e t notional now_ms of (e', _, frames) \<Rightarrow> Ret (e', frames))"

fun run_calls :: "('k \<Rightarrow> 's \<Rightarrow> ('s \<times> 'o list) outcome) \<Rightarrow> 'k list \<Rightarrow> 's \<Rightarrow> ('s \<times> 'o list) outcome" where
  "run_calls step [] s = Ret (s, [])"
| "run_calls step (k # ks) s =
     and_ret (step k s) (\<lambda>(s, out). and_ret (run_calls step ks s) (\<lambda>(s, outs). Ret (s, out @ outs)))"

abbreviation engine_run :: "engine_call list \<Rightarrow> WebSocketServerEngine \<Rightarrow> (WebSocketServerEngine \<times> (u32 \<times> bytes) list) outcome" where
  "engine_run \<equiv> run_calls engine_do"

lemma run_calls_Cons_Ret:
  "run_calls step (k # ks) s = Ret (s', out) \<longleftrightarrow>
     (\<exists>s1 o1 o2. step k s = Ret (s1, o1) \<and> run_calls step ks s1 = Ret (s', o2) \<and> out = o1 @ o2)"
  by (cases "step k s") (auto simp: and_ret_def split: outcome.splits)

lemma run_calls_total:
  "(\<And>k s. k \<in> set ks \<Longrightarrow> step k s \<noteq> Panic) \<Longrightarrow> \<exists>s' out. run_calls step ks s = Ret (s', out)"
proof (induction ks arbitrary: s)
  case (Cons k ks)
  obtain s1 o1 where "step k s = Ret (s1, o1)" using Cons.prems [of k s] by (cases "step k s") auto
  moreover obtain s2 o2 where "run_calls step ks s1 = Ret (s2, o2)" using Cons.IH [of s1] Cons.prems by auto
  ultimately show ?case by simp
qed simp

section \<open>Unwinding\<close>

text \<open>What a client must not see: the calls marked \<open>hidden\<close>. If hidden calls change nothing that the relation \<open>view\<close>
  compares and produce nothing visible, and the other calls act alike on states that look alike, then leaving the
  hidden calls out of a run changes nothing visible.\<close>

locale unwinding =
  fixes step :: "'k \<Rightarrow> 's \<Rightarrow> ('s \<times> 'o list) outcome"
    and hidden :: "'k \<Rightarrow> bool"
    and view :: "'s \<Rightarrow> 's \<Rightarrow> bool"
    and visible :: "'o \<Rightarrow> bool"
  assumes hidden_step: "\<lbrakk>hidden k; view s t; step k s = Ret (s', out)\<rbrakk> \<Longrightarrow> view s' t \<and> filter visible out = []"
    and shown_step: "\<lbrakk>\<not> hidden k; view s t; step k s = Ret (s', out)\<rbrakk> \<Longrightarrow>
      \<exists>t' out'. step k t = Ret (t', out') \<and> view s' t' \<and> filter visible out' = filter visible out"
begin

lemma purged_run:
  "view s t \<Longrightarrow> run_calls step ks s = Ret (s', out) \<Longrightarrow>
   \<exists>t' out'. run_calls step (filter (\<lambda>k. \<not> hidden k) ks) t = Ret (t', out') \<and> view s' t' \<and> filter visible out' = filter visible out"
proof (induction ks arbitrary: s t out)
  case (Cons k ks)
  obtain s1 o1 o2 where run: "step k s = Ret (s1, o1)" "run_calls step ks s1 = Ret (s', o2)" "out = o1 @ o2"
    using Cons.prems(2) unfolding run_calls_Cons_Ret by blast
  show ?case
  proof (cases "hidden k")
    case True
    then show ?thesis using hidden_step [OF True Cons.prems(1) run(1)] Cons.IH [OF _ run(2)] run(3) by auto
  next
    case False
    obtain t1 p1 where t1: "step k t = Ret (t1, p1)" "view s1 t1" "filter visible p1 = filter visible o1"
      using shown_step [OF False Cons.prems(1) run(1)] by blast
    obtain t' p2 where "run_calls step (filter (\<lambda>k. \<not> hidden k) ks) t1 = Ret (t', p2)" "view s' t'" "filter visible p2 = filter visible o2"
      using Cons.IH [OF t1(2) run(2)] by blast
    then show ?thesis using False t1 run(3) by simp
  qed
qed simp

end

section \<open>Routers that look alike to everyone but one client\<close>

definition other_view :: "u32 \<Rightarrow> InvertedTopicRouter \<Rightarrow> InvertedTopicRouter \<Rightarrow> bool" where
  "other_view c r s \<longleftrightarrow> router_inv r \<and> router_inv s \<and>
     (\<forall>d. d \<noteq> c \<longrightarrow> Mapping.lookup (clients r) d = Mapping.lookup (clients s) d \<and> (\<forall>t. subscribed r t d \<longleftrightarrow> subscribed s t d))"

lemma other_view_trans: "other_view c r s \<Longrightarrow> other_view c s t \<Longrightarrow> other_view c r t"
  by (simp add: other_view_def)

lemma other_view_sym: "other_view c r s \<Longrightarrow> other_view c s r"
  by (simp add: other_view_def)

text \<open>What each operation of a client does to registrations and subscriptions.\<close>

lemma register_effect:
  assumes "router_inv r" and "register_client r s = (r', res)"
  shows "(\<forall>d. Mapping.lookup (clients r') d =
      (if d = session_id s \<and> Mapping.lookup (clients r) d = None then Some s else Mapping.lookup (clients r) d)) \<and>
    subscribed r' = subscribed r"
  using assms by (auto simp: register_client_def router_inv_def Let_def lookup_update' subscribed_def fun_eq_iff split: if_splits)

lemma unregister_effect:
  assumes "router_inv r" and "unregister_client r c = (r', res)"
  shows "(\<forall>d. Mapping.lookup (clients r') d = (if d = c then None else Mapping.lookup (clients r) d)) \<and>
    (\<forall>t d. subscribed r' t d \<longleftrightarrow> subscribed r t d \<and> d \<noteq> c)"
proof (cases "Mapping.lookup (clients r) c")
  case None
  then have "r' = r" using assms by (auto simp: unregister_client_def router_inv_def)
  moreover have "\<not> subscribed r t c" for t using assms(1) None unfolding router_inv_def by fastforce
  ultimately show ?thesis using None by auto
next
  case (Some s)
  then have res: "res = Inr ()" "clients r' = Mapping.delete c (clients r)"
    using assms by (auto simp: unregister_client_def router_inv_def Let_def)
  have "Mapping.lookup (clients r') d = (if d = c then None else Mapping.lookup (clients r) d)" for d
    unfolding res(2) by simp
  then show ?thesis using unregister_ok [of r c r'] assms res by (simp add: router_inv_def)
qed

lemma subscribe_effect:
  assumes "router_inv r" and "subscribe r c t = (r', res)"
  shows "(\<forall>d. Mapping.lookup (clients r') d =
      (if d = c then map_option (\<lambda>s. set_state s Subscribed) (Mapping.lookup (clients r) c) else Mapping.lookup (clients r) d)) \<and>
    (\<forall>t' d. subscribed r' t' d \<longleftrightarrow> subscribed r t' d \<or> (t' = t \<and> d = c \<and> registered r c \<and> unat c < MAX_CLIENT_CAPACITY)) \<and>
    res = (if registered r c then Inr () else Inl (ClientNotFound c))"
proof (cases "Mapping.lookup (clients r) c")
  case None
  then show ?thesis using assms by (auto simp: subscribe_def router_inv_def registered_def)
next
  case (Some s)
  then have "res = Inr ()" "clients r' = Mapping.update c (set_state s Subscribed) (clients r)"
    using assms by (auto simp: subscribe_def router_inv_def Let_def)
  then show ?thesis using subscribe_ok [of r c t r'] assms Some by (simp add: router_inv_def lookup_update' registered_def)
qed

lemma unsubscribe_effect:
  assumes "router_inv r" and "unsubscribe r c t = (r', res)"
  shows "clients r' = clients r \<and> (\<forall>t' d. subscribed r' t' d \<longleftrightarrow> subscribed r t' d \<and> \<not> (t' = t \<and> d = c)) \<and> res = Inr ()"
proof -
  have "res = Inr ()" "clients r' = clients r" using assms by (auto simp: unsubscribe_def router_inv_def split: option.splits)
  then show ?thesis using unsubscribe_ok [of r c t r'] assms by (simp add: router_inv_def)
qed

text \<open>An operation of \<open>c\<close> is invisible to the others.\<close>

lemma own_operation:
  assumes "router_inv r"
  shows "session_id s = c \<Longrightarrow> register_client r s = (r', res) \<Longrightarrow> other_view c r r'"
    and "unregister_client r c = (r', res') \<Longrightarrow> other_view c r r'"
    and "subscribe r c t = (r', res') \<Longrightarrow> other_view c r r'"
    and "unsubscribe r c t = (r', res') \<Longrightarrow> other_view c r r'"
proof -
  show "other_view c r r'" if "session_id s = c" "register_client r s = (r', res)"
    using register_inv [OF assms that(2)] register_effect [OF assms that(2)] assms that(1) by (simp add: other_view_def)
  show "other_view c r r'" if "unregister_client r c = (r', res')"
    using unregister_inv [OF assms that] unregister_effect [OF assms that] assms by (simp add: other_view_def)
  show "other_view c r r'" if "subscribe r c t = (r', res')"
    using subscribe_inv [OF assms that] subscribe_effect [OF assms that] assms by (simp add: other_view_def)
  show "other_view c r r'" if "unsubscribe r c t = (r', res')"
    using unsubscribe_inv [OF assms that] unsubscribe_effect [OF assms that] assms by (simp add: other_view_def)
qed

text \<open>An operation of another client acts alike on routers that look alike.\<close>

lemma other_operation:
  assumes v: "other_view c r s" and d: "d \<noteq> c"
  shows "session_id x = d \<Longrightarrow> register_client r x = (r', res) \<Longrightarrow> register_client s x = (s', res1) \<Longrightarrow> other_view c r' s'"
    and "unregister_client r d = (r', res') \<Longrightarrow> unregister_client s d = (s', res1') \<Longrightarrow> other_view c r' s'"
    and "subscribe r d t = (r', res') \<Longrightarrow> subscribe s d t = (s', res1') \<Longrightarrow> other_view c r' s' \<and> res' = res1'"
    and "unsubscribe r d t = (r', res') \<Longrightarrow> unsubscribe s d t = (s', res1') \<Longrightarrow> other_view c r' s' \<and> res' = res1'"
proof -
  have inv: "router_inv r" "router_inv s" using v by (simp_all add: other_view_def)
  have reg: "registered r d \<longleftrightarrow> registered s d" using v d by (simp add: other_view_def registered_def)
  show "other_view c r' s'" if "session_id x = d" "register_client r x = (r', res)" "register_client s x = (s', res1)"
    using register_inv [OF inv(1) that(2)] register_inv [OF inv(2) that(3)] register_effect [OF inv(1) that(2)] register_effect [OF inv(2) that(3)] v d that(1)
    by (auto simp: other_view_def)
  show "other_view c r' s'" if "unregister_client r d = (r', res')" "unregister_client s d = (s', res1')"
    using unregister_inv [OF inv(1) that(1)] unregister_inv [OF inv(2) that(2)] unregister_effect [OF inv(1) that(1)] unregister_effect [OF inv(2) that(2)] v d
    by (simp add: other_view_def)
  show "other_view c r' s' \<and> res' = res1'" if "subscribe r d t = (r', res')" "subscribe s d t = (s', res1')"
    using subscribe_inv [OF inv(1) that(1)] subscribe_inv [OF inv(2) that(2)] subscribe_effect [OF inv(1) that(1)] subscribe_effect [OF inv(2) that(2)] v d reg
    by (simp add: other_view_def)
  show "other_view c r' s' \<and> res' = res1'" if "unsubscribe r d t = (r', res')" "unsubscribe s d t = (s', res1')"
    using unsubscribe_inv [OF inv(1) that(1)] unsubscribe_inv [OF inv(2) that(2)] unsubscribe_effect [OF inv(1) that(1)] unsubscribe_effect [OF inv(2) that(2)] v d
    by (simp add: other_view_def)
qed

text \<open>A dispatch serves the other clients alike.\<close>

lemma subscribers_view:
  "other_view c r s \<Longrightarrow> filter (\<lambda>d. d \<noteq> c) (subscribers r ts) = filter (\<lambda>d. d \<noteq> c) (subscribers s ts)"
  unfolding subscribers_def filter_filter by (rule filter_cong [OF refl]) (auto simp: other_view_def)

lemma spec_sink_filter:
  "filter (\<lambda>(d, _). d \<noteq> c) (spec_sink v payload cs) = spec_sink v payload (filter (\<lambda>d. d \<noteq> c) cs)"
proof (induction cs rule: rev_induct)
  case (snoc d cs)
  then show ?case by (cases "v d") (simp_all add: spec_sink_snoc)
qed (simp add: spec_sink_def map_filter_simps)

lemma spec_sink_cong: "(\<And>d. d \<in> set cs \<Longrightarrow> v d = w d) \<Longrightarrow> spec_sink v payload cs = spec_sink w payload cs"
  by (induction cs rule: rev_induct) (simp_all add: spec_sink_snoc, simp add: spec_sink_def map_filter_simps)

lemma dispatch_view:
  assumes v: "other_view c r s"
    and r: "dispatch_spec rejects payload now_ms (subscribers r ts) r (r', m, out)"
    and s: "dispatch_spec rejects payload now_ms (subscribers s ts) s (s', m', out')"
  shows "other_view c r' s' \<and> filter (\<lambda>(d, _). d \<noteq> c) out' = filter (\<lambda>(d, _). d \<noteq> c) out"
proof -
  have inv: "router_inv r'" "router_inv s'" using v r s dispatch_spec_inv by (auto simp: other_view_def)
  have sub: "subscribed r' = subscribed r" "subscribed s' = subscribed s"
    using r s by (auto simp: dispatch_spec_def Let_def subscribed_def fun_eq_iff)
  have same: "Mapping.lookup (clients r) d = Mapping.lookup (clients s) d" if "d \<noteq> c" for d using v that by (simp add: other_view_def)
  have mem: "d \<in> set (subscribers r ts) \<longleftrightarrow> d \<in> set (subscribers s ts)" if "d \<noteq> c" for d
    using arg_cong [OF subscribers_view [OF v, of ts], of set] that by auto
  have "Mapping.lookup (clients r') d = Mapping.lookup (clients s') d" if "d \<noteq> c" for d
    using r s same [OF that] mem [OF that] by (simp add: dispatch_spec_def Let_def)
  then have "other_view c r' s'" using v inv sub by (simp add: other_view_def)
  moreover have "filter (\<lambda>(d, _). d \<noteq> c) out' = filter (\<lambda>(d, _). d \<noteq> c) out"
  proof -
    let ?v = "\<lambda>r d. client_verdict rejects now_ms (Mapping.lookup (clients r) d)"
    have "out = spec_sink (?v r) payload (subscribers r ts)" "out' = spec_sink (?v s) payload (subscribers s ts)"
      using r s by (simp_all add: dispatch_spec_def Let_def)
    moreover have "spec_sink (?v s) payload (filter (\<lambda>d. d \<noteq> c) (subscribers s ts)) = spec_sink (?v r) payload (filter (\<lambda>d. d \<noteq> c) (subscribers s ts))"
      by (rule spec_sink_cong) (simp add: same)
    ultimately show ?thesis by (simp only: spec_sink_filter subscribers_view [OF v])
  qed
  ultimately show ?thesis ..
qed

section \<open>Calls\<close>

lemma fst_reply [simp]: "fst (reply e op payload n) = e"
  by (simp add: reply_frame)

lemma handle_command_own:
  assumes "router_inv (router e)"
  shows "other_view c (router e) (router (fst (handle_command e c cmd now_ms)))"
proof -
  have refl: "other_view c (router e) (router e)" using assms by (simp add: other_view_def)
  show ?thesis
    using refl by (auto simp: handle_command_def split: ClientCommand.splits prod.splits sum.splits
        intro: own_operation(3) [OF assms] own_operation(4) [OF assms])
qed

lemma handle_payload_own:
  assumes "router_inv (router e)"
  shows "other_view c (router e) (router (fst (handle_payload e c op payload now_ms)))"
proof -
  have refl: "other_view c (router e) (router e)" using assms by (simp add: other_view_def)
  have "other_view c (router e) (router (handle_client_disconnect e c))"
    using own_operation(2) [OF assms prod.collapse [symmetric]] by (simp add: handle_client_disconnect_def)
  then show ?thesis
    using refl handle_command_own [OF assms] by (auto simp: handle_payload_def split: WsOpcode.splits option.splits)
qed

text \<open>An inbound frame is dropped, makes the engine panic, or is handled as its payload.\<close>

lemma inbound_cases:
  obtains (rejected) err where "\<And>e c. handle_inbound_frame e c bs now_ms = Ret (e, [], Inl err)"
  | (panics) "\<And>e c. handle_inbound_frame e c bs now_ms = Panic"
  | (handled) op payload where "\<And>e c. handle_inbound_frame e c bs now_ms = Ret (handle_payload e c op payload now_ms)"
proof (cases "decode_ws_frame_header bs")
  case (Inl err)
  then show ?thesis by (intro rejected) (simp add: handle_inbound_frame_def)
next
  case (Inr h)
  let ?total = "header_len h + payload_len h"
  let ?p = "subslice bs (unat (header_len h)) (unat ?total - unat (header_len h))"
  let ?payload = "if masked h then unmask_payload ?p (mask_key h) else ?p"
  consider "length bs < unat ?total" | "\<not> length bs < unat ?total" "?total < header_len h" | "\<not> length bs < unat ?total" "\<not> ?total < header_len h"
    by blast
  then show ?thesis
  proof cases
    case 1
    then show ?thesis by (intro rejected) (simp add: handle_inbound_frame_def Inr Let_def)
  next
    case 2
    then show ?thesis by (intro panics) (simp add: handle_inbound_frame_def Inr Let_def)
  next
    case 3
    then show ?thesis by (intro handled [of "opcode h" ?payload]) (simp add: handle_inbound_frame_def Inr Let_def handle_payload_def)
  qed
qed

text \<open>Two outcomes of a handler that the other clients cannot tell apart.\<close>

definition alike :: "u32 \<Rightarrow> handled \<Rightarrow> handled \<Rightarrow> bool" where
  "alike c x y \<longleftrightarrow> other_view c (router (fst x)) (router (fst y)) \<and> snd x = snd y"

lemma alike_reply: "other_view c (router e) (router f) \<Longrightarrow> alike c (reply e op payload n) (reply f op payload n)"
  by (simp add: alike_def reply_frame)

lemma handle_command_alike:
  assumes v: "other_view c (router e) (router f)" and d: "d \<noteq> c"
  shows "alike c (handle_command e d cmd now_ms) (handle_command f d cmd now_ms)"
proof (cases cmd)
  case (CmdSubscribe t)
  obtain r res r' res' where op: "subscribe (router e) d t = (r, res)" "subscribe (router f) d t = (r', res')" by fastforce
  have eq: "other_view c r r'" "res' = res" using other_operation(3) [OF v d op] by simp_all
  from eq(1) have "other_view c (router (e\<lparr>router := r\<rparr>)) (router (f\<lparr>router := r'\<rparr>))" by simp
  from alike_reply [OF this] show ?thesis
    using eq(1) by (cases res) (simp_all add: CmdSubscribe handle_command_def op eq(2), simp add: alike_def)
next
  case (CmdUnsubscribe t)
  obtain r res r' res' where op: "unsubscribe (router e) d t = (r, res)" "unsubscribe (router f) d t = (r', res')" by fastforce
  have "other_view c r r'" "res' = res" using other_operation(4) [OF v d op] by simp_all
  then show ?thesis by (cases res) (simp_all add: CmdUnsubscribe handle_command_def op alike_def)
qed (use v alike_reply [OF v] in \<open>simp_all add: handle_command_def, simp_all add: alike_def\<close>)

lemma handle_payload_alike:
  assumes v: "other_view c (router e) (router f)" and d: "d \<noteq> c"
  shows "alike c (handle_payload e d op payload now_ms) (handle_payload f d op payload now_ms)"
proof -
  have "other_view c (router (handle_client_disconnect e d)) (router (handle_client_disconnect f d))"
    using other_operation(2) [OF v d prod.collapse [symmetric] prod.collapse [symmetric]] by (simp add: handle_client_disconnect_def)
  from alike_reply [OF this] show ?thesis
    using alike_reply [OF v] handle_command_alike [OF v d] v
    by (auto simp: handle_payload_def split: WsOpcode.splits option.splits) (simp_all add: alike_def)
qed

lemma connect_router:
  "router (fst (handle_client_connect e c proto rate burst now_ms)) = fst (register_client (router e) (session_new c proto rate burst now_ms))"
  by (simp add: handle_client_connect_def Let_def split: prod.splits sum.splits)

abbreviation engine_view :: "u32 \<Rightarrow> WebSocketServerEngine \<Rightarrow> WebSocketServerEngine \<Rightarrow> bool" where
  "engine_view c e f \<equiv> other_view c (router e) (router f)"

lemma own_call:
  assumes "call_client k = Some c" and v: "engine_view c e f" and "engine_do k e = Ret (e', out)"
  shows "engine_view c e' f \<and> filter (\<lambda>(d, _). d \<noteq> c) out = []"
proof -
  have inv: "router_inv (router e)" using v by (simp add: other_view_def)
  have "engine_view c e e' \<and> filter (\<lambda>(d, _). d \<noteq> c) out = []"
  proof (cases k)
    case (Connect d proto rate burst now_ms)
    have "session_id (session_new c proto rate burst now_ms) = c" by (simp add: session_new_def)
    from own_operation(1) [OF inv this prod.collapse [symmetric]] show ?thesis using assms Connect by (auto simp: connect_router)
  next
    case (Disconnect d)
    then show ?thesis using assms own_operation(2) [OF inv prod.collapse [symmetric]] by (auto simp: handle_client_disconnect_def)
  next
    case (Inbound d bs now_ms)
    then have k: "k = Inbound c bs now_ms" using assms(1) by simp
    show ?thesis
    proof (cases rule: inbound_cases [of bs now_ms])
      case (rejected err)
      then show ?thesis using assms(3) inv by (simp add: k other_view_def)
    next
      case panics
      then show ?thesis using assms(3) by (simp add: k)
    next
      case (handled op payload)
      then show ?thesis using assms(3) handle_payload_own [OF inv, of c op payload now_ms] by (auto simp: k split: prod.splits)
    qed
  qed (use assms(1) in simp_all)
  then show ?thesis using v other_view_trans other_view_sym by blast
qed

lemma filter_frames:
  "filter (\<lambda>(d, _). d \<noteq> c) (map (\<lambda>(d, p, bs). (d, frame_of p bs)) out) = map (\<lambda>(d, p, bs). (d, frame_of p bs)) (filter (\<lambda>(d, _). d \<noteq> c) out)"
  by (induction out) auto

lemma broadcast_view:
  assumes "dispatch_spec rejects payload now_ms (subscribers (router e) ts) (router e) (r, m, out)"
    and "dispatch_spec rejects payload now_ms (subscribers (router f) ts) (router f) (r', m', out')"
    and "engine_view c e f"
  shows "other_view c r r' \<and> filter (\<lambda>(d, _). d \<noteq> c) (map (\<lambda>(d, p, bs). (d, frame_of p bs)) out') =
    filter (\<lambda>(d, _). d \<noteq> c) (map (\<lambda>(d, p, bs). (d, frame_of p bs)) out)"
  using dispatch_view [OF assms(3,1,2)] by (simp add: filter_frames)

lemma other_call:
  assumes k: "call_client k \<noteq> Some c" and v: "engine_view c e f" and do: "engine_do k e = Ret (e', out)"
  shows "\<exists>f' out'. engine_do k f = Ret (f', out') \<and> engine_view c e' f' \<and> filter (\<lambda>(d, _). d \<noteq> c) out' = filter (\<lambda>(d, _). d \<noteq> c) out"
proof -
  have inv: "router_inv (router e)" "router_inv (router f)" using v by (simp_all add: other_view_def)
  then have ok: "router_wf (router e)" "\<not> topics_poisoned (router e)" "\<not> clients_poisoned (router e)"
    "router_wf (router f)" "\<not> topics_poisoned (router f)" "\<not> clients_poisoned (router f)" by (simp_all add: router_inv_def)
  show ?thesis
  proof (cases k)
    case (Connect d proto rate burst now_ms)
    have "session_id (session_new d proto rate burst now_ms) = d" by (simp add: session_new_def)
    from other_operation(1) [OF v _ this prod.collapse [symmetric] prod.collapse [symmetric]] show ?thesis
      using k do Connect by (auto simp: connect_router)
  next
    case (Disconnect d)
    then show ?thesis using k do other_operation(2) [OF v _ prod.collapse [symmetric] prod.collapse [symmetric], of d]
      by (auto simp: handle_client_disconnect_def)
  next
    case (Inbound d bs now_ms)
    show ?thesis
    proof (cases rule: inbound_cases [of bs now_ms])
      case (rejected err)
      then show ?thesis using do v by (auto simp: Inbound)
    next
      case panics
      then show ?thesis using do by (simp add: Inbound)
    next
      case (handled op payload)
      have "alike c (handle_payload e d op payload now_ms) (handle_payload f d op payload now_ms)"
        using k Inbound by (intro handle_payload_alike [OF v]) simp
      then show ?thesis using do handled by (auto simp: Inbound alike_def split: prod.splits)
    qed
  next
    case (Quote bbo now_ms)
    obtain r m os r' m' os' where d: "dispatch_bbo (router e) bbo now_ms = (r, m, os)" "dispatch_bbo (router f) bbo now_ms = (r', m', os')"
      by (metis prod_cases3)
    show ?thesis
      using broadcast_view [OF dispatch_bbo_spec [OF ok(1-3), of bbo now_ms, unfolded d] dispatch_bbo_spec [OF ok(4-6), of bbo now_ms, unfolded d] v] do
      by (auto simp: Quote broadcast_bbo_image [OF inv(1)] broadcast_bbo_image [OF inv(2)] d)
  next
    case (Trade t notional now_ms)
    obtain r m os r' m' os' where d: "dispatch_trade (router e) t notional now_ms = (r, m, os)" "dispatch_trade (router f) t notional now_ms = (r', m', os')"
      by (metis prod_cases3)
    show ?thesis
      using broadcast_view [OF dispatch_trade_spec [OF ok(1-3), of notional t now_ms, unfolded d] dispatch_trade_spec [OF ok(4-6), of notional t now_ms, unfolded d] v] do
      by (auto simp: Trade broadcast_trade_image [OF inv(1)] broadcast_trade_image [OF inv(2)] d)
  qed
qed

interpretation ws: unwinding engine_do "\<lambda>k. call_client k = Some c" "engine_view c" "\<lambda>(d, _). d \<noteq> c" for c
  by unfold_locales (rule own_call, assumption+, rule other_call, assumption+)

section \<open>One client in a run\<close>

lemma engine_do_inv: "router_inv (router e) \<Longrightarrow> engine_do k e = Ret (e', out) \<Longrightarrow> router_inv (router e')"
proof -
  assume inv: "router_inv (router e)" and do: "engine_do k e = Ret (e', out)"
  have refl: "engine_view c e e" for c using inv by (simp add: other_view_def)
  show "router_inv (router e')"
  proof (cases "call_client k")
    case None
    from other_call [OF _ refl do] None have "engine_view c e' e' \<or> (\<exists>f. engine_view c e' f)" for c by (metis option.distinct(1))
    then show ?thesis by (auto simp: other_view_def)
  next
    case (Some c)
    from own_call [OF Some refl do] show ?thesis by (simp add: other_view_def)
  qed
qed

lemma run_inv: "router_inv (router e) \<Longrightarrow> engine_run ks e = Ret (e', out) \<Longrightarrow> router_inv (router e')"
  by (induction ks arbitrary: e out) (auto simp: run_calls_Cons_Ret dest: engine_do_inv simp del: run_calls.simps(2))

lemma engine_new_inv: "router_inv (router engine_new)"
  by (simp add: engine_new_def router_inv_new)

text \<open>A broadcast on one client: its session, and the frames it is sent.\<close>

definition frames_to :: "u32 \<Rightarrow> (u32 \<times> bytes) list \<Rightarrow> bytes list" where
  "frames_to c out = map snd (filter (\<lambda>(d, _). d = c) out)"

lemma frames_to_sink:
  assumes "distinct cs"
  shows "frames_to c (map (\<lambda>(d, p, bs). (d, frame_of p bs)) (spec_sink v payload cs)) =
    (case v c of Deliver p \<Rightarrow> if c \<in> set cs then [frame_of p (payload p)] else [] | _ \<Rightarrow> [])"
  using assms
proof (induction cs rule: rev_induct)
  case (snoc d cs)
  then show ?case by (cases "v d"; cases "d = c") (auto simp: spec_sink_snoc frames_to_def split: verdict.splits)
qed (auto simp: spec_sink_def frames_to_def map_filter_simps split: verdict.splits)

lemma distinct_subscribers: "distinct (subscribers r ts)"
  using sorted_subscribers [of r ts] by (simp add: strict_sorted_iff)

lemma member_subscribers: "c \<in> set (subscribers r ts) \<longleftrightarrow> list_ex (\<lambda>t. subscribed r t c) ts"
proof -
  have "unat c < 1024" if "subscribed r t c" for t
    using that by (auto simp: subscribed_def bitmap_contains_bit DEFAULT_BITMAP_WORDS_def split: option.splits)
  moreover have "c \<in> of_nat ` {0..<1024}" if "unat c < 1024"
    using that by (intro image_eqI [of _ _ "unat c"]) simp_all
  ultimately show ?thesis by (auto simp: subscribers_def list_ex_iff)
qed

lemma dispatch_on_client:
  assumes "dispatch_spec rejects payload now_ms (subscribers r ts) r (r', m, out)"
  shows "frames_to c (map (\<lambda>(d, p, bs). (d, frame_of p bs)) out) =
      (case client_verdict rejects now_ms (Mapping.lookup (clients r) c) of
         Deliver p \<Rightarrow> if list_ex (\<lambda>t. subscribed r t c) ts then [frame_of p (payload p)] else [] | _ \<Rightarrow> [])"
    and "Mapping.lookup (clients r') c =
      (if list_ex (\<lambda>t. subscribed r t c) ts then map_option (session_after rejects now_ms (\<lambda>p. length (payload p))) (Mapping.lookup (clients r) c)
       else Mapping.lookup (clients r) c)"
    and "subscribed r' = subscribed r"
proof -
  show "subscribed r' = subscribed r" using assms by (auto simp: dispatch_spec_def Let_def subscribed_def fun_eq_iff)
qed (use assms in \<open>simp_all add: dispatch_spec_def Let_def frames_to_sink [OF distinct_subscribers] member_subscribers cong: verdict.case_cong\<close>)

lemma session_after_fields:
  "protocol (session_after rejects now_ms psize s) = protocol s"
  "session_filter (session_after rejects now_ms psize s) = session_filter s"
  "filter_poisoned (session_after rejects now_ms psize s) = filter_poisoned s"
  by (auto simp: session_after_def record_delivery_def try_consume_token_def Let_def split: verdict.splits prod.splits)

lemma session_after_limiter:
  "rate_limiter (session_after rejects now_ms psize s) =
     (case client_verdict rejects now_ms (Some s) of
        RateLimited \<Rightarrow> fst (try_consume (rate_limiter s) 1 now_ms) | Deliver _ \<Rightarrow> fst (try_consume (rate_limiter s) 1 now_ms) | _ \<Rightarrow> rate_limiter s)"
  by (auto simp: session_after_def record_delivery_def try_consume_token_def Let_def split: verdict.splits prod.splits)

text \<open>The limiter of a client, and the broadcasts it receives: in a run in which it does not connect anew, every
  frame it is sent by a broadcast was granted by its limiter at the time of that broadcast.\<close>

definition limiter :: "WebSocketServerEngine \<Rightarrow> u32 \<Rightarrow> LockFreeTokenBucket option" where
  "limiter e c = map_option rate_limiter (Mapping.lookup (clients (router e)) c)"

fun broadcast_frames_to :: "u32 \<Rightarrow> engine_call list \<Rightarrow> WebSocketServerEngine \<Rightarrow> nat" where
  "broadcast_frames_to c [] e = 0"
| "broadcast_frames_to c (k # ks) e =
     (case engine_do k e of
        Panic \<Rightarrow> 0
      | Ret (e', out) \<Rightarrow> (if call_client k = None then length (frames_to c out) else 0) + broadcast_frames_to c ks e')"

fun call_time :: "engine_call \<Rightarrow> u64 option" where
  "call_time (Quote _ now_ms) = Some now_ms"
| "call_time (Trade _ _ now_ms) = Some now_ms"
| "call_time _ = None"

fun connects :: "u32 \<Rightarrow> engine_call \<Rightarrow> bool" where
  "connects c (Connect d _ _ _ _) \<longleftrightarrow> d = c"
| "connects c _ \<longleftrightarrow> False"

lemma dispatch_limiter:
  fixes c
  assumes "dispatch_spec rejects payload now_ms (subscribers (router e) ts) (router e) (router e', m, out)"
  defines "n \<equiv> length (frames_to c (map (\<lambda>(d, p, bs). (d, frame_of p bs)) out))"
  shows "(limiter e' c = limiter e c \<and> n = 0) \<or>
    (\<exists>b b' ok. limiter e c = Some b \<and> try_consume b 1 now_ms = (b', ok) \<and> limiter e' c = Some b' \<and> n = of_bool ok)"
proof (cases "Mapping.lookup (clients (router e)) c")
  case None
  then show ?thesis using dispatch_on_client(1,2) [OF assms(1), of c] by (simp add: limiter_def n_def client_verdict_def)
next
  case (Some s)
  let ?t = "try_consume (rate_limiter s) 1 now_ms" and ?sub = "list_ex (\<lambda>t. subscribed (router e) t c) ts"
  note on = dispatch_on_client(1,2) [OF assms(1), of c, unfolded Some]
  have grant: "snd ?t = False" if "client_verdict rejects now_ms (Some s) = RateLimited"
    using that by (simp add: client_verdict_def split: if_splits)
  have grant': "snd ?t = True" if "client_verdict rejects now_ms (Some s) = Deliver p" for p
    using that by (simp add: client_verdict_def split: if_splits)
  have lim: "limiter e c = Some (rate_limiter s)" by (simp add: limiter_def Some)
  show ?thesis
  proof (cases "?sub \<and> (client_verdict rejects now_ms (Some s) = RateLimited \<or> (\<exists>p. client_verdict rejects now_ms (Some s) = Deliver p))")
    case True
    then have "limiter e' c = Some (fst ?t)" "n = of_bool (snd ?t)"
      using on grant grant' by (auto simp: limiter_def n_def session_after_limiter)
    then show ?thesis using lim by (intro disjI2) (metis prod.collapse)
  next
    case False
    then have "limiter e' c = limiter e c \<and> n = 0"
      using on by (cases "client_verdict rejects now_ms (Some s)") (simp_all add: limiter_def n_def session_after_limiter Some)
    then show ?thesis by blast
  qed
qed

lemma own_limiter:
  assumes inv: "router_inv (router e)" and do: "engine_do k e = Ret (e', out)" and k: "call_client k = Some c" "\<not> connects c k"
  shows "limiter e' c = limiter e c \<or> limiter e' c = None"
proof -
  have gone: "limiter (handle_client_disconnect e c) c = None"
    using unregister_effect [OF inv prod.collapse [symmetric]] by (simp add: limiter_def handle_client_disconnect_def)
  have sub: "map_option rate_limiter (Mapping.lookup (clients r) c) = limiter e c" if "subscribe (router e) c t = (r, res)" for t r res
    using subscribe_effect [OF inv that] by (simp add: limiter_def option.map_comp o_def set_state_def)
  have uns: "map_option rate_limiter (Mapping.lookup (clients r) c) = limiter e c" if "unsubscribe (router e) c t = (r, res)" for t r res
    using unsubscribe_effect [OF inv that] by (simp add: limiter_def)
  have cmd: "limiter (fst (handle_command e c cmd now_ms)) c = limiter e c" for cmd now_ms
    using sub uns by (auto simp: handle_command_def limiter_def split: ClientCommand.splits prod.splits sum.splits)
  have pay: "limiter (fst (handle_payload e c op payload now_ms)) c = limiter e c \<or> limiter (fst (handle_payload e c op payload now_ms)) c = None"
    for op payload now_ms
    using gone cmd by (auto simp: handle_payload_def split: WsOpcode.splits option.splits)
  show ?thesis
  proof (cases k)
    case (Inbound d bs now_ms)
    then have k': "k = Inbound c bs now_ms" using k by simp
    show ?thesis
    proof (cases rule: inbound_cases [of bs now_ms])
      case (rejected err)
      then show ?thesis using do by (simp add: k')
    next
      case panics
      then show ?thesis using do by (simp add: k')
    next
      case (handled op payload)
      then show ?thesis using do pay [of op payload now_ms] by (auto simp: k' split: prod.splits)
    qed
  qed (use k do gone in auto)
qed

lemma limiter_step:
  assumes inv: "router_inv (router e)" and do: "engine_do k e = Ret (e', out)" and k: "\<not> connects c k"
  defines "n \<equiv> if call_client k = None then length (frames_to c out) else 0"
  shows "((limiter e' c = limiter e c \<or> limiter e' c = None) \<and> n = 0) \<or>
    (\<exists>now_ms b b' ok. call_time k = Some now_ms \<and> limiter e c = Some b \<and> try_consume b 1 now_ms = (b', ok) \<and> limiter e' c = Some b' \<and> n = of_bool ok)"
proof -
  have ok: "router_wf (router e)" "\<not> topics_poisoned (router e)" "\<not> clients_poisoned (router e)" using inv by (simp_all add: router_inv_def)
  consider (own) "call_client k = Some c" | (other) d where "call_client k = Some d" "d \<noteq> c" | (quote) bbo now_ms where "k = Quote bbo now_ms"
    | (trade) t notional now_ms where "k = Trade t notional now_ms" by (cases k) auto
  then show ?thesis
  proof cases
    case own
    then show ?thesis using own_limiter [OF inv do own k] by (simp add: n_def)
  next
    case other
    have "engine_view d e e" using inv by (simp add: other_view_def)
    from own_call [OF other(1) this do] other show ?thesis by (simp add: n_def limiter_def other_view_def)
  next
    case quote
    obtain r m os where d: "dispatch_bbo (router e) bbo now_ms = (r, m, os)" by (metis prod_cases3)
    then have e': "router e' = r" "out = map (\<lambda>(d, p, bs). (d, frame_of p bs)) os"
      using do by (auto simp: quote broadcast_bbo_image [OF inv])
    show ?thesis
      using dispatch_limiter [OF dispatch_bbo_spec [OF ok, of bbo now_ms, unfolded d, folded e'(1)], of c]
      by (simp only: quote n_def e'(2) call_client.simps call_time.simps if_True refl) blast
  next
    case trade
    obtain r m os where d: "dispatch_trade (router e) t notional now_ms = (r, m, os)" by (metis prod_cases3)
    then have e': "router e' = r" "out = map (\<lambda>(d, p, bs). (d, frame_of p bs)) os"
      using do by (auto simp: trade broadcast_trade_image [OF inv])
    show ?thesis
      using dispatch_limiter [OF dispatch_trade_spec [OF ok, of notional t now_ms, unfolded d, folded e'(1)], of c]
      by (simp only: trade n_def e'(2) call_client.simps call_time.simps if_True refl) blast
  qed
qed

lemma granted_by_limiter:
  assumes "router_inv (router e)" and "\<forall>k \<in> set ks. \<not> connects c k"
  shows "\<exists>calls. broadcast_frames_to c ks e = (case limiter e c of None \<Rightarrow> 0 | Some b \<Rightarrow> tb_granted b calls) \<and>
    (\<forall>(n, now_ms) \<in> set calls. \<exists>k \<in> set ks. call_time k = Some now_ms)"
  using assms
proof (induction ks arbitrary: e)
  case Nil
  then show ?case by (intro exI [of _ "[]"]) (simp split: option.split)
next
  case (Cons k ks)
  show ?case
  proof (cases "engine_do k e")
    case Panic
    then show ?thesis by (intro exI [of _ "[]"]) (simp split: option.split)
  next
    case (Ret res)
    obtain e' out where do: "engine_do k e = Ret (e', out)" using Ret by (cases res) simp
    have inv: "router_inv (router e')" by (rule engine_do_inv [OF Cons.prems(1) do])
    obtain calls where calls: "broadcast_frames_to c ks e' = (case limiter e' c of None \<Rightarrow> 0 | Some b \<Rightarrow> tb_granted b calls)"
      "\<forall>(n, now_ms) \<in> set calls. \<exists>k \<in> set ks. call_time k = Some now_ms" using Cons.IH [OF inv] Cons.prems(2) by auto
    have k: "\<not> connects c k" using Cons.prems(2) by simp
    from limiter_step [OF Cons.prems(1) do k] show ?thesis
    proof (elim disjE conjE exE)
      assume "limiter e' c = limiter e c" "(if call_client k = None then length (frames_to c out) else 0) = 0"
      then show ?thesis using calls do by (intro exI [of _ calls]) auto
    next
      assume "limiter e' c = None" "(if call_client k = None then length (frames_to c out) else 0) = 0"
      then show ?thesis using calls do by (intro exI [of _ "[]"]) (auto split: option.split)
    next
      fix now_ms b b' ok
      assume "call_time k = Some now_ms" "limiter e c = Some b" "try_consume b 1 now_ms = (b', ok)" "limiter e' c = Some b'"
        "(if call_client k = None then length (frames_to c out) else 0) = of_bool ok"
      then show ?thesis using calls do by (intro exI [of _ "(1, now_ms) # calls"]) auto
    qed
  qed
qed

text \<open>What the calls of others leave of a client: its subscriptions and the fields of its session that decide
  whether and how it is served, apart from the limiter.\<close>

definition same_client :: "u32 \<Rightarrow> WebSocketServerEngine \<Rightarrow> WebSocketServerEngine \<Rightarrow> bool" where
  "same_client c e e' \<longleftrightarrow> (\<forall>t. subscribed (router e') t c \<longleftrightarrow> subscribed (router e) t c) \<and>
     rel_option (\<lambda>s s'. protocol s' = protocol s \<and> session_filter s' = session_filter s \<and>
         filter_poisoned s' = filter_poisoned s \<and> session_state s' = session_state s)
       (Mapping.lookup (clients (router e)) c) (Mapping.lookup (clients (router e')) c)"

lemma same_client_trans: "same_client c e e' \<Longrightarrow> same_client c e' e'' \<Longrightarrow> same_client c e e''"
  unfolding same_client_def by (auto elim!: option.rel_cases)

lemma dispatch_same_client:
  "dispatch_spec rejects payload now_ms (subscribers (router e) ts) (router e) (router e', m, out) \<Longrightarrow> same_client c e e'"
  using dispatch_on_client(2,3) [of rejects payload now_ms "router e" ts "router e'" m out]
  by (auto simp: same_client_def option.rel_map session_after_keeps session_after_fields intro!: option.rel_refl)

lemma call_same_client:
  assumes inv: "router_inv (router e)" and do: "engine_do k e = Ret (e', out)" and k: "call_client k \<noteq> Some c"
  shows "same_client c e e'"
proof -
  have ok: "router_wf (router e)" "\<not> topics_poisoned (router e)" "\<not> clients_poisoned (router e)" using inv by (simp_all add: router_inv_def)
  consider (other) d where "call_client k = Some d" "d \<noteq> c" | (quote) bbo now_ms where "k = Quote bbo now_ms"
    | (trade) t notional now_ms where "k = Trade t notional now_ms" using k by (cases k) auto
  then show ?thesis
  proof cases
    case other
    have "engine_view d e e" using inv by (simp add: other_view_def)
    from own_call [OF other(1) this do] other show ?thesis by (auto simp: same_client_def other_view_def intro!: option.rel_refl)
  next
    case quote
    obtain r m os where d: "dispatch_bbo (router e) bbo now_ms = (r, m, os)" by (metis prod_cases3)
    then have "router e' = r" using do by (auto simp: quote broadcast_bbo_image [OF inv])
    then show ?thesis using dispatch_same_client dispatch_bbo_spec [OF ok, of bbo now_ms] d by metis
  next
    case trade
    obtain r m os where d: "dispatch_trade (router e) t notional now_ms = (r, m, os)" by (metis prod_cases3)
    then have "router e' = r" using do by (auto simp: trade broadcast_trade_image [OF inv])
    then show ?thesis using dispatch_same_client dispatch_trade_spec [OF ok, of notional t now_ms] d by metis
  qed
qed

lemma run_same_client:
  assumes "router_inv (router e)" "engine_run ks e = Ret (e', out)" "\<forall>k \<in> set ks. call_client k \<noteq> Some c"
  shows "same_client c e e'"
  using assms
proof (induction ks arbitrary: e out)
  case Nil
  then show ?case by (auto simp: same_client_def intro!: option.rel_refl)
next
  case (Cons k ks)
  obtain e1 o1 o2 where run: "engine_do k e = Ret (e1, o1)" "engine_run ks e1 = Ret (e', o2)"
    using Cons.prems(2) unfolding run_calls_Cons_Ret by blast
  show ?case
    using same_client_trans [OF call_same_client [OF Cons.prems(1) run(1)] Cons.IH [OF engine_do_inv [OF Cons.prems(1) run(1)] run(2)]]
      Cons.prems(3) by simp
qed

section \<open>What a client makes of a frame\<close>

text \<open>The opcode and the payload of a complete unmasked frame.\<close>

definition read_frame :: "bytes \<Rightarrow> (WsOpcode \<times> bytes) option" where
  "read_frame f =
     (case decode_ws_frame_header f of
        Inl _ \<Rightarrow> None
      | Inr h \<Rightarrow> if masked h \<or> \<not> fin h \<or> unat (header_len h) + unat (payload_len h) \<noteq> length f then None
                 else Some (opcode h, drop (unat (header_len h)) f))"

lemma read_server_frame:
  assumes "length payload < 2 ^ 63"
  shows "read_frame (server_frame op payload) = Some (op, payload)"
proof -
  let ?h = "length (server_frame op payload) - length payload"
  have h: "?h \<le> 10" "?h + length payload = length (server_frame op payload)" by (simp_all add: length_server_frame)
  have "unat (of_nat ?h :: u64) = ?h" "unat (of_nat (length payload) :: u64) = length payload"
    using h(1) assms by (intro unat_of_nat_small; simp)+
  moreover have "drop ?h (server_frame op payload) = payload" by (simp add: server_frame_def)
  ultimately show ?thesis using decode_server_frame [of payload op "[]"] assms h(2) by (simp add: read_frame_def)
qed

section \<open>Properties\<close>

text \<open>C3: Clients are isolated from each other: in any run of the engine that does not panic, leaving out everything
  one client does (its connections, its disconnections, every frame it sends, whatever its bytes) changes nothing
  of what the other clients are sent, neither the broadcasts nor the replies, their bytes or their order.\<close>

theorem client_isolation:
  assumes "engine_run ks engine_new = Ret (e, out)"
  shows "\<exists>e' out'. engine_run (filter (\<lambda>k. call_client k \<noteq> Some c) ks) engine_new = Ret (e', out') \<and>
    filter (\<lambda>(d, _). d \<noteq> c) out' = filter (\<lambda>(d, _). d \<noteq> c) out"
proof -
  have "engine_view c engine_new engine_new" using engine_new_inv by (simp add: other_view_def)
  from ws.purged_run [OF this assms] show ?thesis by blast
qed

theorem client_isolation_witness:
  "\<exists>e out e' out'.
     engine_run [Connect 7 WireProtocol.Sbe 100 10 0, Connect 8 WireProtocol.Json 5 1 0,
       Inbound 8 (client_frame Text [1, 2, 3, 4] (subscribe_text 0 0 1 0)) 5, Quote bbo_default 9] engine_new = Ret (e, out) \<and>
     engine_run [Connect 7 WireProtocol.Sbe 100 10 0, Quote bbo_default 9] engine_new = Ret (e', out') \<and>
     filter (\<lambda>(d, _). d \<noteq> 8) out' = filter (\<lambda>(d, _). d \<noteq> 8) out"
proof -
  let ?ks = "[Connect 7 WireProtocol.Sbe 100 10 0, Connect 8 WireProtocol.Json 5 1 0,
    Inbound 8 (client_frame Text [1, 2, 3, 4] (subscribe_text 0 0 1 0)) 5, Quote bbo_default 9]"
  have "engine_do k e \<noteq> Panic" if "k \<in> set ?ks" for k e using that by (auto simp: inbound_subscribe split: prod.splits)
  from run_calls_total [of ?ks engine_do, OF this] obtain e out where run: "engine_run ?ks engine_new = Ret (e, out)" by blast
  from client_isolation [OF run, of 8] show ?thesis using run by auto
qed





end
