(* ===== verification/Cefi_Parser.thy ===== *)
theory Cefi_Parser
  imports Byte_Scan Fast_Json
begin

text \<open>
  The exchange message parsers of \<open>src/crates/cefi-ingest/src/lib.rs\<close>: the sequence-gap tracker, the
  substring field extractors, the ISO-8601 timestamp and the Binance, OKX and Coinbase parsers. An error
  message is the \<open>Inl\<close> string; \<open>?\<close> on a result is \<open>and_try\<close>.
\<close>

section \<open>The sequence tracker\<close>

datatype SyncStatus = Synchronizing | InSync | GapDetected (gap_expected: u64) (gap_received: u64)

record SequenceTracker =
  last_sequence :: u64
  sync_status :: SyncStatus
  gaps_detected :: u64
  updates_processed :: u64

definition tracker_new :: SequenceTracker where
  "tracker_new = \<lparr>last_sequence = 0, sync_status = Synchronizing, gaps_detected = 0, updates_processed = 0\<rparr>"

definition on_snapshot :: "SequenceTracker \<Rightarrow> u64 \<Rightarrow> SequenceTracker" where
  "on_snapshot t snapshot_last_seq = t\<lparr>last_sequence := snapshot_last_seq, sync_status := InSync\<rparr>"

definition validate_sequence :: "SequenceTracker \<Rightarrow> u64 \<Rightarrow> u64 \<Rightarrow> SequenceTracker \<times> bool" where
  "validate_sequence t first_seq final_seq =
     (if sync_status t = Synchronizing then (t, False)
      else let expected = last_sequence t + 1
           in if first_seq \<le> expected \<and> expected \<le> final_seq
              then (t\<lparr>last_sequence := final_seq, updates_processed := updates_processed t + 1\<rparr>, True)
              else if final_seq \<le> last_sequence t then (t, False)
              else (t\<lparr>sync_status := GapDetected expected first_seq, gaps_detected := gaps_detected t + 1\<rparr>, False))"

section \<open>Field extraction\<close>

definition and_try :: "'e + 'a \<Rightarrow> ('a \<Rightarrow> 'e + 'b) \<Rightarrow> 'e + 'b" where
  "and_try r f = (case r of Inl e \<Rightarrow> Inl e | Inr x \<Rightarrow> f x)"

definition ok_or :: "'a option \<Rightarrow> 'e \<Rightarrow> 'e + 'a" where
  "ok_or x e = (case x of None \<Rightarrow> Inl e | Some v \<Rightarrow> Inr v)"

definition unwrap_or :: "'a option \<Rightarrow> 'a \<Rightarrow> 'a" where
  "unwrap_or x d = (case x of None \<Rightarrow> d | Some v \<Rightarrow> v)"

definition res_ok :: "'e + 'a \<Rightarrow> 'a option" where
  "res_ok r = (case r of Inl _ \<Rightarrow> None | Inr x \<Rightarrow> Some x)"

text \<open>The scan loop of \<open>find_subsequence\<close> from offset \<open>s\<close>; \<open>end\<close> is the last offset tried.\<close>

function find_loop :: "bytes \<Rightarrow> bytes \<Rightarrow> nat \<Rightarrow> nat \<Rightarrow> nat option" where
  "find_loop haystack needle end_pos s =
     (if s \<le> end_pos
      then if haystack ! s = needle ! 0 \<and> haystack ! (s + length needle - 1) = needle ! (length needle - 1)
              \<and> subslice haystack s (length needle) = needle
           then Some s else find_loop haystack needle end_pos (s + 1)
      else None)"
  by pat_completeness auto
termination by (relation "measure (\<lambda>(h, n, e, s). e + 1 - s)") auto

declare find_loop.simps [simp del]

definition find_subsequence :: "bytes \<Rightarrow> bytes \<Rightarrow> nat option" where
  "find_subsequence haystack needle =
     (if length needle = 0 \<or> length haystack < length needle then None
      else find_loop haystack needle (length haystack - length needle) 0)"

definition is_blank :: "u8 \<Rightarrow> bool" where
  "is_blank b \<longleftrightarrow> b = 32 \<or> b = 9"

definition extract_json_str_field :: "bytes \<Rightarrow> bytes \<Rightarrow> string + bytes" where
  "extract_json_str_field src key =
     (case find_subsequence src key of
        None \<Rightarrow> Inl ''Field not found''
      | Some pos \<Rightarrow>
          let rest = dropWhile is_blank (drop (pos + length key) src)
          in if rest \<noteq> [] \<and> hd rest = 34
             then let content = takeWhile (\<lambda>b. b \<noteq> 34) (tl rest)
                  in if length content < length (tl rest) then Inr content else Inl ''Field not found''
             else Inl ''Field not found'')"

definition extract_json_int_field :: "bytes \<Rightarrow> bytes \<Rightarrow> u64 option" where
  "extract_json_int_field src key =
     (case find_subsequence src key of
        None \<Rightarrow> None
      | Some pos \<Rightarrow>
          let rest = dropWhile (\<lambda>b. is_blank b \<or> b = 34) (drop (pos + length key) src);
              ds = takeWhile is_ascii_digit rest;
              num = foldl (\<lambda>n b. n * 10 + ucast (b - 48)) 0 ds
          in if ds \<noteq> [] then Some num else None)"

definition extract_json_bool_field :: "bytes \<Rightarrow> bytes \<Rightarrow> bool option" where
  "extract_json_bool_field src key =
     (case find_subsequence src key of
        None \<Rightarrow> None
      | Some pos \<Rightarrow>
          let rest = dropWhile is_blank (drop (pos + length key) src)
          in if 4 \<le> length rest \<and> take 4 rest = bstr ''true'' then Some True
             else if 5 \<le> length rest \<and> take 5 rest = bstr ''false'' then Some False
             else None)"

section \<open>Timestamps\<close>

text \<open>The local function \<open>num\<close>.\<close>

fun iso_num :: "u64 \<Rightarrow> bytes \<Rightarrow> u64 option" where
  "iso_num v [] = Some v"
| "iso_num v (c # cs) = (if \<not> is_ascii_digit c then None else iso_num (v * 10 + ucast (c - 48)) cs)"

text \<open>The loop over the fraction: the digits so far, their number and the rest of the text.\<close>

fun iso_frac :: "u64 \<Rightarrow> nat \<Rightarrow> bytes \<Rightarrow> (u64 \<times> nat \<times> bytes) option" where
  "iso_frac frac_ns n [] = Some (frac_ns, n, [])"
| "iso_frac frac_ns n (c # cs) =
     (if c = 90 then Some (frac_ns, n, c # cs)
      else if n < 9
      then if is_ascii_digit c then iso_frac (frac_ns * 10 + ucast (c - 48)) (n + 1) cs else None
      else if \<not> is_ascii_digit c then None else iso_frac frac_ns n cs)"

text \<open>Days since 1970-01-01. The year has four digits, so no intermediate value leaves the range of \<open>i64\<close>
  and the signed integers are read as \<^typ>\<open>int\<close>; division truncates.\<close>

definition days_from_civil :: "int \<Rightarrow> int \<Rightarrow> int \<Rightarrow> int" where
  "days_from_civil y m d =
     (let y = (if m \<le> 2 then y - 1 else y);
          era = (if y \<ge> 0 then y else y - 399) sdiv 400;
          yoe = y - era * 400;
          mp = (m + 9) smod 12;
          doy = (153 * mp + 2) sdiv 5 + d - 1;
          doe = yoe * 365 + yoe sdiv 4 - yoe sdiv 100 + doy
      in era * 146097 + doe - 719468)"

definition parse_iso8601_utc_ns :: "bytes \<Rightarrow> u64 option" where
  "parse_iso8601_utc_ns s =
     (if length s < 20 \<or> s ! 4 \<noteq> 45 \<or> s ! 7 \<noteq> 45 \<or> s ! 10 \<noteq> 84 \<or> s ! 13 \<noteq> 58 \<or> s ! 16 \<noteq> 58 then None
      else case iso_num 0 (subslice s 0 4) of None \<Rightarrow> None | Some y \<Rightarrow>
           case iso_num 0 (subslice s 5 2) of None \<Rightarrow> None | Some m \<Rightarrow>
           case iso_num 0 (subslice s 8 2) of None \<Rightarrow> None | Some d \<Rightarrow>
           case iso_num 0 (subslice s 11 2) of None \<Rightarrow> None | Some hh \<Rightarrow>
           case iso_num 0 (subslice s 14 2) of None \<Rightarrow> None | Some mi \<Rightarrow>
           case iso_num 0 (subslice s 17 2) of None \<Rightarrow> None | Some ss \<Rightarrow>
           if \<not> (1 \<le> m \<and> m \<le> 12) \<or> \<not> (1 \<le> d \<and> d \<le> 31) \<or> 23 < hh \<or> 59 < mi \<or> 60 < ss then None
           else case (if s ! 19 = 46
                      then case iso_frac 0 0 (drop 20 s) of
                             None \<Rightarrow> None | Some (frac_ns, n, rest) \<Rightarrow> Some (frac_ns * 10 ^ (9 - n), rest)
                      else Some (0, drop 19 s)) of
                  None \<Rightarrow> None
                | Some (frac_ns, rest) \<Rightarrow>
                    if rest = [] \<or> hd rest \<noteq> 90 then None
                    else let days = days_from_civil (int (unat y)) (int (unat m)) (int (unat d))
                         in if days < 0 then None
                            else let secs = of_int days * 86400 + hh * 3600 + mi * 60 + ss
                                 in Some (secs * 1000000000 + frac_ns))"

section \<open>The parsers\<close>

definition quote_spread_bps :: "i64 \<Rightarrow> i64 \<Rightarrow> u16" where
  "quote_spread_bps bp ap = (if sint bp < sint ap \<and> 0 < sint bp then ucast (sdivide ((ap - bp) * 10000) bp) else 0)"

definition ingest_telemetry :: "u64 \<Rightarrow> u64 \<Rightarrow> TelemetryTimestamps" where
  "ingest_telemetry t0 t1 = \<lparr>t0_exchange_ns = t0, t1_ingest_nic_ns = t1, t2_engine_proc_ns = 0, t3_egress_ns = 0\<rparr>"

definition parse_binance_bbo :: "u32 \<Rightarrow> bytes \<Rightarrow> u64 \<Rightarrow> string + NormalizedBbo" where
  "parse_binance_bbo market_id payload t1_ingest_ns =
     and_try (extract_json_str_field payload (bstr ''\"b\":'')) (\<lambda>bid_px.
     and_try (extract_json_str_field payload (bstr ''\"B\":'')) (\<lambda>bid_sz.
     and_try (extract_json_str_field payload (bstr ''\"a\":'')) (\<lambda>ask_px.
     and_try (extract_json_str_field payload (bstr ''\"A\":'')) (\<lambda>ask_sz.
     let event_time = unwrap_or (extract_json_int_field payload (bstr ''\"E\":'')) 0;
         seq = unwrap_or (extract_json_int_field payload (bstr ''\"u\":'')) 0;
         bp = parse_fixed_point_8 bid_px; bq = parse_fixed_point_8 bid_sz;
         ap = parse_fixed_point_8 ask_px; aq = parse_fixed_point_8 ask_sz
     in Inr \<lparr>bbo_telemetry = ingest_telemetry (event_time * 1000000) t1_ingest_ns, bbo_market_id = market_id,
             bbo_venue = venue_code Binance, bbo_chain = chain_code OffChain, bbo_sequence = seq,
             bid_price = bp, bid_qty = bq, ask_price = ap, ask_qty = aq,
             spread_bps = quote_spread_bps bp ap, bbo_flags = 0\<rparr>))))"

definition parse_binance_trade :: "u32 \<Rightarrow> bytes \<Rightarrow> u64 \<Rightarrow> string + UnifiedTrade" where
  "parse_binance_trade market_id payload t1_ingest_ns =
     (let trade_time = unwrap_or (extract_json_int_field payload (bstr ''\"T\":'')) 0;
          tid = unwrap_or (extract_json_int_field payload (bstr ''\"t\":'')) 0
      in and_try (extract_json_str_field payload (bstr ''\"p\":'')) (\<lambda>price_bytes.
         and_try (extract_json_str_field payload (bstr ''\"q\":'')) (\<lambda>qty_bytes.
         let is_buyer_maker = unwrap_or (extract_json_bool_field payload (bstr ''\"m\":'')) False
         in Inr \<lparr>trade_telemetry = ingest_telemetry (trade_time * 1000000) t1_ingest_ns, trade_market_id = market_id,
                 trade_venue = venue_code Binance, trade_chain = chain_code OffChain, trade_sequence = tid,
                 trade_id = tid, trade_price = parse_fixed_point_8 price_bytes,
                 trade_size = parse_fixed_point_8 qty_bytes, trade_side = (if is_buyer_maker then 2 else 1),
                 is_liquidation = False\<rparr>)))"

definition parse_okx_bbo :: "u32 \<Rightarrow> bytes \<Rightarrow> u64 \<Rightarrow> string + NormalizedBbo" where
  "parse_okx_bbo market_id payload t1_ingest_ns =
     and_try (extract_json_str_field payload (bstr ''\"bidPx\":'')) (\<lambda>bid_px.
     and_try (extract_json_str_field payload (bstr ''\"bidSz\":'')) (\<lambda>bid_sz.
     and_try (extract_json_str_field payload (bstr ''\"askPx\":'')) (\<lambda>ask_px.
     and_try (extract_json_str_field payload (bstr ''\"askSz\":'')) (\<lambda>ask_sz.
     let ts_ms = unwrap_or (res_ok (extract_json_str_field payload (bstr ''\"ts\":''))) (bstr ''0'');
         event_time = parse_fixed_point_8 ts_ms div 100000000;
         bp = parse_fixed_point_8 bid_px; bq = parse_fixed_point_8 bid_sz;
         ap = parse_fixed_point_8 ask_px; aq = parse_fixed_point_8 ask_sz
     in Inr \<lparr>bbo_telemetry = ingest_telemetry (event_time * 1000000) t1_ingest_ns, bbo_market_id = market_id,
             bbo_venue = venue_code Okx, bbo_chain = chain_code OffChain, bbo_sequence = event_time,
             bid_price = bp, bid_qty = bq, ask_price = ap, ask_qty = aq,
             spread_bps = quote_spread_bps bp ap, bbo_flags = 0\<rparr>))))"

definition coinbase_time :: "bytes \<Rightarrow> u64" where
  "coinbase_time payload =
     unwrap_or (case res_ok (extract_json_str_field payload (bstr ''\"time\":'')) of
                  None \<Rightarrow> None | Some s \<Rightarrow> parse_iso8601_utc_ns s) 0"

definition parse_coinbase_ticker_bbo :: "u32 \<Rightarrow> bytes \<Rightarrow> u64 \<Rightarrow> string + NormalizedBbo" where
  "parse_coinbase_ticker_bbo market_id payload t1_ingest_ns =
     and_try (extract_json_str_field payload (bstr ''\"best_bid\":'')) (\<lambda>bid_px.
     and_try (extract_json_str_field payload (bstr ''\"best_bid_size\":'')) (\<lambda>bid_sz.
     and_try (extract_json_str_field payload (bstr ''\"best_ask\":'')) (\<lambda>ask_px.
     and_try (extract_json_str_field payload (bstr ''\"best_ask_size\":'')) (\<lambda>ask_sz.
     and_try (ok_or (extract_json_int_field payload (bstr ''\"sequence\":'')) ''sequence missing'') (\<lambda>seq.
     let t0 = coinbase_time payload;
         bp = parse_fixed_point_8 bid_px; bq = parse_fixed_point_8 bid_sz;
         ap = parse_fixed_point_8 ask_px; aq = parse_fixed_point_8 ask_sz
     in Inr \<lparr>bbo_telemetry = ingest_telemetry t0 t1_ingest_ns, bbo_market_id = market_id,
             bbo_venue = venue_code Coinbase, bbo_chain = chain_code OffChain, bbo_sequence = seq,
             bid_price = bp, bid_qty = bq, ask_price = ap, ask_qty = aq,
             spread_bps = quote_spread_bps bp ap, bbo_flags = 0\<rparr>)))))"

definition parse_coinbase_ticker_trade :: "u32 \<Rightarrow> bytes \<Rightarrow> u64 \<Rightarrow> string + UnifiedTrade" where
  "parse_coinbase_ticker_trade market_id payload t1_ingest_ns =
     and_try (extract_json_str_field payload (bstr ''\"price\":'')) (\<lambda>price.
     and_try (extract_json_str_field payload (bstr ''\"last_size\":'')) (\<lambda>sz.
     and_try (extract_json_str_field payload (bstr ''\"side\":'')) (\<lambda>side.
     and_try (ok_or (extract_json_int_field payload (bstr ''\"trade_id\":'')) ''trade_id missing'') (\<lambda>tid.
     let seq = unwrap_or (extract_json_int_field payload (bstr ''\"sequence\":'')) 0;
         t0 = coinbase_time payload
     in Inr \<lparr>trade_telemetry = ingest_telemetry t0 t1_ingest_ns, trade_market_id = market_id,
             trade_venue = venue_code Coinbase, trade_chain = chain_code OffChain, trade_sequence = seq,
             trade_id = tid, trade_price = parse_fixed_point_8 price, trade_size = parse_fixed_point_8 sz,
             trade_side = (if side = bstr ''sell'' then 2 else 1), is_liquidation = False\<rparr>))))"

definition coinbase_message_type :: "bytes \<Rightarrow> bytes option" where
  "coinbase_message_type payload = res_ok (extract_json_str_field payload (bstr ''\"type\":''))"

definition coinbase_trade_id :: "bytes \<Rightarrow> u64 option" where
  "coinbase_trade_id payload =
     (case extract_json_int_field payload (bstr ''\"trade_id\":'') of
        Some v \<Rightarrow> Some v
      | None \<Rightarrow> extract_json_int_field payload (bstr ''\"last_trade_id\":''))"

definition coinbase_sequence :: "bytes \<Rightarrow> u64 option" where
  "coinbase_sequence payload = extract_json_int_field payload (bstr ''\"sequence\":'')"

definition coinbase_product_id :: "bytes \<Rightarrow> bytes option" where
  "coinbase_product_id payload = res_ok (extract_json_str_field payload (bstr ''\"product_id\":''))"

section \<open>The scanner finds the first occurrence\<close>

lemma str_find_short: "length s < length pat \<Longrightarrow> str_find pat s = None"
proof (induction s)
  case (Cons c cs)
  then have "take (length pat) (c # cs) \<noteq> pat" by (metis length_take min.strict_order_iff min.commute nat_less_le)
  then show ?case using Cons by simp
qed simp

lemma find_loop_str_find:
  assumes "needle \<noteq> []" and "length needle \<le> length haystack" and "s \<le> length haystack - length needle + 1"
  shows "find_loop haystack needle (length haystack - length needle) s = map_option ((+) s) (str_find needle (drop s haystack))"
  using assms(3)
proof (induction "length haystack - length needle + 1 - s" arbitrary: s)
  case 0
  moreover have "0 < length needle" using assms(1) by (rule length_greater_0_conv [THEN iffD2])
  ultimately have "length (drop s haystack) < length needle" using assms(2) unfolding length_drop by linarith
  then have "str_find needle (drop s haystack) = None" by (rule str_find_short)
  then show ?case using 0 by (simp add: find_loop.simps)
next
  case (Suc k)
  have pos: "0 < length needle" using assms(1) by (rule length_greater_0_conv [THEN iffD2])
  have s: "s < length haystack" "s + length needle \<le> length haystack" using Suc.hyps(2) assms(2) pos by linarith+
  have dr: "drop s haystack = haystack ! s # drop (Suc s) haystack" by (rule Cons_nth_drop_Suc [OF s(1), symmetric])
  have hit: "haystack ! s = needle ! 0 \<and> haystack ! (s + length needle - 1) = needle ! (length needle - 1)"
    if "subslice haystack s (length needle) = needle"
  proof -
    have "\<forall>i < length needle. haystack ! (s + i) = needle ! i" using that s nth_slice [of s "length needle" haystack] by metis
    moreover have "0 < length needle" using assms(1) by simp
    moreover have "s + length needle - 1 = s + (length needle - 1)" using assms(1) by (cases needle) simp_all
    ultimately show ?thesis by (metis add.right_neutral diff_less zero_less_one)
  qed
  have le: "s \<le> length haystack - length needle" using s by simp
  have unfold: "find_loop haystack needle (length haystack - length needle) s =
      (if subslice haystack s (length needle) = needle then Some s
       else find_loop haystack needle (length haystack - length needle) (s + 1))"
    using hit le by (subst find_loop.simps) auto
  have IH: "find_loop haystack needle (length haystack - length needle) (s + 1) = map_option ((+) (s + 1)) (str_find needle (drop (s + 1) haystack))"
    using Suc.hyps(2) le by (intro Suc.hyps(1)) simp_all
  show ?case
    by (cases "str_find needle (drop (Suc s) haystack)")
       (use IH in \<open>simp_all add: unfold dr subslice_def\<close>)
qed

lemma find_subsequence_str_find:
  "find_subsequence haystack needle = (if needle = [] then None else str_find needle haystack)"
proof (cases "needle = [] \<or> length haystack < length needle")
  case True
  then show ?thesis using str_find_short [of haystack needle] by (auto simp: find_subsequence_def)
next
  case False
  then show ?thesis
    using find_loop_str_find [of needle haystack 0]
    by (cases "str_find needle haystack") (auto simp: find_subsequence_def)
qed

lemma str_find_first:
  "pat \<noteq> [] \<Longrightarrow> str_find pat s = Some k \<Longrightarrow> j < k \<Longrightarrow> subslice s j (length pat) \<noteq> pat"
proof (induction pat s arbitrary: j k rule: str_find.induct)
  case (2 pat c cs)
  then have ne: "take (length pat) (c # cs) \<noteq> pat" by (auto split: if_splits)
  then obtain k' where k': "str_find pat cs = Some k'" "k = Suc k'" using 2(3) by auto
  show ?case
  proof (cases j)
    case 0
    then show ?thesis using ne by (simp add: subslice_def)
  next
    case (Suc j')
    then show ?thesis using 2(1) [OF ne 2(2) k'(1), of j'] 2(4) k'(2) by (simp add: subslice_def)
  qed
qed simp

lemma str_find_None: "str_find pat s = None \<Longrightarrow> j + length pat \<le> length s \<Longrightarrow> subslice s j (length pat) \<noteq> pat"
proof (induction pat s arbitrary: j rule: str_find.induct)
  case (2 pat c cs)
  then have ne: "take (length pat) (c # cs) \<noteq> pat" "str_find pat cs = None" by (auto split: if_splits)
  show ?case
  proof (cases j)
    case 0
    then show ?thesis using ne by (simp add: subslice_def)
  next
    case (Suc j')
    then show ?thesis using 2(1) [OF ne, of j'] 2(3) by (simp add: subslice_def)
  qed
qed (auto split: if_splits)

text \<open>The accelerated substring search, which compares the first and last byte before the whole window,
  returns exactly the first position at which the key occurs in the message, and nothing when it occurs
  nowhere; an empty key is never found.\<close>

theorem find_subsequence_first:
  "find_subsequence haystack needle = Some s \<longleftrightarrow>
     needle \<noteq> [] \<and> s + length needle \<le> length haystack \<and> subslice haystack s (length needle) = needle \<and>
     (\<forall>j < s. subslice haystack j (length needle) \<noteq> needle)"
proof (cases "str_find needle haystack")
  case None
  then show ?thesis using str_find_None [OF None] by (auto simp: find_subsequence_str_find)
next
  case (Some k)
  show ?thesis
  proof (cases "needle = []")
    case False
    have k: "k + length needle \<le> length haystack" "subslice haystack k (length needle) = needle"
      using str_find_Some [OF Some] by simp_all
    have "\<forall>j < k. subslice haystack j (length needle) \<noteq> needle" using str_find_first [OF False Some] by blast
    then show ?thesis using k False Some by (auto simp: find_subsequence_str_find) (metis linorder_neqE_nat)
  qed (simp add: find_subsequence_str_find)
qed

theorem find_subsequence_first_witness:
  "find_subsequence [120, 120, 97, 98, 99, 97, 98, 99] [97, 98, 99] = Some 2"
  using find_subsequence_first [of "[120, 120, 97, 98, 99, 97, 98, 99]" "[97, 98, 99]" 2]
  by (simp add: subslice_def numeral_2_eq_2 less_Suc_eq)

section \<open>The sequence tracker misses nothing\<close>

text \<open>A run of deltas: the tracker behind it and the deltas it accepted.\<close>

fun track :: "SequenceTracker \<Rightarrow> (u64 \<times> u64) list \<Rightarrow> SequenceTracker \<times> (u64 \<times> u64) list" where
  "track t [] = (t, [])"
| "track t ((a, b) # ds) =
     (case validate_sequence t a b of (t', ok) \<Rightarrow>
      case track t' ds of (t'', acc) \<Rightarrow> (t'', if ok then (a, b) # acc else acc))"

lemma less_plus_one: "a \<noteq> - 1 \<Longrightarrow> a < a + 1" for a :: u64
  using unatSuc [of a] by (simp add: word_less_nat_alt add.commute eq_neg_iff_add_eq_0)

lemma validate_sequence_cases:
  assumes "validate_sequence t a b = (t', ok)" and "sync_status t \<noteq> Synchronizing"
  shows "sync_status t' \<noteq> Synchronizing \<and>
    (if ok then a \<le> last_sequence t + 1 \<and> last_sequence t + 1 \<le> b \<and> last_sequence t' = b \<and> updates_processed t' = updates_processed t + 1
     else last_sequence t' = last_sequence t \<and> updates_processed t' = updates_processed t)"
  using assms by (auto simp: validate_sequence_def Let_def split: if_splits)

lemma track_covers:
  assumes "track t ds = (t', acc)" and "sync_status t \<noteq> Synchronizing" and "last_sequence t \<noteq> - 1"
    and "\<forall>d \<in> set ds. snd d \<noteq> - 1"
  shows "last_sequence t \<le> last_sequence t' \<and> last_sequence t' \<noteq> - 1 \<and> sync_status t' \<noteq> Synchronizing \<and>
    updates_processed t' = updates_processed t + of_nat (length acc) \<and>
    (\<forall>s. last_sequence t < s \<and> s \<le> last_sequence t' \<longrightarrow> (\<exists>(a, b) \<in> set acc. a \<le> s \<and> s \<le> b)) \<and>
    sorted_wrt (\<lambda>x y. snd x < snd y) acc \<and> (\<forall>(a, b) \<in> set acc. last_sequence t < b \<and> b \<le> last_sequence t')"
  using assms
proof (induction ds arbitrary: t acc)
  case (Cons d ds)
  obtain a b where d: "d = (a, b)" by (cases d)
  obtain t1 ok where v: "validate_sequence t a b = (t1, ok)" by (cases "validate_sequence t a b")
  obtain acc1 where tr: "track t1 ds = (t', acc1)" and acc: "acc = (if ok then (a, b) # acc1 else acc1)"
    using Cons.prems(1) by (auto simp: d v split: prod.splits)
  note v' = validate_sequence_cases [OF v Cons.prems(2)]
  have l1: "last_sequence t1 \<noteq> - 1" using v' Cons.prems(3,4) by (auto simp: d split: if_splits)
  note IH = Cons.IH [OF tr _ l1]
  show ?case
  proof (cases ok)
    case True
    have "last_sequence t < last_sequence t + 1" using Cons.prems(3) by (rule less_plus_one)
    then have step: "last_sequence t < b" "last_sequence t1 = b" "a \<le> last_sequence t + 1" using v' True by auto
    have cover: "a \<le> s" if "last_sequence t < s" for s
      using that step(3) inc_le [of "last_sequence t" s] by simp
    have ih: "b \<le> last_sequence t'" "last_sequence t' \<noteq> - 1" "sync_status t' \<noteq> Synchronizing"
        "updates_processed t' = updates_processed t1 + of_nat (length acc1)" "sorted_wrt (\<lambda>x y. snd x < snd y) acc1"
      and cov1: "\<And>s. b < s \<Longrightarrow> s \<le> last_sequence t' \<Longrightarrow> \<exists>(a, b) \<in> set acc1. a \<le> s \<and> s \<le> b"
      and in1: "\<And>x. x \<in> set acc1 \<Longrightarrow> b < snd x \<and> snd x \<le> last_sequence t'"
      using IH v' Cons.prems(4) step(2) by fastforce+
    have cov: "\<exists>(a, b) \<in> set acc. a \<le> s \<and> s \<le> b" if "last_sequence t < s" "s \<le> last_sequence t'" for s
      using cov1 [of s] cover [OF that(1)] that(2) True by (cases "s \<le> b") (auto simp: acc)
    have ins: "\<forall>(x, y) \<in> set acc. last_sequence t < y \<and> y \<le> last_sequence t'"
      using in1 step(1) ih(1) True by (fastforce simp: acc)
    have "last_sequence t \<le> last_sequence t'" using step(1) ih(1) by simp
    moreover have "updates_processed t' = updates_processed t + of_nat (length acc)"
      using ih(4) v' True by (simp add: acc)
    moreover have "sorted_wrt (\<lambda>x y. snd x < snd y) acc" using in1 ih(5) True by (simp add: acc)
    ultimately show ?thesis using ih(2,3) cov ins by blast
  next
    case False
    then show ?thesis using IH v' Cons.prems(4) by (simp add: acc)
  qed
qed (auto simp: not_le)

text \<open>C24: The sequence tracker loses nothing: after a snapshot at \<open>s0\<close>, whatever deltas arrive, every sequence
  number after the snapshot up to the tracker's position lies inside a delta it accepted, the accepted deltas
  end at strictly increasing numbers, and \<open>updates_processed\<close> counts them. (No delta ends at the largest
  64-bit number, where the expected number wraps.)\<close>

theorem sequence_tracker_no_loss:
  assumes "track (on_snapshot tracker_new s0) ds = (t, acc)" and "s0 \<noteq> - 1" and "\<forall>d \<in> set ds. snd d \<noteq> - 1"
  shows "s0 \<le> last_sequence t \<and> (\<forall>s. s0 < s \<and> s \<le> last_sequence t \<longrightarrow> (\<exists>(a, b) \<in> set acc. a \<le> s \<and> s \<le> b)) \<and>
    sorted_wrt (\<lambda>x y. snd x < snd y) acc \<and> updates_processed t = of_nat (length acc)"
  using track_covers [OF assms(1)] assms(2,3) by (simp add: on_snapshot_def tracker_new_def)

theorem sequence_tracker_no_loss_witness:
  "\<exists>t acc. track (on_snapshot tracker_new 100) [(101, 105), (108, 110), (104, 107)] = (t, acc) \<and>
     updates_processed t = of_nat (length acc) \<and> last_sequence t = 107 \<and> length acc = 2"
  using sequence_tracker_no_loss [of 100 "[(101, 105), (108, 110), (104, 107)]"]
  by (simp add: validate_sequence_def on_snapshot_def tracker_new_def Let_def)

end
