(* ===== verification/Cefi_Exact.thy ===== *)
theory Cefi_Exact
  imports Cefi_Parser
begin

text \<open>
  What the exchange parsers compute: ISO-8601 timestamps against the Gregorian calendar, and Coinbase
  tickers against the values that were printed into them.
\<close>

section \<open>The calendar\<close>

definition leap_year :: "nat \<Rightarrow> bool" where
  "leap_year y \<longleftrightarrow> 4 dvd y \<and> (\<not> 100 dvd y \<or> 400 dvd y)"

definition year_days :: "nat \<Rightarrow> nat" where
  "year_days y = (if leap_year y then 366 else 365)"

definition month_days :: "nat \<Rightarrow> nat \<Rightarrow> nat" where
  "month_days y m = (if m = 2 then if leap_year y then 29 else 28 else if m \<in> {4, 6, 9, 11} then 30 else 31)"

text \<open>The days from 1970-01-01 to a date: whole years, whole months of its year, days of its month.\<close>

definition civil_days :: "nat \<Rightarrow> nat \<Rightarrow> nat \<Rightarrow> nat" where
  "civil_days y m d = (\<Sum>k = 1970..<y. year_days k) + (\<Sum>k = 1..<m. month_days y k) + (d - 1)"

definition day_number :: "nat \<Rightarrow> int" where
  "day_number y = 365 * int y + int (y div 4) - int (y div 100) + int (y div 400)"

lemma day_number_Suc: "day_number (Suc y) = day_number y + int (year_days (Suc y))"
proof -
  have "100 dvd Suc y" if "400 dvd Suc y" by (rule dvd_trans [OF _ that]) simp
  moreover have "4 dvd Suc y" if "100 dvd Suc y" by (rule dvd_trans [OF _ that]) simp
  ultimately show ?thesis
    by (simp add: day_number_def year_days_def leap_year_def div_Suc flip: dvd_eq_mod_eq_0)
qed

lemma years_day_number: "1970 \<le> y \<Longrightarrow> int (\<Sum>k = 1970..<y. year_days k) = day_number (y - 1) - day_number 1969"
proof (induction y rule: nat_induct_at_least)
  case (Suc n)
  have "day_number n = day_number (n - 1) + int (year_days n)" using day_number_Suc [of "n - 1"] Suc.hyps by simp
  then show ?case using Suc by simp
qed simp

lemma sdiv_nonneg: "0 \<le> k \<Longrightarrow> 0 < l \<Longrightarrow> k sdiv l = k div l" for k l :: int
  by (cases "k = 0") (simp_all add: signed_divide_int_def)

lemma smod_nonneg: "0 \<le> k \<Longrightarrow> 0 < l \<Longrightarrow> k smod l = k mod l" for k l :: int
  by (cases "k = 0") (simp_all add: signed_modulo_int_def sdiv_nonneg minus_div_mult_eq_mod)

text \<open>The era arithmetic of Hinnant's algorithm is the closed form.\<close>

lemma era_days:
  fixes y :: nat
  defines "era \<equiv> int y div 400"
  defines "yoe \<equiv> int y - era * 400"
  shows "era * 146097 + (yoe * 365 + yoe div 4 - yoe div 100) = day_number y"
proof -
  have y: "int y = yoe + era * 400" by (simp add: yoe_def)
  have "int y div 4 = yoe div 4 + era * 100"
    using div_mult_self1 [of 4 yoe "era * 100"] by (simp add: y)
  moreover have "int y div 100 = yoe div 100 + era * 4"
    using div_mult_self1 [of 100 yoe "era * 4"] by (simp add: y)
  moreover have "day_number y = 365 * int y + int y div 4 - int y div 100 + era"
    by (simp add: day_number_def era_def zdiv_int)
  ultimately show ?thesis using y by linarith
qed

lemma days_from_civil_calendar:
  assumes "1970 \<le> y" and "1 \<le> m" "m \<le> 12" and "1 \<le> d"
  shows "days_from_civil (int y) (int m) (int d) = int (civil_days y m d)"
proof -
  define yy where "yy = (if m \<le> 2 then y - 1 else y)"
  have yy: "(if int m \<le> 2 then int y - 1 else int y) = int yy" using assms by (simp add: yy_def of_nat_diff)
  have nn: "0 \<le> int yy - int yy div 400 * 400" by (simp add: minus_div_mult_eq_mod)
  have "days_from_civil (int y) (int m) (int d) = day_number yy + ((153 * ((int m + 9) mod 12) + 2) div 5 + int d - 1) - 719468"
    unfolding days_from_civil_def Let_def yy era_days [of yy, symmetric]
    using nn by (simp add: sdiv_nonneg smod_nonneg)
  moreover have "day_number y = day_number (y - 1) + int (year_days y)" using day_number_Suc [of "y - 1"] assms(1) by simp
  moreover have "m \<in> {1, 2, 3, 4, 5, 6, 7, 8, 9, 10, 11, 12}" using assms(2,3) unfolding insert_iff empty_iff by presburger
  moreover have "day_number 1969 = 719162" by (simp add: day_number_def)
  moreover note years_day_number [OF assms(1)]
  ultimately show ?thesis using assms(4)
    by (elim insertE emptyE)
       (simp_all add: yy_def civil_days_def year_days_def month_days_def atLeastLessThan_nat_numeral of_nat_diff)
qed

section \<open>Timestamps\<close>

definition iso_text :: "nat \<Rightarrow> nat \<Rightarrow> nat \<Rightarrow> nat \<Rightarrow> nat \<Rightarrow> nat \<Rightarrow> nat list \<Rightarrow> bytes" where
  "iso_text y m d hh mi ss ys =
     pad 4 y @ 45 # pad 2 m @ 45 # pad 2 d @ 84 # pad 2 hh @ 58 # pad 2 mi @ 58 # pad 2 ss
     @ (if ys = [] then [] else 46 # ascii ys) @ [90]"

lemma ascii_byte: "d < 10 \<Longrightarrow> is_ascii_digit (48 + of_nat d) \<and> (48 + of_nat d :: u8) \<noteq> 90 \<and> (ucast (of_nat d :: u8) :: u64) = of_nat d"
proof (intro conjI)
  assume d: "d < 10"
  then show dig: "is_ascii_digit (48 + of_nat d)" using digit_byte(1,2) [of d] by (simp add: is_ascii_digit_def)
  then show "(48 + of_nat d :: u8) \<noteq> 90" by (auto simp: is_ascii_digit_def)
  show "(ucast (of_nat d :: u8) :: u64) = of_nat d" using digit_byte(5) [OF d] by simp
qed

lemma foldl_word: "foldl (\<lambda>v d. v * 10 + of_nat d) (of_nat n) ds = (of_nat (foldl (\<lambda>r d. 10 * r + d) n ds) :: u64)"
proof (induction ds arbitrary: n)
  case (Cons d ds)
  then show ?case using Cons [of "10 * n + d"] by (simp add: mult.commute)
qed simp

lemma iso_num_ascii: "digits ds \<Longrightarrow> iso_num v (ascii ds) = Some (foldl (\<lambda>v d. v * 10 + of_nat d) v ds)"
  by (induction ds arbitrary: v) (simp_all add: ascii_def digits_def ascii_byte)

lemma iso_num_pad: "n < 10 ^ k \<Longrightarrow> iso_num 0 (pad k n) = Some (of_nat n)"
proof -
  assume n: "n < 10 ^ k"
  obtain ds where "pad k n = ascii ds" "digits ds" "value_of ds = n mod 10 ^ k" using pad_ascii by blast
  then show ?thesis using n iso_num_ascii [of ds 0] foldl_word [of 0 ds] by (simp add: value_of_def)
qed

lemma iso_frac_ascii:
  "digits ys \<Longrightarrow> n \<le> 9 \<Longrightarrow> iso_frac v n (ascii ys @ 90 # rest) =
     Some (foldl (\<lambda>v d. v * 10 + of_nat d) v (take (9 - n) ys), min 9 (n + length ys), 90 # rest)"
proof (induction ys arbitrary: v n)
  case (Cons d ys)
  have d: "d < 10" "digits ys" using Cons.prems by (simp_all add: digits_def)
  show ?case
  proof (cases "n < 9")
    case True
    then obtain k where "9 - n = Suc k" "9 - Suc n = k" by (metis Suc_diff_Suc)
    then show ?thesis using Cons.IH [of "n + 1"] d True ascii_byte [OF d(1)] by (simp add: ascii_def)
  next
    case False
    then show ?thesis using Cons.IH [of n] Cons.prems(2) d ascii_byte [OF d(1)] by (simp add: ascii_def)
  qed
qed simp

lemma length_two: "length xs = 2 \<Longrightarrow> \<exists>a b. xs = [a, b]"
  by (cases xs; cases "tl xs") auto

lemma length_four: "length xs = 4 \<Longrightarrow> \<exists>a b c d. xs = [a, b, c, d]"
  by (cases xs; cases "tl xs"; cases "tl (tl xs)"; cases "tl (tl (tl xs))") auto

lemma iso_shape:
  fixes y m d hh mi ss ys
  defines "s \<equiv> iso_text y m d hh mi ss ys"
  shows "20 \<le> length s" "s ! 4 = 45" "s ! 7 = 45" "s ! 10 = 84" "s ! 13 = 58" "s ! 16 = 58"
    "subslice s 0 4 = pad 4 y" "subslice s 5 2 = pad 2 m" "subslice s 8 2 = pad 2 d" "subslice s 11 2 = pad 2 hh"
    "subslice s 14 2 = pad 2 mi" "subslice s 17 2 = pad 2 ss"
    "drop 19 s = (if ys = [] then [] else 46 # ascii ys) @ [90]"
proof -
  obtain y0 y1 y2 y3 where "pad 4 y = [y0, y1, y2, y3]" using length_four [OF length_pad] by blast
  moreover obtain m0 m1 where "pad 2 m = [m0, m1]" using length_two [OF length_pad] by blast
  moreover obtain d0 d1 where "pad 2 d = [d0, d1]" using length_two [OF length_pad] by blast
  moreover obtain h0 h1 where "pad 2 hh = [h0, h1]" using length_two [OF length_pad] by blast
  moreover obtain i0 i1 where "pad 2 mi = [i0, i1]" using length_two [OF length_pad] by blast
  moreover obtain s0 s1 where "pad 2 ss = [s0, s1]" using length_two [OF length_pad] by blast
  ultimately have s: "s = [y0, y1, y2, y3, 45, m0, m1, 45, d0, d1, 84, h0, h1, 58, i0, i1, 58, s0, s1] @ (if ys = [] then [] else 46 # ascii ys) @ [90]"
    and p: "pad 4 y = [y0, y1, y2, y3]" "pad 2 m = [m0, m1]" "pad 2 d = [d0, d1]" "pad 2 hh = [h0, h1]" "pad 2 mi = [i0, i1]" "pad 2 ss = [s0, s1]"
    by (simp_all add: s_def iso_text_def)
  show "20 \<le> length s" "s ! 4 = 45" "s ! 7 = 45" "s ! 10 = 84" "s ! 13 = 58" "s ! 16 = 58"
    "subslice s 0 4 = pad 4 y" "subslice s 5 2 = pad 2 m" "subslice s 8 2 = pad 2 d" "subslice s 11 2 = pad 2 hh"
    "subslice s 14 2 = pad 2 mi" "subslice s 17 2 = pad 2 ss"
    "drop 19 s = (if ys = [] then [] else 46 # ascii ys) @ [90]"
    by (simp_all add: s p subslice_def)
qed

text \<open>The time of day and the fraction behind a date.\<close>

definition iso_ns :: "nat \<Rightarrow> nat \<Rightarrow> nat \<Rightarrow> nat \<Rightarrow> nat \<Rightarrow> nat \<Rightarrow> nat list \<Rightarrow> nat" where
  "iso_ns y m d hh mi ss ys =
     (civil_days y m d * 86400 + hh * 3600 + mi * 60 + ss) * 1000000000 + value_of (take 9 ys) * 10 ^ (9 - length ys)"

lemma iso_fraction:
  assumes "digits ys"
  shows "(if iso_text y m d hh mi ss ys ! 19 = 46
          then case iso_frac 0 0 (drop 20 (iso_text y m d hh mi ss ys)) of
                 None \<Rightarrow> None | Some (frac_ns, n, rest) \<Rightarrow> Some (frac_ns * 10 ^ (9 - n), rest)
          else Some (0, drop 19 (iso_text y m d hh mi ss ys)))
    = Some (of_nat (value_of (take 9 ys) * 10 ^ (9 - length ys)) :: u64, [90])"
proof -
  let ?s = "iso_text y m d hh mi ss ys"
  have nth: "?s ! 19 = hd (drop 19 ?s)" and dr: "drop 20 ?s = tl (drop 19 ?s)"
    using iso_shape(1) [of y m d hh mi ss ys] by (simp_all add: hd_drop_conv_nth tl_drop flip: drop_Suc)
  show ?thesis
  proof (cases "ys = []")
    case True
    then show ?thesis unfolding nth dr iso_shape(13) by (simp add: value_of_def)
  next
    case False
    have "9 - min 9 (length ys) = 9 - length ys" by simp
    then show ?thesis
      unfolding nth dr iso_shape(13)
      using False iso_frac_ascii [OF assms, of 0 0 "[]"] foldl_word [of 0 "take 9 ys"]
      by (simp add: value_of_def)
  qed
qed

lemma unat_small: "n < 2 ^ 64 \<Longrightarrow> unat (of_nat n :: u64) = n"
  by (rule unat_of_nat_small) simp

lemma iso_parse:
  assumes "y < 10000" and "1 \<le> m" "m \<le> 12" and "1 \<le> d" "d \<le> 31" and "hh \<le> 23" and "mi \<le> 59" and "ss \<le> 60"
    and "digits ys"
  shows "parse_iso8601_utc_ns (iso_text y m d hh mi ss ys) =
    (if days_from_civil (int y) (int m) (int d) < 0 then None
     else Some ((of_int (days_from_civil (int y) (int m) (int d)) * 86400 + of_nat hh * 3600 + of_nat mi * 60 + of_nat ss) * 1000000000
                + of_nat (value_of (take 9 ys) * 10 ^ (9 - length ys))))"
proof -
  have le: "(1 :: u64) \<le> of_nat m" "of_nat m \<le> (12 :: u64)" "(1 :: u64) \<le> of_nat d" "of_nat d \<le> (31 :: u64)"
      "\<not> (23 :: u64) < of_nat hh" "\<not> (59 :: u64) < of_nat mi" "\<not> (60 :: u64) < of_nat ss"
    using assms by (simp_all add: word_le_nat_alt word_less_nat_alt unat_small)
  have nums: "iso_num 0 (pad 4 y) = Some (of_nat y)" "iso_num 0 (pad 2 m) = Some (of_nat m)" "iso_num 0 (pad 2 d) = Some (of_nat d)"
      "iso_num 0 (pad 2 hh) = Some (of_nat hh)" "iso_num 0 (pad 2 mi) = Some (of_nat mi)" "iso_num 0 (pad 2 ss) = Some (of_nat ss)"
    using assms by (simp_all add: iso_num_pad)
  have u: "unat (of_nat y :: u64) = y" "unat (of_nat m :: u64) = m" "unat (of_nat d :: u64) = d"
    using assms by (simp_all add: unat_small)
  show ?thesis
    unfolding parse_iso8601_utc_ns_def iso_shape(2-12) iso_fraction [OF assms(9)] nums option.case
    using iso_shape(1) [of y m d hh mi ss ys] by (simp add: u le)
qed

text \<open>C23: Exchange timestamps are read by the calendar: for every date from 1970 to 9999 with a time of day
  (a leap second included) and any fraction digits, the ISO-8601 parser returns the nanoseconds since the
  Unix epoch, reckoned by whole Gregorian years and months, with the fraction cut to nine digits, as an
  unsigned 64-bit number (exact up to the year 2553, where nanoseconds still fit).\<close>

theorem iso8601_calendar:
  assumes "1970 \<le> y" "y < 10000" and "1 \<le> m" "m \<le> 12" and "1 \<le> d" "d \<le> month_days y m"
    and "hh \<le> 23" and "mi \<le> 59" and "ss \<le> 60" and "digits ys"
  shows "parse_iso8601_utc_ns (iso_text y m d hh mi ss ys) = Some (of_nat (iso_ns y m d hh mi ss ys))"
proof -
  have "d \<le> 31" using assms(6) by (auto simp: month_days_def split: if_splits)
  then show ?thesis
    using iso_parse [of y m d hh mi ss ys] days_from_civil_calendar [of y m d] assms by (simp add: iso_ns_def)
qed

theorem iso8601_calendar_witness:
  "parse_iso8601_utc_ns (iso_text 2024 2 29 12 0 0 [5]) = Some 1709208000500000000"
proof -
  have leap: "leap_year y \<longleftrightarrow> y mod 4 = 0 \<and> (y mod 100 \<noteq> 0 \<or> y mod 400 = 0)" for y
    by (simp add: leap_year_def dvd_eq_mod_eq_0)
  have "int (civil_days 2024 2 29) = 19782"
    using days_from_civil_calendar [of 2024 2 29] by (simp add: days_from_civil_def sdiv_nonneg smod_nonneg)
  then have "iso_ns 2024 2 29 12 0 0 [5] = 1709208000500000000" by (simp add: iso_ns_def value_of_def)
  then show ?thesis
    using iso8601_calendar [of 2024 2 29 12 0 0 "[5]"] by (simp add: month_days_def leap digits_def)
qed

section \<open>Flat JSON objects\<close>

text \<open>A flat object: keys with numbers or strings, printed without blanks. A clean key holds none of the
  bytes that could join it to its surroundings (quote, comma, colon, closing brace); a clean string holds
  no quote.\<close>

datatype jval = JNum nat | JStr bytes

fun val_text :: "jval \<Rightarrow> bytes" where
  "val_text (JNum n) = dec n"
| "val_text (JStr v) = 34 # v @ [34]"

fun members_text :: "(bytes \<times> jval) list \<Rightarrow> bytes" where
  "members_text [] = [125]"
| "members_text ((k, v) # fs) = 34 # k @ 34 # 58 # val_text v @ (if fs = [] then members_text fs else 44 # members_text fs)"

definition object_text :: "(bytes \<times> jval) list \<Rightarrow> bytes" where
  "object_text fs = 123 # members_text fs"

definition key_text :: "bytes \<Rightarrow> bytes" where
  "key_text k = 34 # k @ [34, 58]"

definition clean_key :: "bytes \<Rightarrow> bool" where
  "clean_key k \<longleftrightarrow> 34 \<notin> set k \<and> 44 \<notin> set k \<and> 58 \<notin> set k \<and> 125 \<notin> set k"

fun clean_val :: "jval \<Rightarrow> bool" where
  "clean_val (JNum n) = True"
| "clean_val (JStr v) = (34 \<notin> set v)"

definition clean_object :: "(bytes \<times> jval) list \<Rightarrow> bool" where
  "clean_object fs \<longleftrightarrow> list_all (\<lambda>(k, v). clean_key k \<and> clean_val v) fs"

lemma quoted_prefix:
  assumes "34 \<notin> set k" and "34 \<notin> set xs"
  shows "take (length k + 2) (xs @ 34 # c # rest) = k @ [34, 58] \<longleftrightarrow> xs = k \<and> c = (58 :: u8)"
  using assms
proof (induction k arbitrary: xs)
  case Nil
  then show ?case by (cases xs) (auto simp: take_Cons')
next
  case (Cons a k)
  then show ?case by (cases xs) (auto simp: take_Cons')
qed

lemma scan_byte: "c \<noteq> 34 \<Longrightarrow> str_after (key_text k) (c # cs) = str_after (key_text k) cs"
  by (simp add: str_after_Cons key_text_def)

lemma scan_clean: "34 \<notin> set xs \<Longrightarrow> str_after (key_text k) (xs @ ys) = str_after (key_text k) ys"
  by (rule str_after_skip [of _ 34 "k @ [34, 58]"]) (simp_all add: key_text_def)

lemma scan_quoted:
  assumes "34 \<notin> set k" and "34 \<notin> set xs"
  shows "str_after (key_text k) (34 # xs @ 34 # c # rest) =
    (if xs = k \<and> c = 58 then Some rest else str_after (key_text k) (34 # c # rest))"
  using quoted_prefix [OF assms, of c rest]
  by (auto simp: str_after_Cons key_text_def scan_clean [OF assms(2), of k, unfolded key_text_def])

lemma scan_close:
  assumes "34 \<notin> set k" and "c \<notin> set k" and "c \<noteq> 34"
  shows "str_after (key_text k) (34 # c # rest) = str_after (key_text k) rest"
proof -
  have "take (length k + 2) (c # rest) \<noteq> k @ [34, 58]" using assms by (cases k) auto
  then show ?thesis using scan_byte [OF assms(3), of k rest] by (simp add: str_after_Cons key_text_def)
qed

lemma scan_dec: "str_after (key_text k) (dec n @ ys) = str_after (key_text k) ys"
  by (rule str_after_dec [of _ "k @ [34, 58]"]) (simp add: key_text_def)

lemma scan_val:
  assumes "clean_key k" and "clean_val v" and "c = 44 \<or> c = 125"
  shows "str_after (key_text k) (val_text v @ c # rest) = str_after (key_text k) rest"
proof (cases v)
  case (JNum n)
  then show ?thesis using assms(3) by (auto simp: scan_dec scan_byte)
next
  case (JStr s)
  have "c \<noteq> 58" "c \<noteq> 34" "c \<notin> set k" using assms(1,3) by (auto simp: clean_key_def)
  then show ?thesis using assms(1,2) JStr by (simp add: scan_quoted scan_close clean_key_def)
qed

lemma members_sep: "\<exists>c rest. (c = 44 \<or> c = 125) \<and> (if fs = [] then members_text fs else 44 # members_text fs) = c # rest
    \<and> str_after (key_text k) rest = str_after (key_text k) (members_text fs)"
  by (cases fs) (auto simp: scan_byte str_after_def key_text_def)

lemma scan_members:
  assumes "clean_key k" and "clean_object fs"
  shows "case map_of fs k of
      None \<Rightarrow> str_after (key_text k) (members_text fs) = None
    | Some v \<Rightarrow> \<exists>c rest. (c = 44 \<or> c = 125) \<and> str_after (key_text k) (members_text fs) = Some (val_text v @ c # rest)"
  using assms(2)
proof (induction fs)
  case Nil
  then show ?case by (simp add: scan_byte str_after_def key_text_def)
next
  case (Cons f fs)
  obtain k' v where f: "f = (k', v)" by (cases f)
  have cl: "34 \<notin> set k" "34 \<notin> set k'" "58 \<notin> set k" "clean_val v" "clean_object fs"
    using assms(1) Cons.prems by (simp_all add: f clean_object_def clean_key_def)
  obtain c rest where c: "c = 44 \<or> c = 125" "(if fs = [] then members_text fs else 44 # members_text fs) = c # rest"
      "str_after (key_text k) rest = str_after (key_text k) (members_text fs)" using members_sep [of fs k] by blast
  have "str_after (key_text k) (members_text (f # fs)) =
      (if k' = k then Some (val_text v @ c # rest) else str_after (key_text k) (members_text fs))"
    using cl c scan_val [OF assms(1) cl(4) c(1), of rest] by (simp add: f scan_quoted scan_close)
  then show ?case using Cons.IH [OF cl(5)] c(1) unfolding f by (cases "k' = k"; cases "map_of fs k") (auto simp del: members_text.simps)
qed

section \<open>Field extraction\<close>

lemma extract_str_after:
  "key \<noteq> [] \<Longrightarrow> extract_json_str_field src key =
    (case str_after key src of
       None \<Rightarrow> Inl ''Field not found''
     | Some t \<Rightarrow> let t = dropWhile is_blank t in
         if t \<noteq> [] \<and> hd t = 34 \<and> length (takeWhile (\<lambda>b. b \<noteq> 34) (tl t)) < length (tl t)
         then Inr (takeWhile (\<lambda>b. b \<noteq> 34) (tl t)) else Inl ''Field not found'')"
  by (auto simp: extract_json_str_field_def str_after_def find_subsequence_str_find Let_def split: option.splits)

lemma takeWhile_clean: "34 \<notin> set v \<Longrightarrow> takeWhile (\<lambda>b. b \<noteq> 34) (v @ 34 # rest) = v" for v :: bytes
  by (subst takeWhile_append2) auto

lemma foldl_dec: "foldl (\<lambda>n b. n * 10 + ucast (b - 48)) 0 (dec n) = (of_nat n :: u64)"
proof -
  obtain ds where ds: "dec n = ascii ds" "digits ds" "value_of ds = n" using dec_ascii by blast
  have "foldl (\<lambda>n b. n * 10 + ucast (b - 48)) v (ascii ds) = foldl (\<lambda>v d. v * 10 + of_nat d) v ds" for v :: u64
    using ds(2) by (induction ds arbitrary: v) (simp_all add: ascii_def digits_def ascii_byte)
  then show ?thesis using ds foldl_word [of 0 ds] by (simp add: value_of_def)
qed

lemma extract_int_after:
  "key \<noteq> [] \<Longrightarrow> extract_json_int_field src key =
    (case str_after key src of
       None \<Rightarrow> None
     | Some t \<Rightarrow> let ds = takeWhile is_ascii_digit (dropWhile (\<lambda>b. is_blank b \<or> b = 34) t)
                 in if ds \<noteq> [] then Some (foldl (\<lambda>n b. n * 10 + ucast (b - 48)) 0 ds) else None)"
  by (auto simp: extract_json_int_field_def str_after_def find_subsequence_str_find Let_def split: option.splits)

lemma dec_not_Nil: "dec n \<noteq> []"
  using length_dec_pos [of n] by (metis length_0_conv less_numeral_extra(3))

lemma dropWhile_dec: "dropWhile (\<lambda>b. is_blank b \<or> b = 34) (dec n @ rest) = dec n @ rest"
proof -
  obtain e es where e: "dec n = e # es" using dec_not_Nil [of n] by (cases "dec n") auto
  then have "is_ascii_digit e" using dec_bytes [of n] by (simp add: is_ascii_digit_def)
  then have "\<not> (is_blank e \<or> e = 34)" by (auto simp: is_ascii_digit_def is_blank_def)
  then show ?thesis by (simp add: e)
qed

lemma dec_Cons: "\<exists>e es. dec n = e # es \<and> \<not> is_blank e \<and> e \<noteq> 34"
proof -
  obtain e es where e: "dec n = e # es" using dec_not_Nil [of n] by (cases "dec n") auto
  then have "48 \<le> e" using dec_bytes [of n] by simp
  then show ?thesis using e by (auto simp: is_blank_def)
qed

lemma object_scan:
  assumes "clean_key k" and "clean_object fs" and "map_of fs k = Some v"
  shows "clean_val v \<and> (\<exists>c rest. (c = 44 \<or> c = 125) \<and> str_after (key_text k) (object_text fs) = Some (val_text v @ c # rest))"
  using scan_members [OF assms(1,2)] map_of_SomeD [OF assms(3)] assms(2,3)
  by (auto simp: object_text_def scan_byte clean_object_def list_all_iff)

lemma extract_str_object:
  assumes "clean_key k" and "clean_object fs"
  shows "extract_json_str_field (object_text fs) (key_text k) =
    (case map_of fs k of Some (JStr v) \<Rightarrow> Inr v | _ \<Rightarrow> Inl ''Field not found'')"
proof (cases "map_of fs k")
  case None
  then show ?thesis
    using scan_members [OF assms] by (simp add: extract_str_after key_text_def object_text_def scan_byte [unfolded key_text_def])
next
  case (Some v)
  then obtain c rest where scan: "str_after (key_text k) (object_text fs) = Some (val_text v @ c # rest)" and v: "clean_val v"
    using object_scan [OF assms Some] by blast
  have ne: "key_text k \<noteq> []" by (simp add: key_text_def)
  show ?thesis
  proof (cases v)
    case (JNum n)
    then show ?thesis using scan Some ne dec_Cons [of n] by (auto simp: extract_str_after)
  next
    case (JStr s)
    then show ?thesis using scan Some ne v by (simp add: extract_str_after takeWhile_clean is_blank_def)
  qed
qed

lemma extract_int_object:
  assumes "clean_key k" and "clean_object fs" and "\<forall>s. map_of fs k \<noteq> Some (JStr s)"
  shows "extract_json_int_field (object_text fs) (key_text k) =
    (case map_of fs k of Some (JNum n) \<Rightarrow> Some (of_nat n) | _ \<Rightarrow> None)"
proof (cases "map_of fs k")
  case None
  then show ?thesis
    using scan_members [OF assms(1,2)] by (simp add: extract_int_after key_text_def object_text_def scan_byte [unfolded key_text_def])
next
  case (Some v)
  then obtain n where n: "v = JNum n" using assms(3) by (cases v) auto
  then obtain c rest where scan: "str_after (key_text k) (object_text fs) = Some (dec n @ c # rest)" "c = 44 \<or> c = 125"
    using object_scan [OF assms(1,2) Some] by auto
  have "\<not> is_ascii_digit c" using scan(2) by (auto simp: is_ascii_digit_def)
  moreover have "key_text k \<noteq> []" by (simp add: key_text_def)
  ultimately show ?thesis
    using scan(1) Some n dec_not_Nil [of n]
    by (simp add: extract_int_after dropWhile_dec takeWhile_dec foldl_dec del: dropWhile_append)
qed

lemma pad_no_quote: "34 \<notin> set (pad k n)"
proof -
  obtain ds where ds: "pad k n = ascii ds" "digits ds" using pad_ascii by blast
  have "x \<noteq> 34" if "48 \<le> x" for x :: u8 using that by auto
  then have "(48 + of_nat d :: u8) \<noteq> 34" if "d < 10" for d using digit_byte(1) [OF that] by blast
  then show ?thesis using ds by (auto simp: ascii_def digits_def list_all_iff)
qed

lemma fixed_text_no_quote: "34 \<notin> set (fixed_text v)"
proof -
  have "34 \<notin> set (dec n)" for n using dec_bytes [of n] by (auto simp: list_all_iff dest!: bspec)
  then show ?thesis using pad_no_quote by (auto simp: fixed_text_def)
qed

text \<open>The substring scanner reads flat JSON: on every object of clean keys with numbers and quote-free
  strings, in any order and with any further fields, extracting a string field gives the value of the first
  field with that key and an error when there is none or it is a number, and extracting an integer field
  gives its value modulo \<open>2 ^ 64\<close> and nothing when the key is absent.\<close>

theorem json_fields_exact:
  assumes "clean_key k" and "clean_object fs"
  shows "extract_json_str_field (object_text fs) (key_text k) =
      (case map_of fs k of Some (JStr v) \<Rightarrow> Inr v | _ \<Rightarrow> Inl ''Field not found'') \<and>
    ((\<forall>s. map_of fs k \<noteq> Some (JStr s)) \<longrightarrow>
     extract_json_int_field (object_text fs) (key_text k) =
       (case map_of fs k of Some (JNum n) \<Rightarrow> Some (of_nat n) | _ \<Rightarrow> None))"
  using extract_str_object [OF assms] extract_int_object [OF assms] by blast

theorem json_fields_exact_witness:
  "extract_json_str_field (object_text [(bstr ''a'', JNum 7), (bstr ''b'', JStr [65, 66])]) (key_text (bstr ''b'')) = Inr [65, 66]"
  using json_fields_exact [of "bstr ''b''" "[(bstr ''a'', JNum 7), (bstr ''b'', JStr [65, 66])]"]
  by (simp add: bstr_def clean_key_def clean_object_def)

section \<open>Tickers\<close>

lemma key_bstr: "bstr (''\"'' @ k @ ''\":'') = key_text (bstr k)"
  by (simp add: bstr_def key_text_def)

lemmas coinbase_keys = key_bstr [of "''type''"] key_bstr [of "''sequence''"] key_bstr [of "''product_id''"]
  key_bstr [of "''price''"] key_bstr [of "''best_bid''"] key_bstr [of "''best_bid_size''"] key_bstr [of "''best_ask''"]
  key_bstr [of "''best_ask_size''"] key_bstr [of "''side''"] key_bstr [of "''time''"] key_bstr [of "''trade_id''"]
  key_bstr [of "''last_size''"] key_bstr [of "''last_trade_id''"]

text \<open>What a flat ticker object says about a quote and a trade; further fields are allowed.\<close>

definition ticker_says :: "(bytes \<times> jval) list \<Rightarrow> NormalizedBbo \<Rightarrow> UnifiedTrade \<Rightarrow> bool" where
  "ticker_says fs b t \<longleftrightarrow>
     map_of fs (bstr ''sequence'') = Some (JNum (unat (bbo_sequence b))) \<and> trade_sequence t = bbo_sequence b \<and>
     map_of fs (bstr ''best_bid'') = Some (JStr (fixed_text (bid_price b))) \<and>
     map_of fs (bstr ''best_bid_size'') = Some (JStr (fixed_text (bid_qty b))) \<and>
     map_of fs (bstr ''best_ask'') = Some (JStr (fixed_text (ask_price b))) \<and>
     map_of fs (bstr ''best_ask_size'') = Some (JStr (fixed_text (ask_qty b))) \<and>
     map_of fs (bstr ''price'') = Some (JStr (fixed_text (trade_price t))) \<and>
     map_of fs (bstr ''last_size'') = Some (JStr (fixed_text (trade_size t))) \<and>
     map_of fs (bstr ''trade_id'') = Some (JNum (unat (trade_id t))) \<and>
     map_of fs (bstr ''side'') = Some (JStr (if trade_side t = 2 then bstr ''sell'' else bstr ''buy'')) \<and>
     trade_side t \<in> {1, 2} \<and>
     (\<exists>s. map_of fs (bstr ''time'') = Some (JStr s) \<and> parse_iso8601_utc_ns s = Some (t0_exchange_ns (bbo_telemetry b)))"

lemma clean_bstr: "clean_key (bstr ''type'')" "clean_key (bstr ''sequence'')" "clean_key (bstr ''product_id'')"
  "clean_key (bstr ''price'')" "clean_key (bstr ''best_bid'')" "clean_key (bstr ''best_bid_size'')" "clean_key (bstr ''best_ask'')"
  "clean_key (bstr ''best_ask_size'')" "clean_key (bstr ''side'')" "clean_key (bstr ''time'')" "clean_key (bstr ''trade_id'')"
  "clean_key (bstr ''last_size'')" "clean_key (bstr ''last_trade_id'')"
  by (simp_all add: clean_key_def bstr_def)

lemma ticker_parsed:
  assumes "clean_object fs" and "ticker_says fs b t"
  shows "parse_coinbase_ticker_bbo mid (object_text fs) t1 = Inr (b\<lparr>bbo_telemetry := ingest_telemetry (t0_exchange_ns (bbo_telemetry b)) t1,
      bbo_market_id := mid, bbo_venue := 2, bbo_chain := 0, spread_bps := quote_spread_bps (bid_price b) (ask_price b), bbo_flags := 0\<rparr>) \<and>
    parse_coinbase_ticker_trade mid (object_text fs) t1 = Inr (t\<lparr>trade_telemetry := ingest_telemetry (t0_exchange_ns (bbo_telemetry b)) t1,
      trade_market_id := mid, trade_venue := 2, trade_chain := 0, is_liquidation := False\<rparr>)"
proof -
  note str = extract_str_object [OF _ assms(1)]
  note int = extract_int_object [OF _ assms(1)]
  have side: "(if trade_side t = 2 then bstr ''sell'' else bstr ''buy'') = bstr ''sell'' \<longleftrightarrow> trade_side t = 2"
    by (simp add: bstr_def)
  note said = assms(2) [unfolded ticker_says_def]
  have t0: "coinbase_time (object_text fs) = t0_exchange_ns (bbo_telemetry b)"
    using said str [OF clean_bstr(10)] coinbase_keys(10) by (auto simp: coinbase_time_def res_ok_def unwrap_or_def)
  show ?thesis
    using said t0 side coinbase_keys
    by (cases b; cases t) (auto simp: parse_coinbase_ticker_bbo_def parse_coinbase_ticker_trade_def and_try_def ok_or_def unwrap_or_def
      str int clean_bstr parse_fixed_text)
qed

text \<open>C22: Coinbase tickers are parsed exactly: from every flat ticker object that carries a quote and a trade
  (prices and sizes as decimal texts of 64-bit scaled integers, in any field order, among any other fields),
  the two parsers return exactly these values, venue Coinbase, the exchange time of the \<open>time\<close> field, the
  receive time and the market of the caller, and the spread of the quote.\<close>

theorem coinbase_ticker_exact:
  assumes "clean_object fs" and "ticker_says fs b t"
  shows "parse_coinbase_ticker_bbo mid (object_text fs) t1 = Inr (b\<lparr>bbo_telemetry := ingest_telemetry (t0_exchange_ns (bbo_telemetry b)) t1,
      bbo_market_id := mid, bbo_venue := 2, bbo_chain := 0, spread_bps := quote_spread_bps (bid_price b) (ask_price b), bbo_flags := 0\<rparr>) \<and>
    parse_coinbase_ticker_trade mid (object_text fs) t1 = Inr (t\<lparr>trade_telemetry := ingest_telemetry (t0_exchange_ns (bbo_telemetry b)) t1,
      trade_market_id := mid, trade_venue := 2, trade_chain := 0, is_liquidation := False\<rparr>)"
  by (rule ticker_parsed [OF assms])

text \<open>A ticker for the witnesses.\<close>

definition demo_ticker :: "u64 \<Rightarrow> u64 \<Rightarrow> (bytes \<times> jval) list" where
  "demo_ticker seq tid =
     [(bstr ''type'', JStr (bstr ''ticker'')), (bstr ''sequence'', JNum (unat seq)), (bstr ''product_id'', JStr (bstr ''BTC-USD'')),
      (bstr ''price'', JStr (fixed_text 50000)), (bstr ''best_bid'', JStr (fixed_text 49000)), (bstr ''best_bid_size'', JStr (fixed_text 7)),
      (bstr ''best_ask'', JStr (fixed_text 51000)), (bstr ''best_ask_size'', JStr (fixed_text 9)), (bstr ''side'', JStr (bstr ''buy'')),
      (bstr ''time'', JStr (iso_text 2024 2 29 12 0 0 [5])), (bstr ''trade_id'', JNum (unat tid)), (bstr ''last_size'', JStr (fixed_text 3))]"

definition demo_bbo :: "u64 \<Rightarrow> NormalizedBbo" where
  "demo_bbo seq = bbo_default\<lparr>bbo_telemetry := telemetry_default\<lparr>t0_exchange_ns := 1709208000500000000\<rparr>, bbo_sequence := seq,
     bid_price := 49000, bid_qty := 7, ask_price := 51000, ask_qty := 9\<rparr>"

definition demo_trade :: "u64 \<Rightarrow> u64 \<Rightarrow> UnifiedTrade" where
  "demo_trade seq tid = trade_default\<lparr>trade_sequence := seq, trade_id := tid, trade_price := 50000, trade_size := 3, trade_side := 1\<rparr>"

lemma demo_ticker_clean: "clean_object (demo_ticker seq tid)"
  by (simp add: demo_ticker_def clean_object_def clean_bstr fixed_text_no_quote iso_text_def pad_no_quote) (simp add: bstr_def)

lemma demo_iso: "parse_iso8601_utc_ns (iso_text 2024 2 29 12 0 0 [5]) = Some 1709208000500000000"
proof -
  have "days_from_civil 2024 2 29 = 19782" by (simp add: days_from_civil_def sdiv_nonneg smod_nonneg)
  then show ?thesis using iso_parse [of 2024 2 29 12 0 0 "[5]"] by (simp add: digits_def value_of_def)
qed

lemma demo_ticker_says: "ticker_says (demo_ticker seq tid) (demo_bbo seq) (demo_trade seq tid)"
  by (simp add: ticker_says_def demo_ticker_def demo_bbo_def demo_trade_def bstr_def demo_iso)

theorem coinbase_ticker_exact_witness:
  "\<exists>b. parse_coinbase_ticker_bbo 7 (object_text (demo_ticker 100 55)) 5 = Inr b \<and> bid_price b = 49000 \<and> bbo_sequence b = 100"
  using coinbase_ticker_exact [OF demo_ticker_clean demo_ticker_says, of 7 100 55 5] by (simp add: demo_bbo_def)

end
