(* ===== verification/Feed_Session.thy ===== *)
theory Feed_Session
  imports Cefi_Exact
begin

text \<open>
  The message-level state machine of the Coinbase feed, \<open>src/crates/live-feed/src/session.rs\<close>: baselines
  per product, the two integrity checks, the heartbeat and staleness watchdogs. A handler returns the
  session, the events it appends and the action it asks for.
\<close>

section \<open>State\<close>

datatype Event = EvBbo NormalizedBbo | EvTrade UnifiedTrade

datatype Reason =
    SequenceRegression (reg_last: u64) (reg_got: u64) | TradeIdGap (gap_want: u64) (gap_got: u64)
  | HeartbeatBehindExchange (hb_ours: u64) (hb_exchange: u64) | ServerError | Stale | Disconnected

datatype Action = Resubscribe Reason | Reconnect Reason

record Stats =
  st_messages :: u64
  st_tickers :: u64
  st_heartbeats :: u64
  st_events_emitted :: u64
  st_malformed :: u64
  st_unknown_product :: u64
  st_sequence_regressions :: u64
  st_trade_id_gaps :: u64
  st_heartbeat_behind :: u64
  st_resubscribes :: u64
  st_reconnects :: u64

definition stats_default :: Stats where
  "stats_default = \<lparr>st_messages = 0, st_tickers = 0, st_heartbeats = 0, st_events_emitted = 0, st_malformed = 0,
     st_unknown_product = 0, st_sequence_regressions = 0, st_trade_id_gaps = 0, st_heartbeat_behind = 0,
     st_resubscribes = 0, st_reconnects = 0\<rparr>"

record Product =
  p_name :: bytes
  p_market_id :: u32
  last_seq :: "u64 option"
  last_trade_id :: "u64 option"
  max_emitted_trade_id :: u64

record Session =
  products :: "Product list"
  last_message_ms :: u64
  stale_after_ms :: u64
  stats :: Stats

definition feed_new :: "bytes list \<Rightarrow> u64 \<Rightarrow> Session" where
  "feed_new names stale_ms =
     \<lparr>products = map (\<lambda>(i, p). \<lparr>p_name = p, p_market_id = of_nat i + 1, last_seq = None, last_trade_id = None,
                                max_emitted_trade_id = 0\<rparr>) (enumerate 0 names),
      last_message_ms = 0, stale_after_ms = stale_ms, stats = stats_default\<rparr>"

definition product_name :: "Session \<Rightarrow> u32 \<Rightarrow> bytes option" where
  "product_name s market_id =
     (let i = (ucast market_id :: u64) - 1
      in if unat i < length (products s) then Some (p_name (products s ! unat i)) else None)"

definition reset_baselines :: "Session \<Rightarrow> Session" where
  "reset_baselines s = s\<lparr>products := map (\<lambda>p. p\<lparr>last_seq := None, last_trade_id := None\<rparr>) (products s)\<rparr>"

definition on_connected :: "Session \<Rightarrow> u64 \<Rightarrow> Session" where
  "on_connected s now_ms = (reset_baselines s)\<lparr>last_message_ms := now_ms\<rparr>"

definition note_action_taken :: "Session \<Rightarrow> Action \<Rightarrow> Session" where
  "note_action_taken s action =
     (let st = stats s;
          st = (case action of
                  Resubscribe _ \<Rightarrow> st\<lparr>st_resubscribes := st_resubscribes st + 1\<rparr>
                | Reconnect _ \<Rightarrow> st\<lparr>st_reconnects := st_reconnects st + 1\<rparr>)
      in reset_baselines (s\<lparr>stats := st\<rparr>))"

definition on_tick :: "Session \<Rightarrow> u64 \<Rightarrow> Action option" where
  "on_tick s now_ms =
     (if stale_after_ms s < saturating_sub now_ms (last_message_ms s) then Some (Reconnect Stale) else None)"

section \<open>Messages\<close>

text \<open>\<open>Iterator::position\<close>.\<close>

fun position :: "('a \<Rightarrow> bool) \<Rightarrow> 'a list \<Rightarrow> nat option" where
  "position P [] = None"
| "position P (x # xs) = (if P x then Some 0 else map_option Suc (position P xs))"

definition bump_malformed :: "Session \<Rightarrow> Session" where
  "bump_malformed s = s\<lparr>stats := (stats s)\<lparr>st_malformed := st_malformed (stats s) + 1\<rparr>\<rparr>"

definition product_index :: "Session \<Rightarrow> bytes \<Rightarrow> Session \<times> nat option" where
  "product_index s payload =
     (case coinbase_product_id payload of
        None \<Rightarrow> (bump_malformed s, None)
      | Some pid \<Rightarrow>
          let idx = position (\<lambda>p. p_name p = pid) (products s)
          in (if idx = None then s\<lparr>stats := (stats s)\<lparr>st_unknown_product := st_unknown_product (stats s) + 1\<rparr>\<rparr> else s, idx))"

definition check_sequence :: "Product \<Rightarrow> u64 \<Rightarrow> Action option" where
  "check_sequence p seq =
     (case last_seq p of
        Some l \<Rightarrow> if seq \<le> l then Some (Resubscribe (SequenceRegression l seq)) else None
      | None \<Rightarrow> None)"

definition check_trade_id :: "Product \<Rightarrow> u64 \<Rightarrow> Action option" where
  "check_trade_id p tid =
     (case last_trade_id p of
        Some l \<Rightarrow> if tid \<noteq> l + 1 then Some (Resubscribe (TradeIdGap (l + 1) tid)) else None
      | None \<Rightarrow> None)"

definition on_ticker :: "Session \<Rightarrow> bytes \<Rightarrow> u64 \<Rightarrow> Session \<times> Event list \<times> Action option" where
  "on_ticker s payload t1_ns =
     (let s = s\<lparr>stats := (stats s)\<lparr>st_tickers := st_tickers (stats s) + 1\<rparr>\<rparr>
      in case product_index s payload of
           (s, None) \<Rightarrow> (s, [], None)
         | (s, Some idx) \<Rightarrow>
             let market_id = p_market_id (products s ! idx)
             in case (parse_coinbase_ticker_bbo market_id payload t1_ns, parse_coinbase_ticker_trade market_id payload t1_ns) of
                  (Inr bbo, Inr trade) \<Rightarrow>
                    let p = products s ! idx;
                        st = stats s;
                        a1 = check_sequence p (bbo_sequence bbo);
                        st = (if a1 \<noteq> None then st\<lparr>st_sequence_regressions := st_sequence_regressions st + 1\<rparr> else st);
                        a2 = (if a1 = None then check_trade_id p (trade_id trade) else None);
                        st = (if a2 \<noteq> None then st\<lparr>st_trade_id_gaps := st_trade_id_gaps st + 1\<rparr> else st);
                        action = (if a1 \<noteq> None then a1 else a2);
                        p = p\<lparr>last_seq := Some (bbo_sequence bbo), last_trade_id := Some (trade_id trade)\<rparr>;
                        st = st\<lparr>st_events_emitted := st_events_emitted st + 1\<rparr>
                    in if max_emitted_trade_id p < trade_id trade
                       then (s\<lparr>products := (products s)[idx := p\<lparr>max_emitted_trade_id := trade_id trade\<rparr>],
                               stats := st\<lparr>st_events_emitted := st_events_emitted st + 1\<rparr>\<rparr>,
                             [EvBbo bbo, EvTrade trade], action)
                       else (s\<lparr>products := (products s)[idx := p], stats := st\<rparr>, [EvBbo bbo], action)
                | _ \<Rightarrow> (bump_malformed s, [], None))"

definition on_heartbeat :: "Session \<Rightarrow> bytes \<Rightarrow> Session \<times> Action option" where
  "on_heartbeat s payload =
     (let s = s\<lparr>stats := (stats s)\<lparr>st_heartbeats := st_heartbeats (stats s) + 1\<rparr>\<rparr>
      in case product_index s payload of
           (s, None) \<Rightarrow> (s, None)
         | (s, Some idx) \<Rightarrow>
             case coinbase_sequence payload of None \<Rightarrow> (s, None) | Some seq \<Rightarrow>
             case coinbase_trade_id payload of None \<Rightarrow> (s, None) | Some exchange_last_trade \<Rightarrow>
               let p = products s ! idx
               in case check_sequence p seq of
                    Some a \<Rightarrow> (s\<lparr>stats := (stats s)\<lparr>st_sequence_regressions := st_sequence_regressions (stats s) + 1\<rparr>\<rparr>, Some a)
                  | None \<Rightarrow>
                      let p = (if last_seq p \<noteq> None then p\<lparr>last_seq := Some seq\<rparr> else p);
                          s = s\<lparr>products := (products s)[idx := p]\<rparr>
                      in case last_trade_id p of
                           Some ours \<Rightarrow>
                             if ours < exchange_last_trade
                             then (s\<lparr>stats := (stats s)\<lparr>st_heartbeat_behind := st_heartbeat_behind (stats s) + 1\<rparr>\<rparr>,
                                   Some (Resubscribe (HeartbeatBehindExchange ours exchange_last_trade)))
                             else (s, None)
                         | None \<Rightarrow> (s, None))"

definition on_message :: "Session \<Rightarrow> bytes \<Rightarrow> u64 \<Rightarrow> u64 \<Rightarrow> Session \<times> Event list \<times> Action option" where
  "on_message s payload t1_ns now_ms =
     (let s = s\<lparr>stats := (stats s)\<lparr>st_messages := st_messages (stats s) + 1\<rparr>, last_message_ms := now_ms\<rparr>
      in case coinbase_message_type payload of
           None \<Rightarrow> (bump_malformed s, [], None)
         | Some ty \<Rightarrow>
             if ty = bstr ''ticker'' then on_ticker s payload t1_ns
             else if ty = bstr ''heartbeat'' then (case on_heartbeat s payload of (s, a) \<Rightarrow> (s, [], a))
             else if ty = bstr ''error'' then (s, [], Some (Reconnect ServerError))
             else (s, [], None))"

section \<open>Runs\<close>

text \<open>What the runner does with a session, and a run: the session, the events and the actions asked for.\<close>

datatype feed_input = Connected u64 | Noted Action | Message bytes u64 u64

definition feed_step :: "Session \<times> Event list \<times> Action list \<Rightarrow> feed_input \<Rightarrow> Session \<times> Event list \<times> Action list" where
  "feed_step = (\<lambda>(s, out, acts) inp. case inp of
       Connected now_ms \<Rightarrow> (on_connected s now_ms, out, acts)
     | Noted a \<Rightarrow> (note_action_taken s a, out, acts)
     | Message payload t1_ns now_ms \<Rightarrow>
         (case on_message s payload t1_ns now_ms of (s', evs, a) \<Rightarrow>
            (s', out @ evs, acts @ (case a of None \<Rightarrow> [] | Some x \<Rightarrow> [x]))))"

definition feed_run :: "Session \<Rightarrow> feed_input list \<Rightarrow> Session \<times> Event list \<times> Action list" where
  "feed_run s inputs = foldl feed_step (s, [], []) inputs"

definition event_trades :: "Event list \<Rightarrow> UnifiedTrade list" where
  "event_trades evs = List.map_filter (\<lambda>e. case e of EvTrade t \<Rightarrow> Some t | EvBbo _ \<Rightarrow> None) evs"

text \<open>The ids of the trades emitted for one market.\<close>

definition market_trades :: "u32 \<Rightarrow> Event list \<Rightarrow> u64 list" where
  "market_trades mid evs = map trade_id (filter (\<lambda>t. trade_market_id t = mid) (event_trades evs))"

lemma event_trades_simps [simp]:
  "event_trades [] = []" "event_trades (EvBbo b # evs) = event_trades evs" "event_trades (EvTrade t # evs) = t # event_trades evs"
  "event_trades (xs @ ys) = event_trades xs @ event_trades ys"
  by (simp_all add: event_trades_def List.map_filter_def)

lemma market_trades_append: "market_trades mid (xs @ ys) = market_trades mid xs @ market_trades mid ys"
  by (simp add: market_trades_def)

section \<open>What a message does\<close>

text \<open>The part of a product the trade checks rest on.\<close>

definition trade_view :: "Product \<Rightarrow> u32 \<times> u64 option \<times> u64" where
  "trade_view p = (p_market_id p, last_trade_id p, max_emitted_trade_id p)"

definition trade_views :: "Session \<Rightarrow> (u32 \<times> u64 option \<times> u64) list" where
  "trade_views s = map trade_view (products s)"

lemma position_Some: "position P xs = Some i \<Longrightarrow> i < length xs \<and> P (xs ! i)"
  by (induction xs arbitrary: i) (auto split: if_splits)

lemma trade_views_simps [simp]:
  "trade_views (s\<lparr>stats := st\<rparr>) = trade_views s" "trade_views (s\<lparr>last_message_ms := m\<rparr>) = trade_views s"
  "trade_views (bump_malformed s) = trade_views s"
  by (simp_all add: trade_views_def bump_malformed_def)

lemma product_index_views:
  "product_index s payload = (s', idx) \<Longrightarrow> products s' = products s \<and> (\<forall>i. idx = Some i \<longrightarrow> i < length (products s))"
  by (auto simp: product_index_def bump_malformed_def Let_def dest: position_Some split: option.splits if_splits)

lemma parsed_trade_market:
  "parse_coinbase_ticker_trade mid payload t1 = Inr t \<Longrightarrow> trade_market_id t = mid"
  by (auto simp: parse_coinbase_ticker_trade_def and_try_def ok_or_def Let_def split: sum.splits option.splits)

text \<open>A ticker that counts: product \<open>i\<close>, trade \<open>t\<close>.\<close>

definition ticker_effect :: "Session \<Rightarrow> nat \<Rightarrow> UnifiedTrade \<Rightarrow> Session \<Rightarrow> Event list \<Rightarrow> Action option \<Rightarrow> bool" where
  "ticker_effect s i t s' evs a \<longleftrightarrow>
     (case trade_views s ! i of (mid, l, mx) \<Rightarrow>
        i < length (trade_views s) \<and> trade_market_id t = mid \<and>
        trade_views s' = (trade_views s)[i := (mid, Some (trade_id t), max mx (trade_id t))] \<and>
        event_trades evs = (if mx < trade_id t then [t] else []) \<and>
        (a = None \<longrightarrow> l = None \<or> l = Some (trade_id t - 1)))"

lemma on_ticker_effect:
  assumes "on_ticker s payload t1 = (s', evs, a)"
  shows "(trade_views s' = trade_views s \<and> event_trades evs = []) \<or> (\<exists>i t. ticker_effect s i t s' evs a)"
proof -
  let ?s0 = "s\<lparr>stats := (stats s)\<lparr>st_tickers := st_tickers (stats s) + 1\<rparr>\<rparr>"
  obtain s1 idx where pi: "product_index ?s0 payload = (s1, idx)" by (cases "product_index ?s0 payload")
  then have v1: "products s1 = products s" "trade_views s1 = trade_views s"
    using product_index_views [OF pi] by (simp_all add: trade_views_def)
  show ?thesis
  proof (cases idx)
    case None
    then show ?thesis using assms pi v1 by (simp add: on_ticker_def)
  next
    case (Some i)
    have i: "i < length (products s)" using product_index_views [OF pi] Some by simp
    let ?mid = "p_market_id (products s ! i)"
    show ?thesis
    proof (cases "\<exists>b t. parse_coinbase_ticker_bbo ?mid payload t1 = Inr b \<and> parse_coinbase_ticker_trade ?mid payload t1 = Inr t")
      case True
      then obtain b t where p: "parse_coinbase_ticker_bbo ?mid payload t1 = Inr b" "parse_coinbase_ticker_trade ?mid payload t1 = Inr t" by blast
      have "ticker_effect s i t s' evs a"
        using assms i pi Some p parsed_trade_market [OF p(2)] v1
        by (auto simp: on_ticker_def Let_def ticker_effect_def trade_views_def trade_view_def map_update max_def
            check_sequence_def check_trade_id_def split: if_splits option.splits)
      then show ?thesis by blast
    next
      case False
      then have "s' = bump_malformed s1" "evs = []"
        using assms pi Some v1 by (auto simp: on_ticker_def Let_def split: sum.splits)
      then show ?thesis using v1 by simp
    qed
  qed
qed

lemma on_heartbeat_views: "on_heartbeat s payload = (s', a) \<Longrightarrow> trade_views s' = trade_views s"
proof -
  assume hb: "on_heartbeat s payload = (s', a)"
  let ?s0 = "s\<lparr>stats := (stats s)\<lparr>st_heartbeats := st_heartbeats (stats s) + 1\<rparr>\<rparr>"
  obtain s1 idx where pi: "product_index ?s0 payload = (s1, idx)" by (cases "product_index ?s0 payload")
  then have v1: "products s1 = products s" "\<forall>i. idx = Some i \<longrightarrow> i < length (products s)"
    using product_index_views [OF pi] by simp_all
  have same: "map trade_view ((products s)[i := (products s ! i)\<lparr>last_seq := q\<rparr>]) = map trade_view (products s)" if "i < length (products s)" for i q
    using that by (simp add: map_update trade_view_def list_update_same_conv)
  show ?thesis
    using hb pi v1 same
    by (auto simp: on_heartbeat_def Let_def trade_views_def split: option.splits if_splits)
qed

lemma on_message_effect:
  assumes "on_message s payload t1 now = (s', evs, a)"
  shows "(trade_views s' = trade_views s \<and> event_trades evs = []) \<or> (\<exists>i t. ticker_effect s i t s' evs a)"
proof -
  let ?s0 = "s\<lparr>stats := (stats s)\<lparr>st_messages := st_messages (stats s) + 1\<rparr>, last_message_ms := now\<rparr>"
  have eff: "ticker_effect ?s0 = ticker_effect s" by (simp add: ticker_effect_def fun_eq_iff)
  show ?thesis
    using assms on_ticker_effect [of ?s0 payload t1 s' evs a] on_heartbeat_views [of ?s0 payload s' a]
    by (auto simp: on_message_def Let_def eff split: option.splits if_splits prod.splits)
qed

section \<open>Invariants of runs\<close>

lemma reset_views:
  "trade_views (on_connected s now) = map (\<lambda>(m, l, x). (m, None, x)) (trade_views s)"
  "trade_views (note_action_taken s a) = map (\<lambda>(m, l, x). (m, None, x)) (trade_views s)"
  by (simp_all add: on_connected_def note_action_taken_def reset_baselines_def Let_def trade_views_def trade_view_def)

lemma feed_run_snoc: "feed_run s (inputs @ [inp]) = feed_step (feed_run s inputs) inp"
  by (simp add: feed_run_def)

text \<open>Every product has its own market, and no emitted trade lies above the product's maximum.\<close>

definition feed_inv :: "(u32 \<times> u64 option \<times> u64) list \<Rightarrow> Event list \<Rightarrow> bool" where
  "feed_inv vs out \<longleftrightarrow> distinct (map fst vs) \<and>
     (\<forall>(m, l, x) \<in> set vs. \<forall>y \<in> set (market_trades m out). y \<le> x) \<and>
     (\<forall>m. sorted_wrt (<) (market_trades m out)) \<and> (\<forall>m. m \<notin> fst ` set vs \<longrightarrow> market_trades m out = [])"

lemma market_trades_single:
  "event_trades evs = (if c then [t] else []) \<Longrightarrow> market_trades m evs = (if c \<and> trade_market_id t = m then [trade_id t] else [])"
  by (auto simp: market_trades_def)

lemma distinct_views_eq:
  "distinct (map fst vs) \<Longrightarrow> (m, u) \<in> set vs \<Longrightarrow> (m, v) \<in> set vs \<Longrightarrow> u = v"
  by (meson eq_key_imp_eq_value)

lemma feed_inv_ticker:
  assumes inv: "feed_inv (trade_views s) out" and eff: "ticker_effect s i t s' evs a"
  shows "feed_inv (trade_views s') (out @ evs)"
proof -
  obtain m l x where v: "trade_views s ! i = (m, l, x)" by (metis prod_cases3)
  let ?vs = "trade_views s"
  have e: "i < length ?vs" "trade_market_id t = m" "trade_views s' = ?vs[i := (m, Some (trade_id t), max x (trade_id t))]"
      "event_trades evs = (if x < trade_id t then [t] else [])"
    using eff by (simp_all add: ticker_effect_def v)
  have keys: "map fst (trade_views s') = map fst ?vs" by (simp add: e(3) map_update list_update_same_conv e(1) v)
  then have keyset: "fst ` set (trade_views s') = fst ` set ?vs" by (metis set_map)
  have new: "market_trades n evs = (if x < trade_id t \<and> m = n then [trade_id t] else [])" for n
    using market_trades_single [OF e(4)] e(2) by simp
  have vin: "(m, l, x) \<in> set ?vs" using e(1) v nth_mem by fastforce
  then have below: "\<forall>y \<in> set (market_trades m out). y \<le> x" using inv by (auto simp: feed_inv_def)
  have "y \<le> x'" if "(m', l', x') \<in> set (trade_views s')" "y \<in> set (market_trades m' (out @ evs))" for m' l' x' y
  proof (cases "m' = m")
    case True
    have "(m, Some (trade_id t), max x (trade_id t)) \<in> set (trade_views s')" using e(1) by (simp add: e(3) set_update_memI)
    then have "x' = max x (trade_id t)"
      using distinct_views_eq [of "trade_views s'" m] that(1) inv keys True by (auto simp: feed_inv_def)
    then show ?thesis using that(2) below True by (auto simp: market_trades_append new split: if_splits) (auto simp: le_max_iff_disj)
  next
    case False
    then have "(m', l', x') \<in> set ?vs" using that(1) set_update_subset_insert [of ?vs i] by (auto simp: e(3))
    then show ?thesis using that(2) inv False by (auto simp: feed_inv_def market_trades_append new)
  qed
  moreover have "sorted_wrt (<) (market_trades n (out @ evs))" for n
    using inv below by (auto simp: feed_inv_def market_trades_append new sorted_wrt_append)
  moreover have "market_trades n (out @ evs) = []" if "n \<notin> fst ` set (trade_views s')" for n
  proof -
    have "n \<noteq> m" using that vin by (force simp: keyset)
    then show ?thesis using that inv by (simp add: feed_inv_def market_trades_append new keyset)
  qed
  ultimately show ?thesis using inv keys unfolding feed_inv_def by auto
qed

lemma market_trades_none: "event_trades evs = [] \<Longrightarrow> market_trades m (out @ evs) = market_trades m out"
  by (simp add: market_trades_def)

lemma feed_inv_none: "event_trades evs = [] \<Longrightarrow> feed_inv vs (out @ evs) = feed_inv vs out"
  by (simp add: feed_inv_def market_trades_none)

lemma feed_inv_reset: "feed_inv vs out \<Longrightarrow> feed_inv (map (\<lambda>(m, l, x). (m, None, x)) vs) out"
proof -
  let ?f = "\<lambda>(m, l, x). (m, None, x) :: u32 \<times> u64 option \<times> u64"
  have c: "map fst (map ?f vs) = map fst vs" by auto
  then have k: "fst ` set (map ?f vs) = fst ` set vs" by (metis set_map)
  assume "feed_inv vs out"
  then show ?thesis unfolding feed_inv_def c k by auto
qed

lemma feed_inv_step:
  assumes "feed_inv (trade_views s) out" and "feed_step (s, out, acts) inp = (s', out', acts')"
  shows "feed_inv (trade_views s') out'"
proof (cases inp)
  case (Message payload t1 now)
  obtain evs a where m: "on_message s payload t1 now = (s', evs, a)" "out' = out @ evs"
    using assms(2) Message by (auto simp: feed_step_def split: prod.splits)
  show ?thesis
    using on_message_effect [OF m(1)] feed_inv_ticker [OF assms(1)] feed_inv_none [of evs "trade_views s" out] assms(1) m(2) by auto
qed (use assms feed_inv_reset in \<open>auto simp: feed_step_def reset_views\<close>)

lemma feed_inv_run:
  "feed_inv (trade_views s) [] \<Longrightarrow> feed_run s inputs = (s', out, acts) \<Longrightarrow> feed_inv (trade_views s') out"
proof (induction inputs arbitrary: s' out acts rule: rev_induct)
  case (snoc inp inputs)
  obtain s1 out1 acts1 where r: "feed_run s inputs = (s1, out1, acts1)" by (metis prod_cases3)
  show ?case using snoc.IH [OF snoc.prems(1) r] snoc.prems(2) feed_inv_step by (auto simp: feed_run_snoc r)
qed (simp add: feed_run_def)

lemma feed_new_views: "trade_views (feed_new names stale_ms) = map (\<lambda>i. (of_nat i + 1, None, 0)) [0..<length names]"
  by (intro nth_equalityI) (simp_all add: feed_new_def trade_views_def trade_view_def enumerate_eq_zip)

lemma feed_new_inv:
  assumes "length names < 2 ^ 32"
  shows "feed_inv (trade_views (feed_new names stale_ms)) []"
proof -
  have "inj_on (\<lambda>i. of_nat i + 1 :: u32) {0..<length names}"
  proof (rule inj_onI)
    fix i j assume "i \<in> {0..<length names}" "j \<in> {0..<length names}" "(of_nat i + 1 :: u32) = of_nat j + 1"
    then have "unat (of_nat i :: u32) = unat (of_nat j :: u32)" by simp
    then show "i = j" using \<open>i \<in> _\<close> \<open>j \<in> _\<close> assms by (simp add: unat_of_nat_small)
  qed
  then show ?thesis
    by (simp add: feed_inv_def feed_new_views market_trades_def event_trades_def List.map_filter_def distinct_map comp_def)
qed

text \<open>While no action is asked for: the emitted trades of a market are consecutive and end at its maximum.\<close>

definition quiet_inv :: "(u32 \<times> u64 option \<times> u64) list \<Rightarrow> Event list \<Rightarrow> bool" where
  "quiet_inv vs out \<longleftrightarrow> distinct (map fst vs) \<and> (\<forall>m. m \<notin> fst ` set vs \<longrightarrow> market_trades m out = []) \<and>
     (\<forall>(m, l, x) \<in> set vs. successively (\<lambda>a b. b = a + 1) (market_trades m out) \<and>
        (market_trades m out = [] \<or> last (market_trades m out) = x \<and> (\<exists>k. l = Some k \<and> k \<le> x)))"

lemma next_above: "x < t \<Longrightarrow> t - 1 \<le> x \<Longrightarrow> t = x + 1" for x t :: u64
proof -
  assume lt: "x < t" and le: "t - 1 \<le> x"
  have "1 \<le> t" using lt by (auto simp: word_le_nat_alt word_less_nat_alt)
  then have "unat (t - 1) = unat t - 1" using unat_sub_nowrap [of 1 t] by simp
  then have "unat t = unat x + 1" using lt le by (simp add: word_le_nat_alt word_less_nat_alt)
  then have "t = of_nat (unat x + 1)" by (rule eq_of_nat)
  then show ?thesis by simp
qed

lemma quiet_inv_ticker:
  assumes inv: "quiet_inv (trade_views s) out" and eff: "ticker_effect s i t s' evs None"
  shows "quiet_inv (trade_views s') (out @ evs)"
proof -
  obtain m l x where v: "trade_views s ! i = (m, l, x)" by (metis prod_cases3)
  let ?vs = "trade_views s"
  have e: "i < length ?vs" "trade_market_id t = m" "trade_views s' = ?vs[i := (m, Some (trade_id t), max x (trade_id t))]"
      "event_trades evs = (if x < trade_id t then [t] else [])" "l = None \<or> l = Some (trade_id t - 1)"
    using eff by (simp_all add: ticker_effect_def v)
  have keys: "map fst (trade_views s') = map fst ?vs" by (simp add: e(3) map_update list_update_same_conv e(1) v)
  then have keyset: "fst ` set (trade_views s') = fst ` set ?vs" by (metis set_map)
  have new: "market_trades n evs = (if x < trade_id t \<and> m = n then [trade_id t] else [])" for n
    using market_trades_single [OF e(4)] e(2) by simp
  have vin: "(m, l, x) \<in> set ?vs" using e(1) v nth_mem by fastforce
  then have old: "successively (\<lambda>a b. b = a + 1) (market_trades m out)"
      "market_trades m out \<noteq> [] \<Longrightarrow> last (market_trades m out) = x \<and> l = Some (trade_id t - 1) \<and> trade_id t - 1 \<le> x"
    using inv e(5) by (auto simp: quiet_inv_def)
  have "successively (\<lambda>a b. b = a + 1) (market_trades m' (out @ evs)) \<and>
      (market_trades m' (out @ evs) = [] \<or> last (market_trades m' (out @ evs)) = x' \<and> (\<exists>k. l' = Some k \<and> k \<le> x'))"
    if "(m', l', x') \<in> set (trade_views s')" for m' l' x'
  proof (cases "m' = m")
    case True
    have "(m, Some (trade_id t), max x (trade_id t)) \<in> set (trade_views s')" using e(1) by (simp add: e(3) set_update_memI)
    then have "l' = Some (trade_id t)" "x' = max x (trade_id t)"
      using distinct_views_eq [of "trade_views s'" m] that(1) inv keys True by (auto simp: quiet_inv_def)
    then show ?thesis
      using old True next_above [of x "trade_id t"]
      by (cases "x < trade_id t"; cases "market_trades m out = []")
         (auto simp: market_trades_append new successively_append_iff max_def)
  next
    case False
    then have "(m', l', x') \<in> set ?vs" using that(1) set_update_subset_insert [of ?vs i] by (auto simp: e(3))
    then show ?thesis using inv False by (auto simp: quiet_inv_def market_trades_append new)
  qed
  moreover have "market_trades n (out @ evs) = []" if "n \<notin> fst ` set (trade_views s')" for n
  proof -
    have "n \<noteq> m" using that vin by (force simp: keyset)
    then show ?thesis using that inv by (simp add: quiet_inv_def market_trades_append new keyset)
  qed
  ultimately show ?thesis using inv keys unfolding quiet_inv_def by auto
qed

lemma quiet_inv_run:
  assumes "feed_inv (trade_views s) []"
  shows "feed_run s (map (\<lambda>(p, t1, now). Message p t1 now) msgs) = (s', out, []) \<Longrightarrow> quiet_inv (trade_views s') out"
proof (induction msgs arbitrary: s' out rule: rev_induct)
  case Nil
  then show ?case using assms by (auto simp: feed_run_def quiet_inv_def feed_inv_def market_trades_def)
next
  case (snoc msg msgs)
  obtain p t1 now where msg: "msg = (p, t1, now)" by (metis prod_cases3)
  obtain s1 out1 acts1 where r: "feed_run s (map (\<lambda>(p, t1, now). Message p t1 now) msgs) = (s1, out1, acts1)" by (metis prod_cases3)
  obtain evs where m: "on_message s1 p t1 now = (s', evs, None)" "out = out1 @ evs" "acts1 = []"
    using snoc.prems by (auto simp: feed_run_snoc r msg feed_step_def split: prod.splits option.splits)
  have inv: "quiet_inv (trade_views s1) out1" using snoc.IH r m(3) by simp
  from on_message_effect [OF m(1)] show ?case
  proof (elim disjE exE conjE)
    assume "trade_views s' = trade_views s1" "event_trades evs = []"
    then show ?case using inv by (simp add: m(2) quiet_inv_def market_trades_none)
  next
    fix i t assume "ticker_effect s1 i t s' evs None"
    then show ?case using quiet_inv_ticker [OF inv] m(2) by simp
  qed
qed

section \<open>Properties\<close>

text \<open>No trade is emitted twice or out of order: whatever a runner does with a session (any messages, valid
  or not, reconnects and resubscriptions in any order), the trades it emits for a market have strictly
  increasing trade ids, so the snapshot ticker after a resubscription repeats nothing.\<close>

theorem feed_trades_increasing:
  assumes "length names < 2 ^ 32" and "feed_run (feed_new names stale_ms) inputs = (s, out, acts)"
  shows "sorted_wrt (<) (market_trades m out)"
  using feed_inv_run [OF feed_new_inv [OF assms(1)] assms(2)] by (simp add: feed_inv_def)

text \<open>A run of two tickers, for the witnesses.\<close>

definition demo_session :: Session where
  "demo_session = feed_new [bstr ''BTC-USD''] 5000"

definition demo_msg :: "u64 \<Rightarrow> u64 \<Rightarrow> bytes" where
  "demo_msg seq tid = object_text (demo_ticker seq tid)"

lemma demo_msg_read:
  "coinbase_message_type (demo_msg seq tid) = Some (bstr ''ticker'')" "coinbase_product_id (demo_msg seq tid) = Some (bstr ''BTC-USD'')"
  using extract_str_object [OF clean_bstr(1) demo_ticker_clean, of seq tid] extract_str_object [OF clean_bstr(3) demo_ticker_clean, of seq tid]
    coinbase_keys(1,3)
  by (simp_all add: coinbase_message_type_def coinbase_product_id_def demo_msg_def res_ok_def) (simp_all add: demo_ticker_def bstr_def)

lemma demo_msg_parsed:
  "\<exists>b t. parse_coinbase_ticker_bbo 1 (demo_msg seq tid) 0 = Inr b \<and> parse_coinbase_ticker_trade 1 (demo_msg seq tid) 0 = Inr t \<and>
     bbo_sequence b = seq \<and> trade_id t = tid \<and> trade_market_id t = 1"
  using ticker_parsed [OF demo_ticker_clean demo_ticker_says, of 1 seq tid 0] by (simp add: demo_msg_def demo_bbo_def demo_trade_def)

lemma demo_run:
  "\<exists>s out. feed_run demo_session [Message (demo_msg 100 55) 0 0, Message (demo_msg 101 56) 0 0] = (s, out, []) \<and> market_trades 1 out = [55, 56]"
proof -
  obtain b t where 1: "parse_coinbase_ticker_bbo 1 (demo_msg 100 55) 0 = Inr b" "parse_coinbase_ticker_trade 1 (demo_msg 100 55) 0 = Inr t"
      "bbo_sequence b = 100" "trade_id t = 55" "trade_market_id t = 1" using demo_msg_parsed by blast
  obtain b' t' where 2: "parse_coinbase_ticker_bbo 1 (demo_msg 101 56) 0 = Inr b'" "parse_coinbase_ticker_trade 1 (demo_msg 101 56) 0 = Inr t'"
      "bbo_sequence b' = 101" "trade_id t' = 56" "trade_market_id t' = 1" using demo_msg_parsed by blast
  show ?thesis
    by (simp add: feed_run_def feed_step_def on_message_def demo_msg_read on_ticker_def Let_def product_index_def demo_session_def
        feed_new_def enumerate_eq_zip 1 2 check_sequence_def check_trade_id_def market_trades_def)
qed

theorem feed_trades_increasing_witness:
  "\<exists>s out. feed_run demo_session [Message (demo_msg 100 55) 0 0, Message (demo_msg 101 56) 0 0] = (s, out, []) \<and>
     sorted_wrt (<) (market_trades 1 out) \<and> market_trades 1 out = [55, 56]"
proof -
  obtain s out where r: "feed_run demo_session [Message (demo_msg 100 55) 0 0, Message (demo_msg 101 56) 0 0] = (s, out, [])"
      "market_trades 1 out = [55, 56]" using demo_run by blast
  then show ?thesis using feed_trades_increasing [OF _ r(1) [unfolded demo_session_def], of 1] by auto
qed

text \<open>C21: No trade is lost silently: as long as the messages received after a connection lead to no action
  (no resubscription or reconnection is asked for), the trades emitted for each market since the connection
  have consecutive trade ids.\<close>

theorem feed_quiet_contiguous:
  assumes "length names < 2 ^ 32" and "feed_run (feed_new names stale_ms) inputs = (s0, out0, acts0)"
    and "feed_run (on_connected s0 now) (map (\<lambda>(p, t1, now). Message p t1 now) msgs) = (s, out, [])"
  shows "successively (\<lambda>a b. b = a + 1) (market_trades m out)"
proof -
  have "distinct (map fst (trade_views s0))"
    using feed_inv_run [OF feed_new_inv [OF assms(1)] assms(2)] by (simp add: feed_inv_def)
  then have "feed_inv (trade_views s0) []" by (simp add: feed_inv_def market_trades_def)
  then have "feed_inv (trade_views (on_connected s0 now)) []" by (simp add: reset_views feed_inv_reset)
  then have "quiet_inv (trade_views s) out" using quiet_inv_run assms(3) by blast
  then show ?thesis unfolding quiet_inv_def by (cases "m \<in> fst ` set (trade_views s)") auto
qed

theorem feed_quiet_contiguous_witness:
  "\<exists>s out. feed_run (on_connected demo_session 0) (map (\<lambda>(p, t1, now). Message p t1 now) [(demo_msg 100 55, 0, 0), (demo_msg 101 56, 0, 0)]) = (s, out, []) \<and>
     successively (\<lambda>a b. b = a + 1) (market_trades 1 out) \<and> market_trades 1 out = [55, 56]"
proof -
  have eq: "on_connected demo_session 0 = demo_session"
    by (simp add: on_connected_def reset_baselines_def demo_session_def feed_new_def enumerate_eq_zip)
  obtain s out where r: "feed_run (on_connected demo_session 0) (map (\<lambda>(p, t1, now). Message p t1 now) [(demo_msg 100 55, 0, 0), (demo_msg 101 56, 0, 0)]) = (s, out, [])"
      "market_trades 1 out = [55, 56]" using demo_run by (auto simp: eq)
  have start: "feed_run (feed_new [bstr ''BTC-USD''] 5000) [] = (demo_session, [], [])" by (simp add: feed_run_def demo_session_def)
  show ?thesis using r feed_quiet_contiguous [OF _ start r(1), of 1] by auto
qed

end
