(* ===== verification/Spsc_Ring.thy ===== *)
theory Spsc_Ring
  imports Rust_Prelude
begin

text \<open>
  The single-producer single-consumer ring of \<open>src/crates/core-engine/src/lib.rs\<close>. \<open>try_push\<close> and
  \<open>try_pop\<close> are translated whole, as they run when nothing interferes, and again cut at every access to
  shared memory into the steps of a producer and a consumer thread, so that the interleavings can be
  studied. The interface \<open>bounded_fifo\<close> is what the sequential operations promise.
\<close>

section \<open>State and sequential operations\<close>

record 'a SpscRingBuffer =
  producer_cursor :: u64
  cached_consumer_cursor :: u64
  consumer_cursor :: u64
  cached_producer_cursor :: u64
  ring_buffer :: "'a list"

definition spsc_new :: "nat \<Rightarrow> 'a \<Rightarrow> 'a SpscRingBuffer outcome" where
  "spsc_new n dflt =
     (if is_power_of_two n
      then Ret \<lparr>producer_cursor = 0, cached_consumer_cursor = 0, consumer_cursor = 0,
                cached_producer_cursor = 0, ring_buffer = replicate n dflt\<rparr>
      else Panic)"

abbreviation ring_n :: "'a SpscRingBuffer \<Rightarrow> nat" where
  "ring_n r \<equiv> length (ring_buffer r)"

text \<open>\<open>(cursor as usize) & (N - 1)\<close>.\<close>

definition slot_index :: "'a SpscRingBuffer \<Rightarrow> u64 \<Rightarrow> nat" where
  "slot_index r cursor = unat (cursor AND (of_nat (ring_n r) - 1))"

definition try_push :: "'a SpscRingBuffer \<Rightarrow> 'a \<Rightarrow> 'a SpscRingBuffer \<times> bool" where
  "try_push r item =
     (let current_head = producer_cursor r;
          cached_tail = cached_consumer_cursor r;
          (r, full) =
            (if current_head \<ge> cached_tail + of_nat (ring_n r)
             then let actual_tail = consumer_cursor r;
                      r = r\<lparr>cached_consumer_cursor := actual_tail\<rparr>
                  in (r, current_head \<ge> actual_tail + of_nat (ring_n r))
             else (r, False))
      in if full then (r, False)
         else let r = r\<lparr>ring_buffer := (ring_buffer r)[slot_index r current_head := item]\<rparr>
              in (r\<lparr>producer_cursor := current_head + 1\<rparr>, True))"

definition try_pop :: "'a SpscRingBuffer \<Rightarrow> 'a SpscRingBuffer \<times> 'a option" where
  "try_pop r =
     (let current_tail = consumer_cursor r;
          cached_head = cached_producer_cursor r;
          (r, empty) =
            (if current_tail \<ge> cached_head
             then let actual_head = producer_cursor r;
                      r = r\<lparr>cached_producer_cursor := actual_head\<rparr>
                  in (r, current_tail \<ge> actual_head)
             else (r, False))
      in if empty then (r, None)
         else let item = ring_buffer r ! slot_index r current_tail
              in (r\<lparr>consumer_cursor := current_tail + 1\<rparr>, Some item))"

text \<open>The two waiting loops. Each element of the schedule is what the producer does to the ring before
  the next attempt, and the clock reading after a failed one; a wait strategy is given by its \<open>reset\<close> and
  \<open>idle\<close>. A schedule that ends while the loop is still waiting gives \<open>None\<close>.\<close>

fun pop_blocking ::
  "('s \<Rightarrow> 's) \<Rightarrow> ('s \<Rightarrow> 's) \<Rightarrow> ('a SpscRingBuffer \<Rightarrow> 'a SpscRingBuffer) list \<Rightarrow> 's \<Rightarrow> 'a SpscRingBuffer \<Rightarrow>
   ('a \<times> 's \<times> 'a SpscRingBuffer) option" where
  "pop_blocking reset idle [] st r = None"
| "pop_blocking reset idle (env # envs) st r =
     (case try_pop (env r) of
        (r', Some item) \<Rightarrow> Some (item, reset st, r')
      | (r', None) \<Rightarrow> pop_blocking reset idle envs (idle st) r')"

fun pop_timeout ::
  "('s \<Rightarrow> 's) \<Rightarrow> ('s \<Rightarrow> 's) \<Rightarrow> u64 \<Rightarrow> (('a SpscRingBuffer \<Rightarrow> 'a SpscRingBuffer) \<times> u64) list \<Rightarrow> 's \<Rightarrow>
   'a SpscRingBuffer \<Rightarrow> ('a option \<times> 's \<times> 'a SpscRingBuffer) option" where
  "pop_timeout reset idle deadline [] st r = None"
| "pop_timeout reset idle deadline ((env, now) # envs) st r =
     (case try_pop (env r) of
        (r', Some item) \<Rightarrow> Some (Some item, reset st, r')
      | (r', None) \<Rightarrow> if now \<ge> deadline then Some (None, st, r')
                      else pop_timeout reset idle deadline envs (idle st) r')"

section \<open>The threads\<close>

text \<open>Where the producer is inside \<open>try_push\<close>: about to load the consumer's cursor, about to write the
  slot, about to publish; and the consumer inside \<open>try_pop\<close>. The arguments are the thread's locals.\<close>

datatype 'a producer_pc = PIdle | PLoadTail 'a u64 | PWrite 'a u64 | PPublish 'a u64
datatype 'a consumer_pc = CIdle | CLoadHead u64 | CRead u64 | CPublish 'a u64

fun producer_step :: "'a \<Rightarrow> 'a SpscRingBuffer \<times> 'a producer_pc \<Rightarrow> 'a SpscRingBuffer \<times> 'a producer_pc" where
  "producer_step item (r, PIdle) =
     (r, if producer_cursor r \<ge> cached_consumer_cursor r + of_nat (ring_n r)
         then PLoadTail item (producer_cursor r) else PWrite item (producer_cursor r))"
| "producer_step _ (r, PLoadTail item head) =
     (let tail = consumer_cursor r
      in (r\<lparr>cached_consumer_cursor := tail\<rparr>,
          if head \<ge> tail + of_nat (ring_n r) then PIdle else PWrite item head))"
| "producer_step _ (r, PWrite item head) =
     (r\<lparr>ring_buffer := (ring_buffer r)[slot_index r head := item]\<rparr>, PPublish item head)"
| "producer_step _ (r, PPublish item head) = (r\<lparr>producer_cursor := head + 1\<rparr>, PIdle)"

fun consumer_step :: "'a SpscRingBuffer \<times> 'a consumer_pc \<Rightarrow> 'a SpscRingBuffer \<times> 'a consumer_pc" where
  "consumer_step (r, CIdle) =
     (r, if consumer_cursor r \<ge> cached_producer_cursor r
         then CLoadHead (consumer_cursor r) else CRead (consumer_cursor r))"
| "consumer_step (r, CLoadHead tail) =
     (let head = producer_cursor r
      in (r\<lparr>cached_producer_cursor := head\<rparr>, if tail \<ge> head then CIdle else CRead tail))"
| "consumer_step (r, CRead tail) = (r, CPublish (ring_buffer r ! slot_index r tail) tail)"
| "consumer_step (r, CPublish item tail) = (r\<lparr>consumer_cursor := tail + 1\<rparr>, CIdle)"

text \<open>The two threads on one ring, with the items published and the items returned so far.\<close>

record 'a spsc_sys =
  sys_ring :: "'a SpscRingBuffer"
  sys_ppc :: "'a producer_pc"
  sys_cpc :: "'a consumer_pc"
  sys_pushed :: "'a list"
  sys_popped :: "'a list"

definition sys_init :: "'a SpscRingBuffer \<Rightarrow> 'a spsc_sys" where
  "sys_init r = \<lparr>sys_ring = r, sys_ppc = PIdle, sys_cpc = CIdle, sys_pushed = [], sys_popped = []\<rparr>"

inductive spsc_step :: "'a spsc_sys \<Rightarrow> 'a spsc_sys \<Rightarrow> bool" where
  by_producer: "producer_step item (sys_ring s, sys_ppc s) = (r', pc') \<Longrightarrow>
     pushed' = (case sys_ppc s of PPublish x _ \<Rightarrow> sys_pushed s @ [x] | _ \<Rightarrow> sys_pushed s) \<Longrightarrow>
     spsc_step s (s\<lparr>sys_ring := r', sys_ppc := pc', sys_pushed := pushed'\<rparr>)"
| by_consumer: "consumer_step (sys_ring s, sys_cpc s) = (r', pc') \<Longrightarrow>
     popped' = (case sys_cpc s of CPublish x _ \<Rightarrow> sys_popped s @ [x] | _ \<Rightarrow> sys_popped s) \<Longrightarrow>
     spsc_step s (s\<lparr>sys_ring := r', sys_cpc := pc', sys_popped := popped'\<rparr>)"

inductive spsc_reachable :: "nat \<Rightarrow> 'a \<Rightarrow> 'a spsc_sys \<Rightarrow> bool" for n dflt where
  spsc_start: "spsc_new n dflt = Ret r \<Longrightarrow> spsc_reachable n dflt (sys_init r)"
| spsc_more: "spsc_reachable n dflt s \<Longrightarrow> spsc_step s s' \<Longrightarrow> spsc_reachable n dflt s'"

text \<open>Run alone, the steps of a thread are the whole operation.\<close>

fun run_push :: "nat \<Rightarrow> 'a \<Rightarrow> 'a SpscRingBuffer \<times> 'a producer_pc \<Rightarrow> 'a SpscRingBuffer \<times> bool" where
  "run_push 0 _ (r, _) = (r, False)"
| "run_push (Suc k) x (r, pc) =
     (case producer_step x (r, pc) of
        (r', PIdle) \<Rightarrow> (r', case pc of PPublish _ _ \<Rightarrow> True | _ \<Rightarrow> False)
      | (r', pc') \<Rightarrow> run_push k x (r', pc'))"

lemma run_push_try_push: "run_push 4 x (r, PIdle) = try_push r x"
  by (simp add: try_push_def Let_def eval_nat_numeral slot_index_def)

fun run_pop :: "nat \<Rightarrow> 'a SpscRingBuffer \<times> 'a consumer_pc \<Rightarrow> 'a SpscRingBuffer \<times> 'a option" where
  "run_pop 0 (r, _) = (r, None)"
| "run_pop (Suc k) (r, pc) =
     (case consumer_step (r, pc) of
        (r', CIdle) \<Rightarrow> (r', case pc of CPublish x _ \<Rightarrow> Some x | _ \<Rightarrow> None)
      | (r', pc') \<Rightarrow> run_pop k (r', pc'))"

lemma run_pop_try_pop: "run_pop 4 (r, CIdle) = try_pop r"
  by (simp add: try_pop_def Let_def eval_nat_numeral slot_index_def)

section \<open>Invariant of the ring\<close>

lemma slot_index_mod:
  assumes "is_power_of_two (ring_n r)"
  shows "slot_index r c = unat c mod ring_n r" "0 < ring_n r" "ring_n r < 2 ^ 64"
proof -
  show "slot_index r c = unat c mod ring_n r" by (simp add: slot_index_def power_of_two_mask [OF assms])
  show "0 < ring_n r" "ring_n r < 2 ^ 64" using power_of_two_bounds [OF assms] by simp_all
qed

text \<open>The ring holds the items \<open>items ! t .. items ! (h - 1)\<close> of the history \<open>items\<close>, where \<open>h\<close> and \<open>t\<close>
  are the cursors, and no counter is about to wrap.\<close>

definition ring_holds :: "'a SpscRingBuffer \<Rightarrow> 'a list \<Rightarrow> nat \<Rightarrow> bool" where
  "ring_holds r items t \<longleftrightarrow>
     is_power_of_two (ring_n r) \<and> length items + ring_n r < 2 ^ 64 \<and>
     unat (producer_cursor r) = length items \<and> unat (consumer_cursor r) = t \<and>
     t \<le> length items \<and> length items \<le> t + ring_n r \<and>
     unat (cached_consumer_cursor r) \<le> t \<and> unat (cached_producer_cursor r) \<le> length items \<and>
     (\<forall>i. t \<le> i \<and> i < length items \<longrightarrow> ring_buffer r ! (i mod ring_n r) = items ! i)"

lemma full_check:
  assumes "unat tail + ring_n r < 2 ^ 64"
  shows "head \<ge> tail + of_nat (ring_n r) \<longleftrightarrow> unat tail + ring_n r \<le> unat (head :: u64)"
  using assms by (simp add: word_le_nat_alt unat_add_nowrap unat_of_nat_small)

lemma ring_holds_write:
  assumes "ring_holds r items t" and "length items < t + ring_n r"
  shows "ring_holds (r\<lparr>ring_buffer := (ring_buffer r)[slot_index r (producer_cursor r) := x]\<rparr>) items t \<and>
    (ring_buffer r)[slot_index r (producer_cursor r) := x] ! (length items mod ring_n r) = x"
proof -
  have s: "slot_index r (producer_cursor r) = length items mod ring_n r" "0 < ring_n r"
    using assms slot_index_mod [of r] by (simp_all add: ring_holds_def)
  have ne: "length items mod ring_n r \<noteq> i mod ring_n r" if "t \<le> i" "i < length items" for i
    using that assms(2) mod_neq_window [of i "length items" "ring_n r"] by simp
  show ?thesis using assms(1) s ne by (simp add: ring_holds_def)
qed

lemma ring_holds_publish:
  assumes "ring_holds r items t" "length items < t + ring_n r" "ring_buffer r ! (length items mod ring_n r) = x"
    and "length items + 1 + ring_n r < 2 ^ 64"
  shows "ring_holds (r\<lparr>producer_cursor := producer_cursor r + 1\<rparr>) (items @ [x]) t"
proof -
  have "unat (producer_cursor r + 1) = length items + 1"
    using assms by (subst unat_Suc_nowrap) (simp_all add: ring_holds_def)
  then show ?thesis using assms by (auto simp: ring_holds_def nth_append less_Suc_eq)
qed

lemma ring_holds_take:
  assumes "ring_holds r items t" "t < length items"
  shows "ring_holds (r\<lparr>consumer_cursor := consumer_cursor r + 1\<rparr>) items (t + 1)"
proof -
  have "unat (consumer_cursor r + 1) = t + 1"
    using assms by (subst unat_Suc_nowrap) (simp_all add: ring_holds_def)
  then show ?thesis using assms by (auto simp: ring_holds_def)
qed

lemma ring_holds_read:
  "ring_holds r items t \<Longrightarrow> t < length items \<Longrightarrow> ring_buffer r ! slot_index r (consumer_cursor r) = items ! t"
  using slot_index_mod [of r] by (simp add: ring_holds_def)

section \<open>The sequential queue\<close>

text \<open>What a client of a bounded queue may rely on.\<close>

locale bounded_fifo =
  fixes push :: "'r \<Rightarrow> 'a \<Rightarrow> 'r \<times> bool"
    and pop :: "'r \<Rightarrow> 'r \<times> 'a option"
    and items :: "'r \<Rightarrow> 'a list"
    and inv :: "nat \<Rightarrow> 'r \<Rightarrow> bool"  \<comment> \<open>with room for that many further pushes\<close>
    and capacity :: "'r \<Rightarrow> nat"
  assumes push_inv: "inv (Suc k) r \<Longrightarrow> push r x = (r', ok) \<Longrightarrow> inv k r' \<and> capacity r' = capacity r"
    and push_items: "inv (Suc k) r \<Longrightarrow> push r x = (r', ok) \<Longrightarrow>
       ok = (length (items r) < capacity r) \<and> items r' = (if ok then items r @ [x] else items r)"
    and pop_inv: "inv k r \<Longrightarrow> pop r = (r', res) \<Longrightarrow> inv k r' \<and> capacity r' = capacity r"
    and pop_items: "inv k r \<Longrightarrow> pop r = (r', res) \<Longrightarrow>
       (case items r of [] \<Rightarrow> res = None \<and> items r' = [] | x # xs \<Rightarrow> res = Some x \<and> items r' = xs)"
begin

text \<open>Popping until empty returns the contents in order.\<close>

fun drain :: "nat \<Rightarrow> 'r \<Rightarrow> 'a list" where
  "drain 0 r = []"
| "drain (Suc f) r = (case pop r of (r', None) \<Rightarrow> [] | (r', Some x) \<Rightarrow> x # drain f r')"

lemma drain_items: "inv k r \<Longrightarrow> length (items r) \<le> f \<Longrightarrow> drain f r = items r"
proof (induction f arbitrary: r)
  case (Suc f)
  obtain r' res where p: "pop r = (r', res)" by (cases "pop r")
  from pop_items [OF Suc.prems(1) p] pop_inv [OF Suc.prems(1) p] Suc.IH [of r'] Suc.prems(2) p
  show ?case by (auto split: list.splits)
qed simp

text \<open>Pushing a batch into a queue with room appends it.\<close>

lemma push_batch:
  "inv (length xs + k) r \<Longrightarrow> length (items r) + length xs \<le> capacity r \<Longrightarrow>
   items (foldl (\<lambda>r x. fst (push r x)) r xs) = items r @ xs \<and> inv k (foldl (\<lambda>r x. fst (push r x)) r xs)"
proof (induction xs arbitrary: r)
  case (Cons x xs)
  obtain r' ok where p: "push r x = (r', ok)" by (cases "push r x")
  have inv: "inv (Suc (length xs + k)) r" using Cons.prems by simp
  from push_items [OF inv p] push_inv [OF inv p] Cons.prems(2) have
    "items r' = items r @ [x]" "inv (length xs + k) r'" "capacity r' = capacity r" by auto
  then show ?case using Cons.IH [of r'] Cons.prems(2) p by simp
qed simp

end

definition ring_items :: "'a SpscRingBuffer \<Rightarrow> 'a list" where
  "ring_items r = map (\<lambda>i. ring_buffer r ! (i mod ring_n r)) [unat (consumer_cursor r)..<unat (producer_cursor r)]"

text \<open>A ring with at least \<open>k\<close> pushes left before the 64-bit cursor would come near wrapping.\<close>

definition ring_inv :: "nat \<Rightarrow> 'a SpscRingBuffer \<Rightarrow> bool" where
  "ring_inv k r \<longleftrightarrow> (\<exists>hist. ring_holds r hist (unat (consumer_cursor r)) \<and> length hist + k + ring_n r < 2 ^ 64)"

lemma ring_holds_tail: "ring_holds r hist t \<Longrightarrow> unat (consumer_cursor r) = t"
  by (simp add: ring_holds_def)

lemma ring_items_hist: "ring_holds r hist t \<Longrightarrow> ring_items r = drop t hist"
  by (rule nth_equalityI) (auto simp: ring_items_def ring_holds_def)

lemma try_push_holds:
  assumes "ring_holds r hist t" "length hist + 1 + ring_n r < 2 ^ 64" "try_push r x = (r', ok)"
  shows "ok = (length hist - t < ring_n r) \<and> ring_n r' = ring_n r \<and>
    (if ok then ring_holds r' (hist @ [x]) t else ring_holds r' hist t)"
proof -
  let ?h = "producer_cursor r" and ?c = "cached_consumer_cursor r" and ?t = "consumer_cursor r"
  let ?r1 = "r\<lparr>cached_consumer_cursor := ?t\<rparr>"
  have un: "unat ?c + ring_n r < 2 ^ 64" "unat ?t + ring_n r < 2 ^ 64" and t: "unat ?t = t" "t \<le> length hist"
    and h: "unat ?h = length hist" and c: "unat ?c \<le> t"
    using assms(1) by (simp_all add: ring_holds_def)
  have r1: "ring_holds ?r1 hist t" using assms(1) by (simp add: ring_holds_def)
  have push: "ring_holds (q\<lparr>ring_buffer := (ring_buffer q)[slot_index q (producer_cursor q) := x], producer_cursor := producer_cursor q + 1\<rparr>) (hist @ [x]) t"
    if "ring_holds q hist t" "length hist < t + ring_n q" "ring_n q = ring_n r" for q
    using ring_holds_publish [OF conjunct1 [OF ring_holds_write [OF that(1,2), of x]]] ring_holds_write [OF that(1,2), of x] that assms(2)
    by simp
  show ?thesis
  proof (cases "unat ?c + ring_n r \<le> length hist")
    case True
    then show ?thesis
      using assms(3) full_check [OF un(1), of ?h] full_check [OF un(2), of ?h] r1 push [OF r1] h t
      by (auto simp: try_push_def Let_def slot_index_def split: if_splits)
  next
    case False
    then show ?thesis
      using assms(3) full_check [OF un(1), of ?h] push [OF assms(1)] h t c
      by (auto simp: try_push_def Let_def split: if_splits)
  qed
qed

lemma try_pop_holds:
  assumes "ring_holds r hist t" "try_pop r = (r', res)"
  shows "ring_n r' = ring_n r \<and> res = (if t < length hist then Some (hist ! t) else None) \<and>
    ring_holds r' hist (if t < length hist then t + 1 else t)"
proof -
  let ?r1 = "r\<lparr>cached_producer_cursor := producer_cursor r\<rparr>"
  have h: "unat (producer_cursor r) = length hist" "unat (consumer_cursor r) = t" "unat (cached_producer_cursor r) \<le> length hist"
    using assms(1) by (simp_all add: ring_holds_def)
  have r1: "ring_holds ?r1 hist t" using assms(1) by (simp add: ring_holds_def)
  show ?thesis
    using assms(2) h ring_holds_take [OF assms(1)] ring_holds_read [OF assms(1)] ring_holds_take [OF r1] ring_holds_read [OF r1] r1
    by (auto simp: try_pop_def Let_def word_le_nat_alt slot_index_def split: if_splits)
qed

interpretation spsc: bounded_fifo try_push try_pop ring_items ring_inv "\<lambda>r. length (ring_buffer r)"
proof
  fix k :: nat and r r' :: "'b SpscRingBuffer" and x ok
  assume "ring_inv (Suc k) r" and p: "try_push r x = (r', ok)"
  then obtain hist where hist: "ring_holds r hist (unat (consumer_cursor r))" "length hist + Suc k + ring_n r < 2 ^ 64"
    by (auto simp: ring_inv_def)
  have "length hist + 1 + ring_n r < 2 ^ 64" using hist(2) by simp
  note * = try_push_holds [OF hist(1) this p]
  define hist' where "hist' = (if ok then hist @ [x] else hist)"
  have hold: "ring_holds r' hist' (unat (consumer_cursor r))" using * by (simp add: hist'_def)
  moreover have "length hist' + k + ring_n r' < 2 ^ 64" using hist(2) * by (simp add: hist'_def)
  ultimately show "ring_inv k r' \<and> length (ring_buffer r') = length (ring_buffer r)"
    unfolding ring_inv_def using ring_holds_tail [OF hold] * by auto
  have "ring_items r = drop (unat (consumer_cursor r)) hist" by (rule ring_items_hist [OF hist(1)])
  moreover have "ring_items r' = drop (unat (consumer_cursor r)) hist'" by (rule ring_items_hist [OF hold])
  ultimately show "ok = (length (ring_items r) < length (ring_buffer r)) \<and> ring_items r' = (if ok then ring_items r @ [x] else ring_items r)"
    using * hist(1) by (auto simp: ring_holds_def hist'_def)
next
  fix k :: nat and r r' :: "'b SpscRingBuffer" and res
  assume "ring_inv k r" and p: "try_pop r = (r', res)"
  then obtain hist where hist: "ring_holds r hist (unat (consumer_cursor r))" "length hist + k + ring_n r < 2 ^ 64"
    by (auto simp: ring_inv_def)
  note * = try_pop_holds [OF hist(1) p]
  then have "ring_holds r' hist (unat (consumer_cursor r'))" by (metis ring_holds_tail)
  then show "ring_inv k r' \<and> length (ring_buffer r') = length (ring_buffer r)"
    using * hist(2) by (auto simp: ring_inv_def)
  have "ring_items r = drop (unat (consumer_cursor r)) hist" by (rule ring_items_hist [OF hist(1)])
  moreover have "ring_items r' = drop (if unat (consumer_cursor r) < length hist then unat (consumer_cursor r) + 1 else unat (consumer_cursor r)) hist"
    using * ring_items_hist by blast
  ultimately show "case ring_items r of [] \<Rightarrow> res = None \<and> ring_items r' = [] | x # xs \<Rightarrow> res = Some x \<and> ring_items r' = xs"
    using * by (cases "unat (consumer_cursor r) < length hist") (simp_all flip: Cons_nth_drop_Suc)
qed

section \<open>The threads, interleaved\<close>

fun producer_at :: "'a spsc_sys \<Rightarrow> 'a producer_pc \<Rightarrow> bool" where
  "producer_at s PIdle = True"
| "producer_at s (PLoadTail x head) = (head = producer_cursor (sys_ring s))"
| "producer_at s (PWrite x head) =
     (head = producer_cursor (sys_ring s) \<and> length (sys_pushed s) < length (sys_popped s) + ring_n (sys_ring s))"
| "producer_at s (PPublish x head) =
     (head = producer_cursor (sys_ring s) \<and> length (sys_pushed s) < length (sys_popped s) + ring_n (sys_ring s)
      \<and> ring_buffer (sys_ring s) ! (length (sys_pushed s) mod ring_n (sys_ring s)) = x)"

fun consumer_at :: "'a spsc_sys \<Rightarrow> 'a consumer_pc \<Rightarrow> bool" where
  "consumer_at s CIdle = True"
| "consumer_at s (CLoadHead tail) = (tail = consumer_cursor (sys_ring s))"
| "consumer_at s (CRead tail) = (tail = consumer_cursor (sys_ring s) \<and> length (sys_popped s) < length (sys_pushed s))"
| "consumer_at s (CPublish x tail) =
     (tail = consumer_cursor (sys_ring s) \<and> length (sys_popped s) < length (sys_pushed s)
      \<and> x = sys_pushed s ! length (sys_popped s))"

definition sys_inv :: "'a spsc_sys \<Rightarrow> bool" where
  "sys_inv s \<longleftrightarrow> ring_holds (sys_ring s) (sys_pushed s) (length (sys_popped s)) \<and>
     sys_popped s = take (length (sys_popped s)) (sys_pushed s) \<and>
     producer_at s (sys_ppc s) \<and> consumer_at s (sys_cpc s)"

lemma producer_step_inv:
  assumes inv: "sys_inv s" and step: "producer_step item (sys_ring s, sys_ppc s) = (r', pc')"
    and room: "length (sys_pushed s) + 1 + ring_n (sys_ring s) < 2 ^ 64"
  defines "pushed' \<equiv> case sys_ppc s of PPublish x _ \<Rightarrow> sys_pushed s @ [x] | _ \<Rightarrow> sys_pushed s"
  shows "sys_inv (s\<lparr>sys_ring := r', sys_ppc := pc', sys_pushed := pushed'\<rparr>) \<and> ring_n r' = ring_n (sys_ring s)"
proof -
  let ?r = "sys_ring s" and ?hist = "sys_pushed s" and ?t = "length (sys_popped s)"
  have hold: "ring_holds ?r ?hist ?t" and at: "producer_at s (sys_ppc s)" and cons: "consumer_at s (sys_cpc s)"
    and pre: "sys_popped s = take ?t ?hist"
    using inv by (simp_all add: sys_inv_def)
  have un: "unat (cached_consumer_cursor ?r) + ring_n ?r < 2 ^ 64" "unat (consumer_cursor ?r) + ring_n ?r < 2 ^ 64"
    "unat (cached_consumer_cursor ?r) \<le> ?t" "unat (consumer_cursor ?r) = ?t" "unat (producer_cursor ?r) = length ?hist"
    using hold by (simp_all add: ring_holds_def)
  show ?thesis
  proof (cases "sys_ppc s")
    case PIdle
    then show ?thesis
      using step hold cons pre full_check [OF un(1), of "producer_cursor ?r"] un
      by (cases "sys_cpc s") (auto simp: sys_inv_def pushed'_def)
  next
    case (PLoadTail x head)
    have "ring_holds (?r\<lparr>cached_consumer_cursor := consumer_cursor ?r\<rparr>) ?hist ?t"
      using hold by (simp add: ring_holds_def)
    then show ?thesis
      using step cons pre full_check [OF un(2), of "producer_cursor ?r"] un PLoadTail at
      by (cases "sys_cpc s") (auto simp: sys_inv_def pushed'_def Let_def)
  next
    case (PWrite x head)
    then show ?thesis
      using step cons pre ring_holds_write [OF hold, of x] at
      by (cases "sys_cpc s") (auto simp: sys_inv_def pushed'_def)
  next
    case (PPublish x head)
    have pop: "take ?t (?hist @ [x]) = take ?t ?hist" "\<And>i. i < length ?hist \<Longrightarrow> (?hist @ [x]) ! i = ?hist ! i"
      using hold by (simp_all add: ring_holds_def nth_append)
    show ?thesis
      using step cons pre ring_holds_publish [OF hold, of x] at room PPublish pop
      by (cases "sys_cpc s") (auto simp: sys_inv_def pushed'_def)
  qed
qed

lemma consumer_step_inv:
  assumes inv: "sys_inv s" and step: "consumer_step (sys_ring s, sys_cpc s) = (r', pc')"
  defines "popped' \<equiv> case sys_cpc s of CPublish x _ \<Rightarrow> sys_popped s @ [x] | _ \<Rightarrow> sys_popped s"
  shows "sys_inv (s\<lparr>sys_ring := r', sys_cpc := pc', sys_popped := popped'\<rparr>) \<and> ring_n r' = ring_n (sys_ring s)"
proof -
  let ?r = "sys_ring s" and ?hist = "sys_pushed s" and ?t = "length (sys_popped s)"
  have hold: "ring_holds ?r ?hist ?t" and at: "producer_at s (sys_ppc s)" and cons: "consumer_at s (sys_cpc s)"
    and pre: "sys_popped s = take ?t ?hist"
    using inv by (simp_all add: sys_inv_def)
  have un: "unat (producer_cursor ?r) = length ?hist" "unat (consumer_cursor ?r) = ?t" "unat (cached_producer_cursor ?r) \<le> length ?hist"
    using hold by (simp_all add: ring_holds_def)
  show ?thesis
  proof (cases "sys_cpc s")
    case CIdle
    then show ?thesis
      using step hold at pre un by (cases "sys_ppc s") (auto simp: sys_inv_def popped'_def word_le_nat_alt)
  next
    case (CLoadHead tail)
    have "ring_holds (?r\<lparr>cached_producer_cursor := producer_cursor ?r\<rparr>) ?hist ?t"
      using hold by (simp add: ring_holds_def)
    then show ?thesis
      using step at pre un CLoadHead cons
      by (cases "sys_ppc s") (auto simp: sys_inv_def popped'_def Let_def word_le_nat_alt)
  next
    case (CRead tail)
    then show ?thesis
      using step hold at pre cons ring_holds_read [OF hold]
      by (cases "sys_ppc s") (auto simp: sys_inv_def popped'_def)
  next
    case (CPublish x tail)
    then have "sys_popped s @ [x] = take (?t + 1) ?hist"
      using cons pre by (simp add: take_Suc_conv_app_nth)
    then show ?thesis
      using step at CPublish cons ring_holds_take [OF hold]
      by (cases "sys_ppc s") (auto simp: sys_inv_def popped'_def)
  qed
qed

lemma spsc_step_room: "spsc_step s s' \<Longrightarrow> length (sys_pushed s) \<le> length (sys_pushed s')"
  by (cases rule: spsc_step.cases) (auto split: producer_pc.splits)

lemma sys_inv_init: "spsc_new n dflt = Ret r \<Longrightarrow> n < 2 ^ 64 \<Longrightarrow> sys_inv (sys_init r) \<and> ring_n r = n"
  by (auto simp: spsc_new_def sys_inv_def sys_init_def ring_holds_def split: if_splits)

lemma spsc_reachable_inv:
  "spsc_reachable n dflt s \<Longrightarrow> length (sys_pushed s) + 1 + n < 2 ^ 64 \<Longrightarrow> sys_inv s \<and> ring_n (sys_ring s) = n"
proof (induction rule: spsc_reachable.induct)
  case (spsc_start r)
  then show ?case using sys_inv_init [OF spsc_start(1)] by (simp add: sys_init_def)
next
  case (spsc_more s s')
  have IH: "sys_inv s" "ring_n (sys_ring s) = n"
    using spsc_more.IH spsc_more.prems spsc_step_room [OF spsc_more.hyps(2)] by auto
  from spsc_more.hyps(2) show ?case
  proof cases
    case (by_producer item r' pc' pushed')
    have "length (sys_pushed s) + 1 + ring_n (sys_ring s) < 2 ^ 64"
      using spsc_more.prems spsc_step_room [OF spsc_more.hyps(2)] IH(2) by simp
    from producer_step_inv [OF IH(1) by_producer(2) this] by_producer IH(2) show ?thesis by simp
  next
    case (by_consumer r' pc' popped')
    from consumer_step_inv [OF IH(1) by_consumer(2)] by_consumer IH(2) show ?thesis by simp
  qed
qed

lemma spsc_reachable_safe:
  assumes "spsc_reachable n dflt s" and "length (sys_pushed s) + 1 + n < 2 ^ 64"
  shows "sys_popped s = take (length (sys_popped s)) (sys_pushed s) \<and>
    length (sys_popped s) \<le> length (sys_pushed s) \<and> length (sys_pushed s) \<le> length (sys_popped s) + n \<and>
    (\<forall>x head tail. sys_ppc s = PWrite x head \<and> sys_cpc s = CRead tail \<longrightarrow>
       slot_index (sys_ring s) head \<noteq> slot_index (sys_ring s) tail)"
proof -
  have inv: "sys_inv s" "ring_n (sys_ring s) = n" using spsc_reachable_inv [OF assms] by auto
  then have hold: "ring_holds (sys_ring s) (sys_pushed s) (length (sys_popped s))" by (simp add: sys_inv_def)
  have "slot_index (sys_ring s) head \<noteq> slot_index (sys_ring s) tail"
    if "sys_ppc s = PWrite x head" "sys_cpc s = CRead tail" for x head tail
  proof -
    have "head = producer_cursor (sys_ring s)" "tail = consumer_cursor (sys_ring s)"
        "length (sys_popped s) < length (sys_pushed s)" "length (sys_pushed s) < length (sys_popped s) + n"
      using inv that by (simp_all add: sys_inv_def)
    moreover from this have "length (sys_popped s) mod n \<noteq> length (sys_pushed s) mod n"
      by (intro mod_neq_window)
    ultimately show ?thesis
      using hold slot_index_mod [of "sys_ring s"] inv(2) by (simp add: ring_holds_def)
  qed
  then show ?thesis using inv hold by (auto simp: sys_inv_def ring_holds_def)
qed

text \<open>A loop whose schedule brings an item returns it; with a deadline, the loop returns by then.\<close>

lemma pop_timeout_returns:
  "\<exists>(env, now) \<in> set envs. deadline \<le> now \<Longrightarrow> \<exists>res. pop_timeout reset idle deadline envs st r = Some res"
  by (induction reset idle deadline envs st r rule: pop_timeout.induct) (auto split: prod.splits option.splits)

section \<open>Properties\<close>

text \<open>C13: Under every interleaving of the producer's and the consumer's accesses to shared memory, the
  items the consumer has returned are a prefix of the items the producer has published, in order and
  without loss or duplication; at most \<open>N\<close> items are in flight; and when the producer is about to write
  a slot and the consumer about to read one, the slots differ, so the unsynchronised accesses never
  race. This holds as long as the 64-bit producer cursor has not come within \<open>N + 1\<close> of wrapping.\<close>

theorem spsc_interleaving_safe:
  assumes "spsc_reachable n dflt s" and "length (sys_pushed s) + 1 + n < 2 ^ 64"
  shows "sys_popped s = take (length (sys_popped s)) (sys_pushed s) \<and>
    length (sys_popped s) \<le> length (sys_pushed s) \<and> length (sys_pushed s) \<le> length (sys_popped s) + n \<and>
    (\<forall>x head tail. sys_ppc s = PWrite x head \<and> sys_cpc s = CRead tail \<longrightarrow>
       slot_index (sys_ring s) head \<noteq> slot_index (sys_ring s) tail)"
  by (rule spsc_reachable_safe [OF assms])

theorem spsc_interleaving_safe_witness:
  "\<exists>s. spsc_reachable 2 (0 :: nat) s \<and> sys_ppc s = PWrite 7 0 \<and> sys_popped s = take (length (sys_popped s)) (sys_pushed s)"
proof -
  obtain r :: "nat SpscRingBuffer" where r: "spsc_new 2 (0 :: nat) = Ret r" "producer_cursor r = 0"
      "cached_consumer_cursor r = 0" "ring_n r = 2"
    by (simp add: spsc_new_def is_power_of_two_def upt_conv_Cons)
  let ?s = "(sys_init r)\<lparr>sys_ring := r, sys_ppc := PWrite 7 0, sys_pushed := []\<rparr>"
  have "spsc_step (sys_init r) ?s"
    by (rule by_producer [where item = 7]) (simp_all add: sys_init_def r)
  then have reach: "spsc_reachable 2 0 ?s" by (rule spsc_more [OF spsc_start [OF r(1)]])
  show ?thesis using spsc_interleaving_safe [OF reach] reach by (intro exI [of _ ?s]) (simp add: sys_init_def)
qed

text \<open>C14: Used from one thread the ring is a bounded first-in first-out queue: a push succeeds exactly
  when fewer than \<open>N\<close> items are queued and then appends its item, a pop returns the oldest item or
  \<open>None\<close> when empty, nothing else changes the contents, and the well-formedness of the ring is kept.\<close>

theorem spsc_refines_fifo:
  assumes "ring_inv (Suc k) r"
  shows "(case try_push r x of (r', ok) \<Rightarrow> ring_inv k r' \<and> length (ring_buffer r') = length (ring_buffer r) \<and>
            ok = (length (ring_items r) < length (ring_buffer r)) \<and>
            ring_items r' = (if ok then ring_items r @ [x] else ring_items r)) \<and>
    (case try_pop r of (r', res) \<Rightarrow> ring_inv (Suc k) r' \<and> length (ring_buffer r') = length (ring_buffer r) \<and>
            res = (case ring_items r of [] \<Rightarrow> None | y # ys \<Rightarrow> Some y) \<and> ring_items r' = tl (ring_items r))"
proof -
  obtain r1 ok where push: "try_push r x = (r1, ok)" by (cases "try_push r x")
  obtain r2 res where pop: "try_pop r = (r2, res)" by (cases "try_pop r")
  show ?thesis
    using spsc.push_inv [OF assms push] spsc.push_items [OF assms push]
      spsc.pop_inv [OF assms pop] spsc.pop_items [OF assms pop]
    by (auto simp: push pop split: list.splits)
qed

theorem spsc_refines_fifo_witness:
  "\<exists>r :: nat SpscRingBuffer. spsc_new 2 0 = Ret r \<and> ring_inv (Suc 9) r \<and>
     (case try_push r 5 of (r', ok) \<Rightarrow> ok \<and> ring_items r' = [5])"
proof -
  obtain r :: "nat SpscRingBuffer" where r: "spsc_new 2 0 = Ret r" "ring_items r = []" "length (ring_buffer r) = 2"
    by (simp add: spsc_new_def is_power_of_two_def upt_conv_Cons ring_items_def)
  have hold: "ring_holds r [] 0" using sys_inv_init [OF r(1)] by (simp add: sys_inv_def sys_init_def)
  have inv: "ring_inv (Suc 9) r"
    unfolding ring_inv_def by (rule exI [of _ "[]"]) (simp add: ring_holds_tail [OF hold] hold r(3))
  show ?thesis using r inv spsc_refines_fifo [OF inv, of 5] by (auto split: prod.splits)
qed

end
