(* ===== verification/Live_Runner.thy ===== *)
theory Live_Runner
  imports Feed_Session Spsc_Ring Sbe
begin

text \<open>
  The live feed runner, \<open>src/crates/live-feed/src/bin/live_feed.rs\<close>: one connection of the select loop,
  the sink behind the session, and the reconnection loop. What the runtime delivers to the loop (timer
  ticks, the deadline, messages and errors of the WebSocket library) is a list of events; what the loop
  sends is collected; whether a send succeeds is up to the environment.
\<close>

section \<open>The sink\<close>

record Sink =
  sink_ring :: "NormalizedBbo SpscRingBuffer"
  sink_buf :: bytes
  sink_bbos :: u64
  sink_trades :: u64
  process_ns :: "u64 list"
  exchange_to_local_ns :: "i64 list"

definition sink_new :: "Sink outcome" where
  "sink_new = and_ret (spsc_new 1024 bbo_default) (\<lambda>ring.
     Ret \<lparr>sink_ring = ring, sink_buf = replicate TOTAL_SBE_BBO_LEN 0, sink_bbos = 0, sink_trades = 0,
          process_ns = [], exchange_to_local_ns = []\<rparr>)"

text \<open>\<open>took\<close> is the time measured around the hand-off; a message yields at most one quote, so one value per
  message is enough.\<close>

fun sink_handle :: "u64 \<Rightarrow> Event \<Rightarrow> Sink \<Rightarrow> Sink" where
  "sink_handle took (EvBbo b) s =
     (let ring = fst (try_push (sink_ring s) b);
          (ring, x) = try_pop ring;
          buf = (case x of
                   Some x \<Rightarrow> (case encode_bbo_sbe x (sink_buf s) of Inr (_, buf) \<Rightarrow> buf | Inl _ \<Rightarrow> sink_buf s)
                 | None \<Rightarrow> sink_buf s);
          s = s\<lparr>sink_ring := ring, sink_buf := buf\<rparr>;
          s = (if length (process_ns s) < 1000000
               then s\<lparr>process_ns := process_ns s @ [took],
                      exchange_to_local_ns := exchange_to_local_ns s @
                        [t1_ingest_nic_ns (bbo_telemetry b) - t0_exchange_ns (bbo_telemetry b)]\<rparr>
               else s)
      in s\<lparr>sink_bbos := sink_bbos s + 1\<rparr>)"
| "sink_handle took (EvTrade t) s = s\<lparr>sink_trades := sink_trades s + 1\<rparr>"

text \<open>Percentile of sorted samples.\<close>

definition pct :: "u64 list \<Rightarrow> nat \<Rightarrow> u64" where
  "pct samples p = (if samples = [] then 0 else samples ! min (length samples * p div 100) (length samples - 1))"

section \<open>One connection\<close>

fun join_comma :: "bytes list \<Rightarrow> bytes" where
  "join_comma [] = []"
| "join_comma [x] = x"
| "join_comma (x # xs) = x @ [44] @ join_comma xs"

definition sub_msg :: "bytes \<Rightarrow> bytes list \<Rightarrow> bytes" where
  "sub_msg kind prods =
     bstr ''{\"type\":\"'' @ kind @ bstr ''\",\"product_ids\":['' @
     join_comma (map (\<lambda>p. [34] @ p @ [34]) prods) @ bstr ''],\"channels\":[\"ticker\",\"heartbeat\"]}''"

datatype run_outcome = Finished | ReconnectAfter Reason

datatype ws_out = SendText bytes | SendPong bytes

record Runner =
  rn_session :: Session
  rn_sink :: Sink
  rn_sent :: "ws_out list"
  rn_got_message :: bool
  rn_sends :: "bool list"  \<comment> \<open>whether the next sends succeed; past its end they do\<close>

datatype conn_event =
    DeadlineReached | CtrlC | TickElapsed u64 | SocketEnd | SocketError bytes
  | TextMsg bytes u64 u64 u64  \<comment> \<open>text, wall clock, monotonic milliseconds, time taken by the sink\<close>
  | PingMsg bytes | CloseMsg | OtherMsg

type_synonym conn_result = "(bytes + run_outcome) option"  \<comment> \<open>\<open>None\<close>: the loop goes on\<close>

definition ws_send :: "ws_out \<Rightarrow> Runner \<Rightarrow> Runner \<times> bool" where
  "ws_send msg r =
     (case rn_sends r of
        False # rest \<Rightarrow> (r\<lparr>rn_sends := rest\<rparr>, False)
      | True # rest \<Rightarrow> (r\<lparr>rn_sends := rest, rn_sent := rn_sent r @ [msg]\<rparr>, True)
      | [] \<Rightarrow> (r\<lparr>rn_sent := rn_sent r @ [msg]\<rparr>, True))"

definition handle_text :: "bytes list \<Rightarrow> bytes \<Rightarrow> u64 \<Rightarrow> u64 \<Rightarrow> u64 \<Rightarrow> Runner \<Rightarrow> Runner \<times> conn_result" where
  "handle_text prods text wall_ns now_ms took r =
     (let r = r\<lparr>rn_got_message := True\<rparr>;
          (session, events, action) = on_message (rn_session r) text wall_ns now_ms;
          r = r\<lparr>rn_session := session, rn_sink := fold (sink_handle took) events (rn_sink r)\<rparr>
      in case action of
           Some (Resubscribe why) \<Rightarrow>
             let r = r\<lparr>rn_session := note_action_taken (rn_session r) (Resubscribe why)\<rparr>;
                 (r, ok) = ws_send (SendText (sub_msg (bstr ''unsubscribe'') prods)) r
             in if \<not> ok then (r, Some (Inl (bstr ''send'')))
                else let (r, ok) = ws_send (SendText (sub_msg (bstr ''subscribe'') prods)) r
                     in (r, if ok then None else Some (Inl (bstr ''send'')))
         | Some (Reconnect why) \<Rightarrow>
             (r\<lparr>rn_session := note_action_taken (rn_session r) (Reconnect why)\<rparr>, Some (Inr (ReconnectAfter why)))
         | None \<Rightarrow> (r, None))"

fun connection_step :: "bytes list \<Rightarrow> conn_event \<Rightarrow> Runner \<Rightarrow> Runner \<times> conn_result" where
  "connection_step prods DeadlineReached r = (r, Some (Inr Finished))"
| "connection_step prods CtrlC r = (r, Some (Inr Finished))"
| "connection_step prods (TickElapsed now_ms) r =
     (case on_tick (rn_session r) now_ms of
        None \<Rightarrow> (r, None)
      | Some action \<Rightarrow>
          let r = r\<lparr>rn_session := note_action_taken (rn_session r) action\<rparr>
          in (r, case action of Reconnect why \<Rightarrow> Some (Inr (ReconnectAfter why)) | Resubscribe _ \<Rightarrow> None))"
| "connection_step prods SocketEnd r = (r, Some (Inr (ReconnectAfter Disconnected)))"
| "connection_step prods (SocketError e) r = (r, Some (Inl e))"
| "connection_step prods (TextMsg text wall_ns now_ms took) r = handle_text prods text wall_ns now_ms took r"
| "connection_step prods (PingMsg p) r =
     (case ws_send (SendPong p) r of (r, ok) \<Rightarrow> (r, if ok then None else Some (Inl (bstr ''send''))))"
| "connection_step prods CloseMsg r = (r, Some (Inr (ReconnectAfter Disconnected)))"
| "connection_step prods OtherMsg r = (r, None)"

fun connection_loop :: "bytes list \<Rightarrow> conn_event list \<Rightarrow> Runner \<Rightarrow> Runner \<times> conn_result" where
  "connection_loop prods [] r = (r, None)"
| "connection_loop prods (ev # evs) r =
     (case connection_step prods ev r of
        (r, Some res) \<Rightarrow> (r, Some res)
      | (r, None) \<Rightarrow> connection_loop prods evs r)"

text \<open>\<open>connected\<close> is the error of the connection attempt, or its success.\<close>

definition run_connection :: "bytes list \<Rightarrow> bytes option \<Rightarrow> u64 \<Rightarrow> conn_event list \<Rightarrow> Runner \<Rightarrow> Runner \<times> conn_result" where
  "run_connection prods connect_error now_ms evs r =
     (case connect_error of
        Some e \<Rightarrow> (r, Some (Inl e))
      | None \<Rightarrow>
          let r = r\<lparr>rn_session := on_connected (rn_session r) now_ms\<rparr>;
              (r, ok) = ws_send (SendText (sub_msg (bstr ''subscribe'') prods)) r
          in if ok then connection_loop prods evs r else (r, Some (Inl (bstr ''send''))))"

section \<open>Reconnecting\<close>

definition MAX_BACKOFF :: nat where
  "MAX_BACKOFF = 30"

text \<open>A connection as the runtime delivers it: the error of the attempt or none, the milliseconds at which it was
  established, the events of its loop, and the time in seconds at which the retry decision is taken.\<close>

type_synonym connection = "bytes option \<times> u64 \<times> conn_event list \<times> nat"

text \<open>The loop of \<open>main\<close>. The result is the final state, the times slept, and whether the loop was left; a
  connection whose events do not end it is still open.\<close>

fun main_loop :: "bytes list \<Rightarrow> nat option \<Rightarrow> nat \<Rightarrow> connection list \<Rightarrow> Runner \<Rightarrow> Runner \<times> nat list \<times> bool" where
  "main_loop prods deadline backoff [] r = (r, [], False)"
| "main_loop prods deadline backoff ((connect_error, now_ms, evs, now) # conns) r =
     (let (r, res) = run_connection prods connect_error now_ms evs (r\<lparr>rn_got_message := False\<rparr>);
          backoff = (if rn_got_message r then 1 else backoff)
      in case res of
           None \<Rightarrow> (r, [], False)
         | Some res \<Rightarrow>
             if res = Inr Finished then (r, [], True)
             else if (case deadline of Some d \<Rightarrow> now + backoff \<ge> d | None \<Rightarrow> False) then (r, [], True)
             else let (r, slept, left) = main_loop prods deadline (min (backoff * 2) MAX_BACKOFF) conns r
                  in (r, backoff # slept, left))"

text \<open>The exit status: a run that received too few messages fails.\<close>

definition exit_status :: "u64 \<Rightarrow> Session \<Rightarrow> nat" where
  "exit_status min_messages s = (if st_messages (stats s) < min_messages then 1 else 0)"

lemma main_loop_sleeps_bounded:
  "1 \<le> backoff \<Longrightarrow> backoff \<le> MAX_BACKOFF \<Longrightarrow>
   \<forall>d \<in> set (fst (snd (main_loop prods deadline backoff conns r))). 1 \<le> d \<and> d \<le> MAX_BACKOFF"
proof (induction conns arbitrary: backoff r)
  case (Cons c conns)
  obtain ce ms evs now where c: "c = (ce, ms, evs, now)" by (metis prod_cases4)
  obtain r1 res where rc: "run_connection prods ce ms evs (r\<lparr>rn_got_message := False\<rparr>) = (r1, res)" by fastforce
  let ?b = "if rn_got_message r1 then 1 else backoff"
  have b: "1 \<le> ?b" "?b \<le> MAX_BACKOFF" "1 \<le> min (?b * 2) MAX_BACKOFF" "min (?b * 2) MAX_BACKOFF \<le> MAX_BACKOFF"
    using Cons.prems by (auto simp: MAX_BACKOFF_def)
  show ?case using Cons.IH [OF b(3,4), of r1] b(1,2)
    by (simp add: c rc Let_def case_prod_beta split: option.split) (auto split: if_splits)
qed simp

text \<open>Without a message the pauses double up to the cap.\<close>

lemma main_loop_doubles:
  assumes "\<forall>(ce, ms, evs, now) \<in> set conns. ce \<noteq> None"
  shows "fst (snd (main_loop prods None (min (2 ^ k) MAX_BACKOFF) conns r)) = map (\<lambda>i. min (2 ^ (k + i)) MAX_BACKOFF) [0..<length conns]"
  using assms
proof (induction conns arbitrary: k r)
  case (Cons c conns)
  obtain e ms evs now where c: "c = (Some e, ms, evs, now)" using Cons.prems by (cases c) auto
  have dbl: "min (min (2 ^ k) MAX_BACKOFF * 2) MAX_BACKOFF = min (2 ^ Suc k) MAX_BACKOFF" by (auto simp: min_def)
  have shift: "map (\<lambda>i. min (2 ^ (k + i)) MAX_BACKOFF) [0..<Suc (length conns)]
      = min (2 ^ k) MAX_BACKOFF # map (\<lambda>i. min (2 ^ (Suc k + i)) MAX_BACKOFF) [0..<length conns]"
    by (simp add: upt_conv_Cons map_Suc_upt [symmetric] del: upt_Suc)
  show ?case using Cons.IH [of "Suc k" "r\<lparr>rn_got_message := False\<rparr>"] Cons.prems
    by (simp add: c run_connection_def dbl shift case_prod_beta del: upt_Suc power_Suc)
qed simp

section \<open>The sink encodes every quote\<close>

definition sink_ok :: "nat \<Rightarrow> Sink \<Rightarrow> bool" where
  "sink_ok k s \<longleftrightarrow> ring_inv k (sink_ring s) \<and> ring_items (sink_ring s) = [] \<and> length (ring_buffer (sink_ring s)) = 1024 \<and>
     length (sink_buf s) = TOTAL_SBE_BBO_LEN"

lemma ring_inv_mono: "ring_inv k r \<Longrightarrow> j \<le> k \<Longrightarrow> ring_inv j r"
  unfolding ring_inv_def by (elim exE conjE, rule exI, rule conjI, assumption) simp

lemma sink_handle_bbo:
  assumes ok: "sink_ok (Suc k) s"
  shows "sink_ok k (sink_handle took (EvBbo b) s)" "sink_buf (sink_handle took (EvBbo b) s) = bbo_wire b"
proof -
  have r: "ring_inv (Suc k) (sink_ring s)" and e: "ring_items (sink_ring s) = []" and n: "length (ring_buffer (sink_ring s)) = 1024"
    and buf: "length (sink_buf s) = TOTAL_SBE_BBO_LEN" using ok by (simp_all add: sink_ok_def)
  obtain r1 full where push: "try_push (sink_ring s) b = (r1, full)" by (cases "try_push (sink_ring s) b")
  have r1: "ring_inv k r1" "length (ring_buffer r1) = 1024" "ring_items r1 = [b]"
    using spsc.push_inv [OF r push] spsc.push_items [OF r push] e n by simp_all
  obtain r2 x where pop: "try_pop r1 = (r2, x)" by (cases "try_pop r1")
  have r2: "ring_inv k r2" "length (ring_buffer r2) = 1024" "ring_items r2 = []" "x = Some b"
    using spsc.pop_inv [OF r1(1) pop] spsc.pop_items [OF r1(1) pop] r1 by simp_all
  have "encode_bbo_sbe b (sink_buf s) = Inr (TOTAL_SBE_BBO_LEN, bbo_wire b)"
    using bbo_codec.encode_wire [of "sink_buf s" b] buf by simp
  then show "sink_ok k (sink_handle took (EvBbo b) s)" "sink_buf (sink_handle took (EvBbo b) s) = bbo_wire b"
    using r2 bbo_codec.length_wire [of b] by (simp_all add: Let_def push pop sink_ok_def)
qed

lemma sink_handle_trade: "sink_ok (Suc k) s \<Longrightarrow> sink_ok k (sink_handle took (EvTrade t) s)"
  using ring_inv_mono [of "Suc k" "sink_ring s" k] by (simp add: sink_ok_def)

text \<open>The buffer after each quote of a list of handled events.\<close>

fun sink_frames :: "Sink \<Rightarrow> (u64 \<times> Event) list \<Rightarrow> bytes list" where
  "sink_frames s [] = []"
| "sink_frames s ((took, ev) # evs) =
     (let s' = sink_handle took ev s
      in (case ev of EvBbo _ \<Rightarrow> [sink_buf s'] | EvTrade _ \<Rightarrow> []) @ sink_frames s' evs)"

definition event_quotes :: "Event list \<Rightarrow> NormalizedBbo list" where
  "event_quotes evs = List.map_filter (\<lambda>e. case e of EvBbo b \<Rightarrow> Some b | EvTrade _ \<Rightarrow> None) evs"

lemma sink_frames_eq:
  "sink_ok (length evs) s \<Longrightarrow> sink_frames s evs = map bbo_wire (event_quotes (map snd evs)) \<and>
     sink_bbos (fold (\<lambda>(took, ev). sink_handle took ev) evs s) = sink_bbos s + of_nat (length (event_quotes (map snd evs))) \<and>
     sink_trades (fold (\<lambda>(took, ev). sink_handle took ev) evs s) = sink_trades s + of_nat (length (event_trades (map snd evs)))"
proof (induction evs arbitrary: s)
  case (Cons e evs)
  obtain took ev where e: "e = (took, ev)" by (cases e)
  show ?case
  proof (cases ev)
    case (EvBbo b)
    have step: "sink_ok (length evs) (sink_handle took (EvBbo b) s)" "sink_buf (sink_handle took (EvBbo b) s) = bbo_wire b"
      using sink_handle_bbo [of "length evs" s took b] Cons.prems by simp_all
    have "sink_bbos (sink_handle took (EvBbo b) s) = sink_bbos s + 1" "sink_trades (sink_handle took (EvBbo b) s) = sink_trades s"
      by (simp_all add: Let_def split: prod.splits)
    then show ?thesis using Cons.IH [OF step(1)] step(2)
      by (simp add: e EvBbo event_quotes_def event_trades_def map_filter_simps Let_def del: sink_handle.simps)
  next
    case (EvTrade t)
    have "sink_ok (length evs) (sink_handle took (EvTrade t) s)" using sink_handle_trade Cons.prems by simp
    from Cons.IH [OF this] show ?thesis
      by (simp add: e EvTrade event_quotes_def event_trades_def map_filter_simps Let_def)
  qed
qed (simp add: event_quotes_def event_trades_def map_filter_simps)

lemma sink_new_ok: "sink_new = Ret s \<Longrightarrow> k + 1024 < 2 ^ 64 \<Longrightarrow> sink_ok k s \<and> sink_bbos s = 0 \<and> sink_trades s = 0"
proof -
  assume "sink_new = Ret s" and k: "k + 1024 < 2 ^ 64"
  then obtain ring where r: "spsc_new 1024 bbo_default = Ret ring"
    and s: "s = \<lparr>sink_ring = ring, sink_buf = replicate TOTAL_SBE_BBO_LEN 0, sink_bbos = 0, sink_trades = 0,
          process_ns = [], exchange_to_local_ns = []\<rparr>"
    by (cases "spsc_new 1024 bbo_default") (auto simp: sink_new_def)
  have hold: "ring_holds ring [] 0" and n: "length (ring_buffer ring) = 1024"
    using sys_inv_init [OF r] by (simp_all add: sys_inv_def sys_init_def)
  have "ring_inv k ring" unfolding ring_inv_def
    using k by (intro exI [of _ "[]"]) (simp add: ring_holds_tail [OF hold] hold n)
  then show ?thesis using ring_items_hist [OF hold] n by (simp add: s sink_ok_def)
qed

section \<open>The runner follows the session\<close>

definition runner_new :: "bytes list \<Rightarrow> u64 \<Rightarrow> Sink \<Rightarrow> Runner" where
  "runner_new names stale_ms sink = \<lparr>rn_session = feed_new names stale_ms, rn_sink = sink, rn_sent = [],
     rn_got_message = False, rn_sends = []\<rparr>"

abbreviation handle_all :: "(u64 \<times> Event) list \<Rightarrow> Sink \<Rightarrow> Sink" where
  "handle_all handled \<equiv> fold (\<lambda>(took, ev). sink_handle took ev) handled"

definition tracks :: "Session \<Rightarrow> Sink \<Rightarrow> Runner \<Rightarrow> bool" where
  "tracks s0 sink0 r \<longleftrightarrow> (\<exists>inputs handled acts. feed_run s0 inputs = (rn_session r, map snd handled, acts) \<and>
     rn_sink r = handle_all handled sink0)"

lemma tracks_cong: "rn_session r' = rn_session r \<Longrightarrow> rn_sink r' = rn_sink r \<Longrightarrow> tracks s0 sink0 r \<Longrightarrow> tracks s0 sink0 r'"
  by (simp add: tracks_def)

lemma tracks_session:
  assumes t: "tracks s0 sink0 r" and step: "\<And>out acts. \<exists>acts'. feed_step (rn_session r, out, acts) inp = (s', out, acts')"
  shows "tracks s0 sink0 (r\<lparr>rn_session := s'\<rparr>)"
proof -
  obtain inputs handled acts where i: "feed_run s0 inputs = (rn_session r, map snd handled, acts)"
    "rn_sink r = handle_all handled sink0" using t by (auto simp: tracks_def)
  obtain acts' where "feed_run s0 (inputs @ [inp]) = (s', map snd handled, acts')"
    using step [of "map snd handled" acts] by (auto simp: feed_run_snoc i(1))
  then show ?thesis using i(2) by (auto simp: tracks_def)
qed

lemma tracks_noted: "tracks s0 sink0 r \<Longrightarrow> tracks s0 sink0 (r\<lparr>rn_session := note_action_taken (rn_session r) a\<rparr>)"
  by (erule tracks_session [where inp = "Noted a"]) (simp add: feed_step_def)

lemma tracks_connected: "tracks s0 sink0 r \<Longrightarrow> tracks s0 sink0 (r\<lparr>rn_session := on_connected (rn_session r) now\<rparr>)"
  by (erule tracks_session [where inp = "Connected now"]) (simp add: feed_step_def)

lemma tracks_message:
  assumes t: "tracks s0 sink0 r" and m: "on_message (rn_session r) msg wall now = (s', evs, a)"
  shows "tracks s0 sink0 (r\<lparr>rn_session := s', rn_sink := fold (sink_handle took) evs (rn_sink r)\<rparr>)"
proof -
  obtain inputs handled acts where i: "feed_run s0 inputs = (rn_session r, map snd handled, acts)"
    "rn_sink r = handle_all handled sink0" using t by (auto simp: tracks_def)
  let ?handled = "handled @ map (Pair took) evs"
  have run: "feed_run s0 (inputs @ [Message msg wall now]) = (s', map snd ?handled, acts @ (case a of None \<Rightarrow> [] | Some x \<Rightarrow> [x]))"
    by (simp add: feed_run_snoc i(1) feed_step_def m comp_def)
  have sink: "fold (sink_handle took) evs (rn_sink r) = handle_all ?handled sink0"
    using i(2) by (simp add: fold_map comp_def)
  have "rn_session (r\<lparr>rn_session := s', rn_sink := fold (sink_handle took) evs (rn_sink r)\<rparr>) = s'"
    "rn_sink (r\<lparr>rn_session := s', rn_sink := fold (sink_handle took) evs (rn_sink r)\<rparr>) = handle_all ?handled sink0"
    using sink by simp_all
  with run show ?thesis unfolding tracks_def by metis
qed

lemma ws_send_fields: "ws_send m r = (r', ok) \<Longrightarrow> rn_session r' = rn_session r \<and> rn_sink r' = rn_sink r"
  by (auto simp: ws_send_def split: list.splits bool.splits)

lemma ws_send_tracks: "ws_send m r = (r', ok) \<Longrightarrow> tracks s0 sink0 r \<Longrightarrow> tracks s0 sink0 r'"
  using ws_send_fields [of m r r' ok] tracks_cong [of r' r] by blast

lemma handle_text_tracks:
  assumes t: "tracks s0 sink0 r" and h: "handle_text prods msg wall now took r = (r', res)"
  shows "tracks s0 sink0 r'"
proof -
  let ?r = "r\<lparr>rn_got_message := True\<rparr>"
  obtain s' evs a where m: "on_message (rn_session r) msg wall now = (s', evs, a)" by (cases "on_message (rn_session r) msg wall now")
  let ?r1 = "?r\<lparr>rn_session := s', rn_sink := fold (sink_handle took) evs (rn_sink r)\<rparr>"
  have "tracks s0 sink0 ?r" using t by (rule tracks_cong [rotated 2]) simp_all
  then have r1: "tracks s0 sink0 ?r1" using tracks_message [of s0 sink0 ?r msg wall now s' evs a took] m by simp
  have noted: "tracks s0 sink0 (?r1\<lparr>rn_session := note_action_taken s' act\<rparr>)" for act
    using tracks_noted [OF r1, of act] by simp
  show ?thesis
  proof (cases a)
    case None
    then show ?thesis using h r1 by (simp add: handle_text_def m)
  next
    case (Some act)
    show ?thesis
    proof (cases act)
      case (Reconnect why)
      then show ?thesis using h noted [of act] Some by (auto simp: handle_text_def m)
    next
      case (Resubscribe why)
      let ?r2 = "?r1\<lparr>rn_session := note_action_taken s' act\<rparr>"
      obtain r3 ok3 where s3: "ws_send (SendText (sub_msg (bstr ''unsubscribe'') prods)) ?r2 = (r3, ok3)"
        by (cases "ws_send (SendText (sub_msg (bstr ''unsubscribe'') prods)) ?r2")
      obtain r4 ok4 where s4: "ws_send (SendText (sub_msg (bstr ''subscribe'') prods)) r3 = (r4, ok4)"
        by (cases "ws_send (SendText (sub_msg (bstr ''subscribe'') prods)) r3")
      have "tracks s0 sink0 r3" by (rule ws_send_tracks [OF s3 noted])
      moreover from this have "tracks s0 sink0 r4" by (rule ws_send_tracks [OF s4])
      moreover have "r' = (if ok3 then r4 else r3)"
        using h s3 s4 Some Resubscribe by (auto simp: handle_text_def m Let_def split: if_splits)
      ultimately show ?thesis by simp
    qed
  qed
qed

lemma connection_step_tracks:
  assumes "tracks s0 sink0 r" "connection_step prods ev r = (r', res)"
  shows "tracks s0 sink0 r'"
proof (cases ev)
  case (TickElapsed now)
  then show ?thesis using assms tracks_noted [OF assms(1)] by (auto simp: Let_def split: option.splits)
next
  case (TextMsg msg wall now took)
  then show ?thesis using assms handle_text_tracks by simp
next
  case (PingMsg p)
  then show ?thesis using assms ws_send_tracks [of "SendPong p" r] by (auto split: prod.splits)
qed (use assms in simp_all)

lemma connection_loop_tracks: "tracks s0 sink0 r \<Longrightarrow> tracks s0 sink0 (fst (connection_loop prods evs r))"
proof (induction evs arbitrary: r)
  case (Cons ev evs)
  obtain r1 res where s: "connection_step prods ev r = (r1, res)" by (cases "connection_step prods ev r")
  then have "tracks s0 sink0 r1" by (rule connection_step_tracks [OF Cons.prems])
  with Cons.IH [OF this] show ?case by (cases res) (simp_all add: s)
qed simp

lemma run_connection_tracks:
  assumes t: "tracks s0 sink0 r"
  shows "tracks s0 sink0 (fst (run_connection prods connect_error now evs r))"
proof (cases connect_error)
  case None
  let ?r = "r\<lparr>rn_session := on_connected (rn_session r) now\<rparr>"
  obtain r1 ok where s: "ws_send (SendText (sub_msg (bstr ''subscribe'') prods)) ?r = (r1, ok)"
    by (cases "ws_send (SendText (sub_msg (bstr ''subscribe'') prods)) ?r")
  have "tracks s0 sink0 r1" by (rule ws_send_tracks [OF s tracks_connected [OF t]])
  then show ?thesis using connection_loop_tracks [of s0 sink0 r1] by (simp add: run_connection_def None s Let_def)
qed (simp add: run_connection_def t)

lemma main_loop_tracks: "tracks s0 sink0 r \<Longrightarrow> tracks s0 sink0 (fst (main_loop prods deadline backoff conns r))"
proof (induction conns arbitrary: backoff r)
  case (Cons c conns)
  obtain ce ms evs now where c: "c = (ce, ms, evs, now)" by (metis prod_cases4)
  obtain r1 res where rc: "run_connection prods ce ms evs (r\<lparr>rn_got_message := False\<rparr>) = (r1, res)" by fastforce
  have "tracks s0 sink0 (r\<lparr>rn_got_message := False\<rparr>)" using Cons.prems by (simp add: tracks_def)
  from run_connection_tracks [OF this, of prods ce ms evs] have "tracks s0 sink0 r1" by (simp add: rc)
  then show ?case using Cons.IH by (simp add: c rc Let_def case_prod_beta split: option.split) auto
qed simp

lemma runner_new_tracks: "tracks (feed_new names stale_ms) sink (runner_new names stale_ms sink)"
  unfolding tracks_def runner_new_def feed_run_def
  by (intro exI [of _ "[]"]) simp

end
