(* ===== verification/Hardware_Probe.thy ===== *)
theory Hardware_Probe
  imports Topology Byte_Scan
begin

text \<open>
  The hardware probe of a Linux host, \<open>SystemHardwareProbe\<close> of
  \<open>src/crates/core-engine/src/topology/mod.rs\<close>. What the host answers (which paths exist, the texts of
  files, the names in a directory, whether the scheduling class can be changed) is the record
  \<open>linux_host\<close>; the files of \<open>/proc\<close>, \<open>/sys\<close> and of the firmware are ASCII. The macOS branches call
  \<open>sysctl\<close> and are not compiled on Linux.
\<close>

section \<open>Texts\<close>

text \<open>What the probe uses of \<open>str\<close>: ASCII whitespace, lower case, lines, fields and numbers.\<close>

definition is_space :: "u8 \<Rightarrow> bool" where
  "is_space b \<longleftrightarrow> (9 \<le> b \<and> b \<le> 13) \<or> b = 32"

definition str_trim :: "bytes \<Rightarrow> bytes" where
  "str_trim s = rev (dropWhile is_space (rev (dropWhile is_space s)))"

definition str_lower :: "bytes \<Rightarrow> bytes" where
  "str_lower = map (\<lambda>b. if 65 \<le> b \<and> b \<le> 90 then b + 32 else b)"

fun split_by :: "(u8 \<Rightarrow> bool) \<Rightarrow> bytes \<Rightarrow> bytes list" where
  "split_by P [] = [[]]"
| "split_by P (b # bs) =
     (if P b then [] # split_by P bs
      else case split_by P bs of part # parts \<Rightarrow> (b # part) # parts | [] \<Rightarrow> [[b]])"

text \<open>\<open>lines\<close> drops the line feed of a line and a carriage return before it; there is no line after the
  last line feed.\<close>

definition strip_cr :: "bytes \<Rightarrow> bytes" where
  "strip_cr l = (if l \<noteq> [] \<and> last l = 13 then butlast l else l)"

definition str_lines :: "bytes \<Rightarrow> bytes list" where
  "str_lines s = (let parts = split_by (\<lambda>b. b = 10) s
      in map strip_cr (butlast parts) @ (if last parts = [] then [] else [last parts]))"

definition split_whitespace :: "bytes \<Rightarrow> bytes list" where
  "split_whitespace s = filter (\<lambda>p. p \<noteq> []) (split_by is_space s)"

text \<open>\<open>parse\<close> of an unsigned 64-bit number: an optional plus sign and digits that fit.\<close>

definition parse_unsigned :: "bytes \<Rightarrow> nat option" where
  "parse_unsigned s =
     (let ds = (case s of b # rest \<Rightarrow> if b = 43 then rest else s | [] \<Rightarrow> [])
      in if ds = [] \<or> \<not> list_all is_ascii_digit ds then None
         else let v = foldl (\<lambda>r b. 10 * r + unat (b - 48)) 0 ds in if v < 2 ^ 64 then Some v else None)"

section \<open>The probe\<close>

record linux_host =
  path_exists :: "string \<Rightarrow> bool"
  read_file :: "string \<Rightarrow> bytes option"
  read_dir :: "string \<Rightarrow> bytes list option"
  sched_fifo_allowed :: bool

definition product_hypervisor :: "bytes \<Rightarrow> HypervisorKind option" where
  "product_hypervisor product =
     (let p = str_lower (str_trim product); has = (\<lambda>pat. str_contains (bstr pat) p)
      in if has ''amazon ec2'' \<or> has ''nitro'' then Some AwsNitro
         else if has ''google'' \<or> has ''compute engine'' then Some GcpCompute
         else if has ''kvm'' \<or> has ''qemu'' then Some Kvm
         else if has ''vmware'' then Some (HvUnknown ''VMware'')
         else if has ''hyper-v'' \<or> has ''virtual machine'' then Some HyperV
         else None)"

definition vendor_hypervisor :: "bytes \<Rightarrow> HypervisorKind option" where
  "vendor_hypervisor vendor =
     (let v = str_lower (str_trim vendor); has = (\<lambda>pat. str_contains (bstr pat) v)
      in if has ''amazon'' then Some AwsNitro
         else if has ''google'' then Some GcpCompute
         else if has ''qemu'' then Some Kvm
         else if has ''xen'' then Some Xen
         else None)"

definition detect_hypervisor :: "linux_host \<Rightarrow> HypervisorKind" where
  "detect_hypervisor h =
     (if path_exists h ''/.dockerenv'' \<or> path_exists h ''/run/.containerenv'' then DockerContainer
      else case Option.bind (read_file h ''/sys/class/dmi/id/product_name'') product_hypervisor of
        Some kind \<Rightarrow> kind
      | None \<Rightarrow>
          (case Option.bind (read_file h ''/sys/class/dmi/id/sys_vendor'') vendor_hypervisor of
             Some kind \<Rightarrow> kind
           | None \<Rightarrow>
               (case read_file h ''/proc/cpuinfo'' of
                  Some cpuinfo \<Rightarrow> if str_contains (bstr ''hypervisor'') cpuinfo then Kvm else HvNone
                | None \<Rightarrow> HvNone)))"

definition count_logical :: "linux_host \<Rightarrow> nat" where
  "count_logical h =
     (case read_file h ''/proc/cpuinfo'' of
        Some cpuinfo \<Rightarrow>
          let count = length (filter (\<lambda>l. starts_with l (bstr ''processor'')) (str_lines cpuinfo))
          in if count > 0 then count else 4
      | None \<Rightarrow> 4)"

definition count_nodes :: "linux_host \<Rightarrow> nat" where
  "count_nodes h =
     (case read_dir h ''/sys/devices/system/node'' of
        Some entries \<Rightarrow>
          let count = length (filter (\<lambda>e. starts_with e (bstr ''node'')) entries)
          in if count > 0 then count else 1
      | None \<Rightarrow> 1)"

text \<open>The core ids of the lines that carry one, without duplicates.\<close>

definition core_ids :: "bytes list \<Rightarrow> bytes list" where
  "core_ids ls = remdups (List.map_filter
     (\<lambda>line. if starts_with line (bstr ''core id'')
             then (case split_by (\<lambda>b. b = 58) line of _ # field # _ \<Rightarrow> Some (str_trim field) | _ \<Rightarrow> None)
             else None) ls)"

definition detect_cpu_topology :: "linux_host \<Rightarrow> CpuTopology" where
  "detect_cpu_topology h =
     (let logical_cores = count_logical h;
          numa_nodes = count_nodes h;
          (has_invariant_tsc, physical_cores) =
            (case read_file h ''/proc/cpuinfo'' of
               Some cpuinfo \<Rightarrow>
                 (str_contains (bstr ''constant_tsc'') cpuinfo \<and> str_contains (bstr ''nonstop_tsc'') cpuinfo,
                  let ids = core_ids (str_lines cpuinfo)
                  in if ids \<noteq> [] then length ids * max numa_nodes 1 else logical_cores)
             | None \<Rightarrow> (False, logical_cores))
      in \<lparr>total_logical_cores = logical_cores, total_physical_cores = max physical_cores 1,
          numa_nodes = max numa_nodes 1, is_hybrid = False, performance_cores = [0..<logical_cores],
          efficiency_cores = [], l1d_cache_bytes = 32 * 1024, l2_cache_bytes = 512 * 1024,
          l3_cache_bytes = 16 * 1024 * 1024, has_invariant_tsc = has_invariant_tsc\<rparr>)"

definition detect_capabilities :: "linux_host \<Rightarrow> EnvironmentCapabilities" where
  "detect_capabilities h =
     (let caps = caps_default;
          caps = (case read_file h ''/sys/fs/cgroup/cpu.max'' of
                    Some quota_str \<Rightarrow>
                      (case split_whitespace quota_str of
                         [quota, period] \<Rightarrow>
                           if quota \<noteq> bstr ''max''
                           then caps\<lparr>cgroup_cpu_quota_us := map_option of_nat (parse_unsigned quota),
                                     cgroup_cpu_period_us := map_option of_nat (parse_unsigned period)\<rparr>
                           else caps
                       | _ \<Rightarrow> caps)
                  | None \<Rightarrow> caps);
          caps = (if path_exists h ''/sys/kernel/mm/hugepages/hugepages-2048kB''
                  then case read_file h ''/sys/kernel/mm/hugepages/hugepages-2048kB/nr_hugepages'' of
                         Some nr \<Rightarrow>
                           (case parse_unsigned (str_trim nr) of
                              Some count \<Rightarrow> if count > 0 then caps\<lparr>has_hugetlb := True\<rparr> else caps
                            | None \<Rightarrow> caps)
                       | None \<Rightarrow> caps
                  else caps)
      in if sched_fifo_allowed h then caps\<lparr>has_sched_fifo := True\<rparr> else caps)"

definition system_probe :: "linux_host \<Rightarrow> MockHardwareProbe" where
  "system_probe h = \<lparr>mock_hypervisor = detect_hypervisor h, mock_cpu = detect_cpu_topology h,
     mock_caps = detect_capabilities h\<rparr>"

section \<open>Reading texts that were printed\<close>

lemma split_by_not_Nil [simp]: "split_by P s \<noteq> []"
  by (induction s) (auto split: list.splits)

lemma split_by_none: "\<forall>b \<in> set s. \<not> P b \<Longrightarrow> split_by P s = [s]"
  by (induction s) auto

lemma split_by_field: "\<forall>b \<in> set s. \<not> P b \<Longrightarrow> P c \<Longrightarrow> split_by P (s @ c # rest) = s # split_by P rest"
  by (induction s) auto

definition unlines :: "bytes list \<Rightarrow> bytes" where
  "unlines ls = concat (map (\<lambda>l. l @ [10]) ls)"

definition clean_line :: "bytes \<Rightarrow> bool" where
  "clean_line l \<longleftrightarrow> 10 \<notin> set l \<and> 13 \<notin> set l"

lemma str_lines_unlines:
  assumes "\<forall>l \<in> set ls. clean_line l"
  shows "str_lines (unlines ls) = ls"
proof -
  have "split_by (\<lambda>b. b = 10) (unlines ls) = ls @ [[]]" using assms
  proof (induction ls)
    case (Cons l ls)
    then have "\<forall>b \<in> set l. b \<noteq> 10" by (auto simp: clean_line_def)
    from split_by_field [OF this refl, of "unlines ls"] Cons show ?case by (simp add: unlines_def)
  qed (simp add: unlines_def)
  moreover have "map strip_cr ls = ls" using assms
    by (intro map_idI) (metis strip_cr_def clean_line_def last_in_set)
  ultimately show ?thesis by (simp add: str_lines_def)
qed

lemma dec_byte: "b \<in> set (dec n) \<Longrightarrow> 48 \<le> b \<and> b \<le> 57"
  using dec_bytes [of n] by (auto simp: list_all_iff)

lemma dec_plain:
  assumes "b \<in> set (dec n)"
  shows "\<not> is_space b \<and> b \<noteq> 58 \<and> b \<noteq> 10 \<and> b \<noteq> 13 \<and> b \<noteq> 43"
  using dec_byte [OF assms] by (auto simp: is_space_def word_le_nat_alt)

lemma dec_not_empty: "dec n \<noteq> []"
  using length_dec_pos [of n] by auto

lemma dec_inj: "dec m = dec n \<longleftrightarrow> m = n"
proof
  assume e: "dec m = dec n"
  obtain ds es where ds: "dec m = ascii ds" "digits ds" "value_of ds = m" and es: "dec n = ascii es" "digits es" "value_of es = n"
    using dec_ascii by metis
  have "inj_on (\<lambda>d. 48 + of_nat d :: u8) {..<10}"
  proof (rule inj_onI)
    fix a b :: nat assume "a \<in> {..<10}" "b \<in> {..<10}" "(48 + of_nat a :: u8) = 48 + of_nat b"
    then have "(of_nat a :: u8) = of_nat b" "a < 2 ^ LENGTH(8)" "b < 2 ^ LENGTH(8)" by simp_all
    then show "a = b" by (metis unat_of_nat_small)
  qed
  moreover have "set ds \<subseteq> {..<10}" "set es \<subseteq> {..<10}" using ds(2) es(2) by (auto simp: digits_def list_all_iff)
  ultimately have "ds = es" using e ds(1) es(1)
    by (simp add: ascii_def inj_on_map_eq_map inj_on_subset)
  then show "m = n" using ds(3) es(3) by simp
qed simp

lemma str_trim_dec: "str_trim (32 # dec n) = dec n"
proof -
  have n: "dropWhile is_space (dec n) = dec n" "dropWhile is_space (rev (dec n)) = rev (dec n)"
    using dec_plain [OF hd_in_set [OF dec_not_empty]] dec_plain [OF last_in_set [OF dec_not_empty]]
    by (simp_all add: dropWhile_eq_self_iff hd_rev)
  then show ?thesis by (simp add: str_trim_def is_space_def n)
qed

lemma split_whitespace_pair: "split_whitespace (dec q @ [32] @ dec p @ [10]) = [dec q, dec p]"
proof -
  have q: "\<forall>b \<in> set (dec q). \<not> is_space b" and p: "\<forall>b \<in> set (dec p). \<not> is_space b" using dec_plain by auto
  have sp: "is_space 32" "is_space 10" by (simp_all add: is_space_def)
  show ?thesis using split_by_field [OF q sp(1), of "dec p @ [10]"] split_by_field [OF p sp(2), of "[]"] dec_not_empty
    by (simp add: split_whitespace_def)
qed

lemma parse_unsigned_dec:
  assumes "n < 2 ^ 64"
  shows "parse_unsigned (dec n) = Some n"
proof -
  obtain ds where ds: "dec n = ascii ds" "digits ds" "value_of ds = n" using dec_ascii by blast
  have "foldl (\<lambda>r b. 10 * r + unat (b - 48)) 0 (ascii ds) = value_of ds" using ds(2)
  proof (induction ds rule: rev_induct)
    case (snoc d ds)
    have "unat (of_nat d :: u8) = d" using snoc.prems by (intro unat_of_nat_small) simp
    then show ?case using snoc by (simp add: ascii_def)
  qed (simp add: value_of_def)
  then have v: "foldl (\<lambda>r b. 10 * r + unat (b - 48)) 0 (dec n) = n" using ds by simp
  have "(case dec n of [] \<Rightarrow> [] | b # rest \<Rightarrow> if b = 43 then rest else dec n) = dec n"
    using dec_plain [OF hd_in_set [OF dec_not_empty], of n] by (cases "dec n") simp_all
  moreover have "list_all is_ascii_digit (dec n)" using dec_byte by (auto simp: list_all_iff is_ascii_digit_def)
  ultimately show ?thesis using v assms by (simp add: parse_unsigned_def dec_not_empty)
qed

text \<open>The part of \<open>/proc/cpuinfo\<close> that matters, for processors with the given core ids.\<close>

fun cpu_lines :: "nat \<Rightarrow> nat list \<Rightarrow> bytes list" where
  "cpu_lines i [] = []"
| "cpu_lines i (c # cs) =
     (bstr ''processor'' @ [9, 58, 32] @ dec i) # (bstr ''vendor_id'' @ [9, 58, 32] @ bstr ''GenuineIntel'') #
     (bstr ''core id'' @ [9, 9, 58, 32] @ dec c) # [] # cpu_lines (Suc i) cs"

lemma cpu_lines_clean: "l \<in> set (cpu_lines i cs) \<Longrightarrow> clean_line l"
  by (induction i cs rule: cpu_lines.induct) (auto simp: clean_line_def bstr_def dest: dec_plain)

lemma cpu_lines_processors: "length (filter (\<lambda>l. starts_with l (bstr ''processor'')) (cpu_lines i cs)) = length cs"
  by (induction i cs rule: cpu_lines.induct) (simp_all add: starts_with_def bstr_def)

definition core_field :: "bytes \<Rightarrow> bytes option" where
  "core_field line = (if starts_with line (bstr ''core id'')
     then (case split_by (\<lambda>b. b = 58) line of _ # field # _ \<Rightarrow> Some (str_trim field) | _ \<Rightarrow> None) else None)"

lemma core_field_line: "core_field (bstr ''core id'' @ [9, 9, 58, 32] @ dec c) = Some (dec c)"
proof -
  have "\<forall>b \<in> set (bstr ''core id'' @ [9, 9]). b \<noteq> 58" by (simp add: bstr_def)
  note s = split_by_field [OF this refl, of "32 # dec c"]
  have "\<forall>b \<in> set (32 # dec c). b \<noteq> 58" using dec_plain by auto
  from split_by_none [of _ "\<lambda>b. b = 58", OF this] s
  have "split_by (\<lambda>b. b = 58) (bstr ''core id'' @ [9, 9, 58, 32] @ dec c) = [bstr ''core id'' @ [9, 9], 32 # dec c]" by simp
  then show ?thesis by (simp add: core_field_def starts_with_def str_trim_dec)
qed

lemma cpu_lines_core_ids: "core_ids (cpu_lines i cs) = remdups (map dec cs)"
proof -
  have n: "core_field (bstr ''processor'' @ r) = None" "core_field (bstr ''vendor_id'' @ r) = None" "core_field [] = None" for r
    by (simp_all add: core_field_def starts_with_def bstr_def)
  have "List.map_filter core_field (cpu_lines i cs) = map dec cs"
    by (induction i cs rule: cpu_lines.induct) (simp_all only: cpu_lines.simps map_filter_simps n core_field_line option.case list.map)
  then show ?thesis by (simp add: core_ids_def core_field_def [abs_def])
qed

lemma count_nodes_pos: "0 < count_nodes h"
  by (simp add: count_nodes_def Let_def split: option.splits)

lemma ls_cores:
  assumes "read_file h ''/proc/cpuinfo'' = Some (unlines (cpu_lines 0 cs))" and "cs \<noteq> []"
  shows "total_logical_cores (detect_cpu_topology h) = length cs \<and>
    performance_cores (detect_cpu_topology h) = [0..<length cs] \<and>
    total_physical_cores (detect_cpu_topology h) = card (set cs) * count_nodes h \<and>
    numa_nodes (detect_cpu_topology h) = count_nodes h"
proof -
  have ls: "str_lines (unlines (cpu_lines 0 cs)) = cpu_lines 0 cs" using cpu_lines_clean by (intro str_lines_unlines) blast
  have "inj dec" by (simp add: inj_def dec_inj)
  then have "length (remdups (map dec cs)) = card (set cs)"
    by (simp add: length_remdups_card_conv card_image inj_on_subset)
  moreover have "1 \<le> card (set cs) * count_nodes h" "1 \<le> count_nodes h"
    using assms(2) count_nodes_pos [of h] by (simp_all add: Suc_le_eq card_gt_0_iff)
  ultimately show ?thesis using assms
    by (simp add: detect_cpu_topology_def count_logical_def ls cpu_lines_processors cpu_lines_core_ids Let_def max_absorb1)
qed

section \<open>Properties\<close>

text \<open>The probe counts processors: on a host whose \<open>/proc/cpuinfo\<close> lists processors with the core ids
  \<open>cs\<close>, it reports as many logical cores as there are entries, numbers them from zero, and reports as
  physical cores the number of different core ids times the number of NUMA nodes.\<close>

theorem probe_counts_processors:
  assumes "read_file h ''/proc/cpuinfo'' = Some (unlines (cpu_lines 0 cs))" and "cs \<noteq> []"
  shows "total_logical_cores (detect_cpu_topology h) = length cs \<and>
    performance_cores (detect_cpu_topology h) = [0..<length cs] \<and>
    total_physical_cores (detect_cpu_topology h) = card (set cs) * count_nodes h \<and>
    numa_nodes (detect_cpu_topology h) = count_nodes h"
  by (rule ls_cores [OF assms])

definition demo_host :: linux_host where
  "demo_host = \<lparr>path_exists = (\<lambda>_. False),
     read_file = (\<lambda>path. if path = ''/proc/cpuinfo'' then Some (unlines (cpu_lines 0 [0, 0, 1, 1]))
        else if path = ''/sys/fs/cgroup/cpu.max'' then Some (dec 150000 @ [32] @ dec 100000 @ [10]) else None),
     read_dir = (\<lambda>_. Some [bstr ''node0'', bstr ''node1'', bstr ''online'']), sched_fifo_allowed = False\<rparr>"

theorem probe_counts_processors_witness:
  "total_logical_cores (detect_cpu_topology demo_host) = 4 \<and> total_physical_cores (detect_cpu_topology demo_host) = 4"
proof -
  have n: "count_nodes demo_host = 2" by (simp add: count_nodes_def demo_host_def starts_with_def bstr_def)
  have "read_file demo_host ''/proc/cpuinfo'' = Some (unlines (cpu_lines 0 [0, 0, 1, 1]))" by (simp add: demo_host_def)
  from probe_counts_processors [OF this] show ?thesis by (simp add: n)
qed

text \<open>The two fields of the quota, which the later probes leave alone.\<close>

definition quota_fields :: "bytes option \<Rightarrow> (bytes \<times> bytes) option" where
  "quota_fields f = (case f of
     Some s \<Rightarrow> (case split_whitespace s of [quota, period] \<Rightarrow> if quota \<noteq> bstr ''max'' then Some (quota, period) else None | _ \<Rightarrow> None)
   | None \<Rightarrow> None)"

lemma detect_quota:
  "cgroup_cpu_quota_us (detect_capabilities h) = (case quota_fields (read_file h ''/sys/fs/cgroup/cpu.max'') of
     Some (quota, period) \<Rightarrow> map_option of_nat (parse_unsigned quota) | None \<Rightarrow> None)"
  "cgroup_cpu_period_us (detect_capabilities h) = (case quota_fields (read_file h ''/sys/fs/cgroup/cpu.max'') of
     Some (quota, period) \<Rightarrow> map_option of_nat (parse_unsigned period) | None \<Rightarrow> None)"
  by (simp_all add: detect_capabilities_def quota_fields_def caps_default_def Let_def split: option.split list.split)

lemma dec_not_max: "dec n \<noteq> bstr ''max''"
  using dec_byte [of 109 n] by (auto simp: bstr_def)

lemma quota_fields_pair: "quota_fields (Some (dec q @ [32] @ dec p @ [10])) = Some (dec q, dec p)"
  using split_whitespace_pair [of q p] by (simp add: quota_fields_def dec_not_max)

lemma quota_fields_max: "quota_fields (Some (bstr ''max '' @ dec p @ [10])) = None"
proof -
  have sp: "is_space 32" "is_space 10" "\<forall>b \<in> set (bstr ''max''). \<not> is_space b" by (simp_all add: is_space_def bstr_def)
  have "\<forall>b \<in> set (dec p). \<not> is_space b" using dec_plain by blast
  from split_by_field [OF this sp(2), of "[]"] split_by_field [OF sp(3,1), of "dec p @ [10]"]
  have "split_whitespace (bstr ''max'' @ [32] @ dec p @ [10]) = [bstr ''max'', dec p]"
    by (simp add: split_whitespace_def dec_not_empty) (simp add: bstr_def)
  then show ?thesis by (simp add: quota_fields_def bstr_def)
qed

text \<open>A CPU quota of the control group is read exactly, and a host that has one is never given the tier of a
  developer machine by detection; the quota \<open>max\<close> is no quota.\<close>

theorem probe_reads_quota:
  assumes "q < 2 ^ 64" and "p < 2 ^ 64" and "env_override env = None"
  shows "(read_file h ''/sys/fs/cgroup/cpu.max'' = Some (dec q @ [32] @ dec p @ [10]) \<longrightarrow>
      cgroup_cpu_quota_us (detect_capabilities h) = Some (of_nat q) \<and>
      cgroup_cpu_period_us (detect_capabilities h) = Some (of_nat p) \<and>
      profile_tier (negotiate_profile env (system_probe h) None) \<noteq> Tier1MidRange) \<and>
    (read_file h ''/sys/fs/cgroup/cpu.max'' = Some (bstr ''max '' @ dec p @ [10]) \<longrightarrow>
      cgroup_cpu_quota_us (detect_capabilities h) = None)"
proof (intro conjI impI)
  assume f: "read_file h ''/sys/fs/cgroup/cpu.max'' = Some (dec q @ [32] @ dec p @ [10])"
  show q: "cgroup_cpu_quota_us (detect_capabilities h) = Some (of_nat q)"
    and "cgroup_cpu_period_us (detect_capabilities h) = Some (of_nat p)"
    unfolding detect_quota f quota_fields_pair using assms by (simp_all add: parse_unsigned_dec)
  show "profile_tier (negotiate_profile env (system_probe h) None) \<noteq> Tier1MidRange"
    using q assms(3) by (simp add: negotiate_profile_def auto_tier_def system_probe_def Let_def)
next
  assume f: "read_file h ''/sys/fs/cgroup/cpu.max'' = Some (bstr ''max '' @ dec p @ [10])"
  show "cgroup_cpu_quota_us (detect_capabilities h) = None" unfolding detect_quota f quota_fields_max by simp
qed

theorem probe_reads_quota_witness:
  "cgroup_cpu_quota_us (detect_capabilities demo_host) = Some 150000 \<and>
   profile_tier (negotiate_profile (\<lambda>_. None) (system_probe demo_host) None) \<noteq> Tier1MidRange"
  using probe_reads_quota [of 150000 100000 "\<lambda>_. None" demo_host] by (simp add: demo_host_def env_override_def)

text \<open>On a single socket with two NUMA nodes the core ids are different already, and the product counts twice as
  many physical as logical cores. Sixteen physical cores are what the bare-metal tier asks for, so eight such cores
  are enough.\<close>

definition two_node_host :: linux_host where
  "two_node_host = \<lparr>path_exists = (\<lambda>_. True)(''/.dockerenv'' := False, ''/run/.containerenv'' := False),
     read_file = (\<lambda>path. if path = ''/proc/cpuinfo'' then Some (unlines (cpu_lines 0 [0..<8]))
        else if path = ''/sys/kernel/mm/hugepages/hugepages-2048kB/nr_hugepages'' then Some (bstr ''512'') else None),
     read_dir = (\<lambda>_. Some [bstr ''node0'', bstr ''node1'']), sched_fifo_allowed = True\<rparr>"

lemma two_node_caps: "has_hugetlb (detect_capabilities two_node_host)" "has_sched_fifo (detect_capabilities two_node_host)"
  by (simp_all add: detect_capabilities_def two_node_host_def Let_def str_trim_def is_space_def bstr_def
      parse_unsigned_def is_ascii_digit_def)

lemma cpu_lines_no_h: "104 \<notin> set (unlines (cpu_lines i cs))"
  by (induction i cs rule: cpu_lines.induct) (auto simp: unlines_def bstr_def dest: dec_byte)

lemma two_node_hypervisor: "detect_hypervisor two_node_host = HvNone"
  using str_find_skip [of "bstr ''hypervisor''" "unlines (cpu_lines 0 [0..<8])" "[]"] cpu_lines_no_h [of 0 "[0..<8]"]
  by (simp add: detect_hypervisor_def two_node_host_def str_contains_def) (simp add: bstr_def)

theorem physical_cores_overcounted:
  "total_logical_cores (detect_cpu_topology two_node_host) = 8 \<and>
   total_physical_cores (detect_cpu_topology two_node_host) = 16 \<and>
   profile_tier (negotiate_profile (\<lambda>_. None) (system_probe two_node_host) None) = Tier3EnterpriseBareMetal"
proof -
  have n: "count_nodes two_node_host = 2" by (simp add: count_nodes_def two_node_host_def starts_with_def bstr_def)
  have "read_file two_node_host ''/proc/cpuinfo'' = Some (unlines (cpu_lines 0 [0..<8]))" by (simp add: two_node_host_def)
  note c = ls_cores [OF this]
  have "env_override (\<lambda>_. None) = None" by (simp add: env_override_def)
  then show ?thesis using c two_node_caps two_node_hypervisor
    by (simp add: n negotiate_profile_def auto_tier_def system_probe_def is_virtualized_def)
qed

end
