(* ===== verification/Live_Args.thy ===== *)
theory Live_Args
  imports Live_Runner Hardware_Probe
begin

text \<open>
  The command line and the main function of \<open>src/crates/live-feed/src/bin/live_feed.rs\<close>, around the retry loop
  of \<open>Live_Runner\<close>. Arguments are ASCII texts; the time at which the program starts, in seconds, and the
  connections it makes are inputs.
\<close>

section \<open>The command line\<close>

record Args =
  url :: bytes
  arg_products :: "bytes list"
  arg_seconds :: u64
  min_messages :: u64

definition DEFAULT_URL :: bytes where
  "DEFAULT_URL = bstr ''wss://ws-feed.exchange.coinbase.com''"

definition STALE_AFTER_MS :: u64 where
  "STALE_AFTER_MS = 10000"

definition args_default :: Args where
  "args_default = \<lparr>url = DEFAULT_URL, arg_products = [bstr ''BTC-USD'', bstr ''ETH-USD''], arg_seconds = 30, min_messages = 0\<rparr>"

text \<open>\<open>parse().unwrap_or(default)\<close> for a \<open>u64\<close>.\<close>

definition parse_u64_or :: "u64 \<Rightarrow> bytes \<Rightarrow> u64" where
  "parse_u64_or dflt val = (case parse_unsigned val of Some v \<Rightarrow> of_nat v | None \<Rightarrow> dflt)"

text \<open>One flag with its value; an unknown flag ends the program.\<close>

definition set_flag :: "bytes \<Rightarrow> bytes \<Rightarrow> Args \<Rightarrow> bytes + Args" where
  "set_flag flag val a =
     (if flag = bstr ''--url'' then Inr (a\<lparr>url := val\<rparr>)
      else if flag = bstr ''--products'' then Inr (a\<lparr>arg_products := map str_trim (split_by (\<lambda>b. b = 44) val)\<rparr>)
      else if flag = bstr ''--seconds'' then Inr (a\<lparr>arg_seconds := parse_u64_or 30 val\<rparr>)
      else if flag = bstr ''--min-messages'' then Inr (a\<lparr>min_messages := parse_u64_or 0 val\<rparr>)
      else Inl flag)"

fun parse_flags :: "bytes list \<Rightarrow> Args \<Rightarrow> bytes + Args" where
  "parse_flags [] a = Inr a"
| "parse_flags [flag] a = set_flag flag [] a"
| "parse_flags (flag # val # rest) a = (case set_flag flag val a of Inl other \<Rightarrow> Inl other | Inr a \<Rightarrow> parse_flags rest a)"

definition parse_args :: "bytes list \<Rightarrow> bytes + Args" where
  "parse_args argv = parse_flags (drop 1 argv) args_default"

section \<open>The program\<close>

text \<open>The deadline; an instant past the range of the 64-bit clock panics.\<close>

definition run_deadline :: "nat \<Rightarrow> u64 \<Rightarrow> nat option outcome" where
  "run_deadline start secs =
     (if secs = 0 then Ret None else if start + unat secs < 2 ^ 63 then Ret (Some (start + unat secs)) else Panic)"

text \<open>The exit status, \<open>None\<close> while the program still runs, and the final state of the runner.\<close>

definition live_main :: "bytes list \<Rightarrow> nat \<Rightarrow> connection list \<Rightarrow> (nat option \<times> Runner option) outcome" where
  "live_main argv start conns =
     (case parse_args argv of
        Inl other \<Rightarrow> Ret (Some 2, None)
      | Inr args \<Rightarrow>
          and_ret sink_new (\<lambda>sink.
          and_ret (run_deadline start (arg_seconds args)) (\<lambda>deadline.
          let (r, slept, left) = main_loop (arg_products args) deadline 1 conns (runner_new (arg_products args) STALE_AFTER_MS sink)
          in Ret (if left then Some (exit_status (min_messages args) (rn_session r)) else None, Some r))))"

section \<open>Reading a command line\<close>

definition known_flags :: "bytes set" where
  "known_flags = {bstr ''--url'', bstr ''--products'', bstr ''--seconds'', bstr ''--min-messages''}"

lemma set_flag_Inl: "set_flag flag val a = Inl f \<longleftrightarrow> flag \<notin> known_flags \<and> f = flag"
  by (auto simp: set_flag_def known_flags_def)

lemma split_by_join:
  assumes "ps \<noteq> []" and "\<forall>p \<in> set ps. 44 \<notin> set p"
  shows "split_by (\<lambda>b. b = 44) (join_comma ps) = ps"
  using assms
proof (induction ps rule: join_comma.induct)
  case (2 x)
  then show ?case using split_by_none [of x "\<lambda>b. b = 44"] by auto
next
  case (3 x y ys)
  then have "\<forall>b \<in> set x. b \<noteq> 44" by auto
  from split_by_field [OF this refl] 3 show ?case by simp
qed simp

lemma parse_u64_or_dec: "parse_u64_or dflt (dec (unat v)) = v"
  using parse_unsigned_dec [of "unat v"] unat_less_power [of v] by (simp add: parse_u64_or_def)

lemma flags_differ:
  "bstr ''--url'' \<noteq> bstr ''--products''" "bstr ''--url'' \<noteq> bstr ''--seconds''" "bstr ''--url'' \<noteq> bstr ''--min-messages''"
  "bstr ''--products'' \<noteq> bstr ''--seconds''" "bstr ''--products'' \<noteq> bstr ''--min-messages''" "bstr ''--seconds'' \<noteq> bstr ''--min-messages''"
  by (simp_all add: bstr_def)

text \<open>The flags that spell out a configuration.\<close>

definition spell_args :: "Args \<Rightarrow> bytes list" where
  "spell_args a = [bstr ''--url'', url a, bstr ''--products'', join_comma (arg_products a),
     bstr ''--seconds'', dec (unat (arg_seconds a)), bstr ''--min-messages'', dec (unat (min_messages a))]"

text \<open>A configuration written as flags is read back, when it has a product and the products carry no comma
  and no surrounding space.\<close>

theorem args_roundtrip:
  assumes "arg_products a \<noteq> []" and "\<forall>p \<in> set (arg_products a). 44 \<notin> set p \<and> str_trim p = p"
  shows "parse_args (prog # spell_args a) = Inr a"
proof -
  have "split_by (\<lambda>b. b = 44) (join_comma (arg_products a)) = arg_products a" using assms by (intro split_by_join) auto
  moreover have "map str_trim (arg_products a) = arg_products a" using assms(2) by (intro map_idI) simp
  ultimately show ?thesis
    by (simp add: parse_args_def spell_args_def set_flag_def flags_differ [symmetric] flags_differ parse_u64_or_dec)
qed

text \<open>The program refuses its command line exactly when an argument in flag position is no flag.\<close>

theorem unknown_flag_refused:
  "(\<exists>other. parse_flags args a = Inl other) \<longleftrightarrow> (\<exists>i. 2 * i < length args \<and> args ! (2 * i) \<notin> known_flags)"
proof (induction args a rule: parse_flags.induct)
  case (2 flag a)
  have "(\<exists>i. 2 * i < length [flag] \<and> [flag] ! (2 * i) \<notin> known_flags) \<longleftrightarrow> flag \<notin> known_flags" by auto
  then show ?case by (simp add: set_flag_Inl)
next
  case (3 flag val rest a)
  have shift: "(\<exists>i. 2 * i < length (flag # val # rest) \<and> (flag # val # rest) ! (2 * i) \<notin> known_flags) \<longleftrightarrow>
      flag \<notin> known_flags \<or> (\<exists>i. 2 * i < length rest \<and> rest ! (2 * i) \<notin> known_flags)" (is "?L \<longleftrightarrow> ?R")
  proof
    assume ?L
    then obtain i where i: "2 * i < length (flag # val # rest)" "(flag # val # rest) ! (2 * i) \<notin> known_flags" by blast
    then show ?R by (cases i) auto
  next
    assume ?R
    then show ?L
    proof
      assume "\<exists>i. 2 * i < length rest \<and> rest ! (2 * i) \<notin> known_flags"
      then obtain i where "2 * i < length rest" "rest ! (2 * i) \<notin> known_flags" by blast
      then show ?L by (intro exI [of _ "Suc i"]) simp
    qed (intro exI [of _ 0], simp)
  qed
  show ?case
  proof (cases "set_flag flag val a")
    case (Inl other)
    then show ?thesis unfolding shift using set_flag_Inl [of flag val a other] by simp
  next
    case (Inr a')
    then have "flag \<in> known_flags" using set_flag_Inl [of flag val a flag] by auto
    then show ?thesis unfolding shift using 3 Inr by simp
  qed
qed simp

text \<open>The exit status of a run that ended: 2 for a refused command line, 1 for too few messages, else 0. The
  messages counted are those of a run of the session.\<close>

theorem live_main_status:
  assumes "live_main argv start conns = Ret (Some code, res)"
  shows "case res of
      None \<Rightarrow> code = 2 \<and> (\<exists>i. 2 * i + 1 < length argv \<and> argv ! (2 * i + 1) \<notin> known_flags)
    | Some r \<Rightarrow> \<exists>args sink inputs handled acts. parse_args argv = Inr args \<and> sink_new = Ret sink \<and>
        feed_run (feed_new (arg_products args) STALE_AFTER_MS) inputs = (rn_session r, map snd handled, acts) \<and>
        rn_sink r = handle_all handled sink \<and>
        code = (if st_messages (stats (rn_session r)) < min_messages args then 1 else 0)"
proof (cases "parse_args argv")
  case (Inl other)
  then have "res = None" "code = 2" using assms by (simp_all add: live_main_def)
  moreover obtain i where "2 * i < length (drop 1 argv)" "drop 1 argv ! (2 * i) \<notin> known_flags"
    using Inl unknown_flag_refused unfolding parse_args_def by blast
  then have "2 * i + 1 < length argv \<and> argv ! (2 * i + 1) \<notin> known_flags" by (simp add: add.commute)
  ultimately show ?thesis by auto
next
  case (Inr args)
  obtain sink where s: "sink_new = Ret sink" using assms Inr by (cases sink_new) (simp_all add: live_main_def)
  note run = assms [unfolded live_main_def Inr s sum.case and_ret_simps]
  obtain dl where d: "run_deadline start (arg_seconds args) = Ret dl"
    using run by (cases "run_deadline start (arg_seconds args)") simp_all
  let ?r0 = "runner_new (arg_products args) STALE_AFTER_MS sink"
  obtain r slept left where m: "main_loop (arg_products args) dl 1 conns ?r0 = (r, slept, left)" by (rule prod_cases3)
  have res: "res = Some r" "code = exit_status (min_messages args) (rn_session r)"
    using run unfolding d and_ret_simps m by (auto split: if_splits)
  have "tracks (feed_new (arg_products args) STALE_AFTER_MS) sink r"
    using main_loop_tracks [OF runner_new_tracks, of "arg_products args" STALE_AFTER_MS sink "arg_products args" dl 1 conns] m by simp
  then show ?thesis using Inr s res unfolding tracks_def exit_status_def by auto
qed

end
