(* ===== verification/Amm_Pools.thy ===== *)
theory Amm_Pools
  imports Order_Book
begin

text \<open>
  The pool virtualizers of \<open>src/crates/amm-virtualizer/src/lib.rs\<close> and \<open>v4.rs\<close>: constant-product pools,
  concentrated-liquidity pools, and pools with dynamic hooks, each turned into levels of the order book.
  Arithmetic wraps at 128 and 64 bits; a division by zero is \<open>Panic\<close>.
\<close>

section \<open>Operations that may panic\<close>

definition checked_div :: "u128 \<Rightarrow> u128 \<Rightarrow> u128 outcome" where
  "checked_div a b = (if b = 0 then Panic else Ret (a div b))"

section \<open>Integer square root\<close>

function isqrt_loop :: "u128 \<Rightarrow> u128 \<Rightarrow> u128 \<Rightarrow> u128 outcome" where
  "isqrt_loop n x0 x1 =
     (if x1 < x0 then and_ret (checked_div n x1) (\<lambda>q. isqrt_loop n x1 ((x1 + q) div 2)) else Ret x0)"
  by pat_completeness auto
termination by (relation "measure (\<lambda>(n, x0, x1). unat x0)") (auto simp: word_less_nat_alt)

declare isqrt_loop.simps [simp del]

definition integer_sqrt :: "u128 \<Rightarrow> u128 outcome" where
  "integer_sqrt n =
     (if n = 0 then Ret 0
      else let x0 = n div 2
           in if x0 = 0 then Ret 1
              else and_ret (checked_div n x0) (\<lambda>q. isqrt_loop n x0 ((x0 + q) div 2)))"

section \<open>Constant product\<close>

record UniswapV2Pool =
  reserve_base :: u128
  reserve_quote :: u128
  fee_numerator :: u128
  fee_denominator :: u128
  base_decimals :: u8
  quote_decimals :: u8

definition v2_new :: "u128 \<Rightarrow> u128 \<Rightarrow> u16 \<Rightarrow> UniswapV2Pool" where
  "v2_new rb rq fee_bps =
     \<lparr>reserve_base = rb, reserve_quote = rq, fee_numerator = 10000 - ucast fee_bps, fee_denominator = 10000,
      base_decimals = 18, quote_decimals = 6\<rparr>"

definition v2_spot_price_scaled :: "UniswapV2Pool \<Rightarrow> i64 outcome" where
  "v2_spot_price_scaled p =
     (if reserve_base p = 0 then Ret 0
      else and_ret
        (if base_decimals p \<ge> quote_decimals p
         then let diff = 10 ^ unat (base_decimals p - quote_decimals p)
              in checked_div (reserve_quote p * diff * 100000000) (reserve_base p)
         else let diff = 10 ^ unat (quote_decimals p - base_decimals p)
              in checked_div (reserve_quote p * 100000000) (reserve_base p * diff))
        (\<lambda>price. Ret (ucast price)))"

text \<open>The base reserve at which the pool's price is the target price.\<close>

definition v2_target_base :: "u128 \<Rightarrow> i64 \<Rightarrow> i64 \<Rightarrow> u128 outcome" where
  "v2_target_base reserve spot target =
     and_ret (checked_div (scast spot * 1000000000000000000) (scast target)) (\<lambda>ratio_sq.
     and_ret (integer_sqrt ratio_sq) (\<lambda>ratio. Ret ((reserve * ratio) div 1000000000)))"

definition v2_scale_qty :: "UniswapV2Pool \<Rightarrow> u128 \<Rightarrow> u64 outcome" where
  "v2_scale_qty p delta_base =
     and_ret (checked_div (delta_base * 100000000) (10 ^ unat (base_decimals p))) (\<lambda>q. Ret (ucast q))"

definition v2_ask_band :: "UniswapV2Pool \<Rightarrow> i64 \<Rightarrow> u64 \<Rightarrow> ContiguousOrderBook \<Rightarrow> u16 \<Rightarrow> ContiguousOrderBook outcome" where
  "v2_ask_band p spot ts_ns book bps =
     (let target_price = spot + sdivide (spot * ucast bps) 10000
      in if (scast target_price :: u128) > 0
         then and_ret (v2_target_base (reserve_base p) spot target_price) (\<lambda>target_base.
              if reserve_base p > target_base
              then and_ret (v2_scale_qty p (reserve_base p - target_base)) (\<lambda>qty_scaled.
                   Ret (update_ask book target_price qty_scaled 1 ts_ns))
              else Ret book)
         else Ret book)"

definition v2_bid_band :: "UniswapV2Pool \<Rightarrow> i64 \<Rightarrow> u64 \<Rightarrow> ContiguousOrderBook \<Rightarrow> u16 \<Rightarrow> ContiguousOrderBook outcome" where
  "v2_bid_band p spot ts_ns book bps =
     (let target_bid_price = ssaturating_sub spot (sdivide (spot * ucast bps) 10000)
      in if sint target_bid_price > 0
         then and_ret (v2_target_base (reserve_base p) spot target_bid_price) (\<lambda>target_base.
              if target_base > reserve_base p
              then and_ret (v2_scale_qty p (target_base - reserve_base p)) (\<lambda>qty_scaled.
                   Ret (update_bid book target_bid_price qty_scaled 1 ts_ns))
              else Ret book)
         else Ret book)"

definition v2_populate_virtual_order_book ::
  "UniswapV2Pool \<Rightarrow> ContiguousOrderBook \<Rightarrow> u16 list \<Rightarrow> u64 \<Rightarrow> ContiguousOrderBook outcome" where
  "v2_populate_virtual_order_book p book bands_bps ts_ns =
     and_ret (v2_spot_price_scaled p) (\<lambda>spot.
     if sint spot \<le> 0 then Ret book
     else foldl_ret (\<lambda>book bps. and_ret (v2_ask_band p spot ts_ns book bps) (\<lambda>book. v2_bid_band p spot ts_ns book bps))
            book bands_bps)"

section \<open>Concentrated liquidity\<close>

record ConcentratedTick =
  tick_index :: i32
  liquidity_gross :: u128
  liquidity_net :: i128

record ConcentratedLiquidityPool =
  cl_current_tick :: i32
  cl_sqrt_price_x96 :: u128
  cl_current_liquidity :: u128
  cl_tick_spacing :: i32

definition cl_new :: "i32 \<Rightarrow> u128 \<Rightarrow> u128 \<Rightarrow> i32 \<Rightarrow> ConcentratedLiquidityPool" where
  "cl_new t sp l ts = \<lparr>cl_current_tick = t, cl_sqrt_price_x96 = sp, cl_current_liquidity = l, cl_tick_spacing = ts\<rparr>"

text \<open>The price of a square root in 96 binary places; the two pool types have the same code.\<close>

definition x96_price :: "u128 \<Rightarrow> i64" where
  "x96_price sqrt_price_x96 =
     (if sqrt_price_x96 = 0 then 0
      else let sp = drop_bit 48 sqrt_price_x96;
               p_num = sp * sp;
               p_scaled = drop_bit 64 (drop_bit 32 p_num * 100000000 + push_bit 63 1)
           in ucast p_scaled)"

definition cl_spot_price_scaled :: "ConcentratedLiquidityPool \<Rightarrow> i64" where
  "cl_spot_price_scaled p = x96_price (cl_sqrt_price_x96 p)"

text \<open>Writing an ask level without the book's update function.\<close>

definition write_ask :: "ContiguousOrderBook \<Rightarrow> i64 \<Rightarrow> u64 \<Rightarrow> u64 \<Rightarrow> ContiguousOrderBook" where
  "write_ask book price qty ts_ns =
     (let diff = sdivide (price - base_price book) TICK_SIZE
      in if 0 \<le> sint diff \<and> unat diff < PRICE_LEVELS_COUNT
         then let idx = unat diff
              in book\<lparr>asks := (asks book)[idx := (asks book ! idx)\<lparr>level_price := price, level_quantity := qty, last_update_ts := ts_ns\<rparr>]\<rparr>
         else book)"

text \<open>Crossing a tick upwards and downwards.\<close>

definition cross_up :: "u128 \<Rightarrow> i128 \<Rightarrow> u128" where
  "cross_up liquidity net = (if 0 \<le> sint net then saturating_add liquidity net else saturating_sub liquidity (- net))"

definition cross_down :: "u128 \<Rightarrow> i128 \<Rightarrow> u128" where
  "cross_down liquidity net = (if 0 \<le> sint net then saturating_sub liquidity net else saturating_add liquidity (- net))"

definition cl_ask_tick :: "ConcentratedLiquidityPool \<Rightarrow> i64 \<Rightarrow> u64 \<Rightarrow> ContiguousOrderBook \<times> u128 \<Rightarrow> ConcentratedTick \<Rightarrow> ContiguousOrderBook \<times> u128" where
  "cl_ask_tick p spot ts_ns = (\<lambda>(book, active_liquidity) tick.
     let price_step = spot + scast (tick_index tick - cl_current_tick p) * 100;
         available_qty = ucast (active_liquidity div 1000000000)
     in (write_ask book price_step available_qty ts_ns, cross_up active_liquidity (liquidity_net tick)))"

definition cl_bid_tick :: "ConcentratedLiquidityPool \<Rightarrow> i64 \<Rightarrow> u64 \<Rightarrow> ContiguousOrderBook \<times> u128 \<Rightarrow> ConcentratedTick \<Rightarrow> ContiguousOrderBook \<times> u128" where
  "cl_bid_tick p spot ts_ns = (\<lambda>(book, bid_liquidity) tick.
     let price_step = ssaturating_sub spot (scast (cl_current_tick p - tick_index tick) * 100);
         book = (if sint price_step > 0
                 then update_bid book price_step (ucast (bid_liquidity div 1000000000)) 1 ts_ns else book)
     in (book, cross_down bid_liquidity (liquidity_net tick)))"

definition cl_populate_order_book ::
  "ConcentratedLiquidityPool \<Rightarrow> ContiguousOrderBook \<Rightarrow> ConcentratedTick list \<Rightarrow> u64 \<Rightarrow> ContiguousOrderBook" where
  "cl_populate_order_book p book ticks ts_ns =
     (let spot = cl_spot_price_scaled p
      in if sint spot \<le> 0 then book
         else let (book, _) = foldl (cl_ask_tick p spot ts_ns) (book, cl_current_liquidity p)
                                (filter (\<lambda>t. sint (tick_index t) > sint (cl_current_tick p)) ticks);
                  (book, _) = foldl (cl_bid_tick p spot ts_ns) (book, cl_current_liquidity p)
                                (rev (filter (\<lambda>t. sint (tick_index t) \<le> sint (cl_current_tick p)) ticks))
              in book)"

section \<open>Pools with hooks\<close>

definition DYNAMIC_FEE_FLAG :: u32 where "DYNAMIC_FEE_FLAG = 0x800000"

definition BEFORE_INITIALIZE :: u16 where "BEFORE_INITIALIZE = push_bit 13 1"
definition AFTER_INITIALIZE :: u16 where "AFTER_INITIALIZE = push_bit 12 1"
definition BEFORE_ADD_LIQUIDITY :: u16 where "BEFORE_ADD_LIQUIDITY = push_bit 11 1"
definition AFTER_ADD_LIQUIDITY :: u16 where "AFTER_ADD_LIQUIDITY = push_bit 10 1"
definition BEFORE_REMOVE_LIQUIDITY :: u16 where "BEFORE_REMOVE_LIQUIDITY = push_bit 9 1"
definition AFTER_REMOVE_LIQUIDITY :: u16 where "AFTER_REMOVE_LIQUIDITY = push_bit 8 1"
definition BEFORE_SWAP :: u16 where "BEFORE_SWAP = push_bit 7 1"
definition AFTER_SWAP :: u16 where "AFTER_SWAP = push_bit 6 1"
definition BEFORE_DONATE :: u16 where "BEFORE_DONATE = push_bit 5 1"
definition AFTER_DONATE :: u16 where "AFTER_DONATE = push_bit 4 1"
definition BEFORE_SWAP_RETURNS_DELTA :: u16 where "BEFORE_SWAP_RETURNS_DELTA = push_bit 3 1"
definition AFTER_SWAP_RETURNS_DELTA :: u16 where "AFTER_SWAP_RETURNS_DELTA = push_bit 2 1"
definition AFTER_ADD_LIQUIDITY_RETURNS_DELTA :: u16 where "AFTER_ADD_LIQUIDITY_RETURNS_DELTA = push_bit 1 1"
definition AFTER_REMOVE_LIQUIDITY_RETURNS_DELTA :: u16 where "AFTER_REMOVE_LIQUIDITY_RETURNS_DELTA = push_bit 0 1"

record PoolKey =
  currency0 :: bytes
  currency1 :: bytes
  key_fee :: u32
  key_tick_spacing :: i32
  key_hooks :: bytes

definition parse_flags_from_address :: "bytes \<Rightarrow> u16" where
  "parse_flags_from_address address = push_bit 8 (ucast (address ! 0)) OR ucast (address ! 1)"

definition has_dynamic_fee :: "PoolKey \<Rightarrow> bool" where
  "has_dynamic_fee k \<longleftrightarrow> key_fee k AND DYNAMIC_FEE_FLAG \<noteq> 0"

definition hook_flags :: "PoolKey \<Rightarrow> u16" where
  "hook_flags k = parse_flags_from_address (key_hooks k)"

definition has_hook :: "PoolKey \<Rightarrow> u16 \<Rightarrow> bool" where
  "has_hook k flag \<longleftrightarrow> hook_flags k AND flag \<noteq> 0"

record HookSimulationConfig =
  dynamic_fee_override_bps :: "u16 option"
  hook_delta_specified :: i128
  hook_fee_delta_bps :: i16

definition hook_config_default :: HookSimulationConfig where
  "hook_config_default = \<lparr>dynamic_fee_override_bps = None, hook_delta_specified = 0, hook_fee_delta_bps = 0\<rparr>"

record UniswapV4Pool =
  pool_key :: PoolKey
  v4_sqrt_price_x96 :: u128
  v4_current_tick :: i32
  v4_current_liquidity :: u128
  hook_config :: HookSimulationConfig

definition v4_new :: "PoolKey \<Rightarrow> u128 \<Rightarrow> i32 \<Rightarrow> u128 \<Rightarrow> UniswapV4Pool" where
  "v4_new k sp t l = \<lparr>pool_key = k, v4_sqrt_price_x96 = sp, v4_current_tick = t, v4_current_liquidity = l, hook_config = hook_config_default\<rparr>"

definition with_hook_config :: "UniswapV4Pool \<Rightarrow> HookSimulationConfig \<Rightarrow> UniswapV4Pool" where
  "with_hook_config p config = p\<lparr>hook_config := config\<rparr>"

text \<open>The adjusted fee is a sum of two 16-bit numbers in \<open>i32\<close>, so it does not wrap.\<close>

definition effective_fee_bps :: "UniswapV4Pool \<Rightarrow> u16" where
  "effective_fee_bps p =
     (let base_fee_bps = (if has_dynamic_fee (pool_key p)
                          then (case dynamic_fee_override_bps (hook_config p) of Some f \<Rightarrow> f | None \<Rightarrow> 30)
                          else ucast (key_fee (pool_key p) div 100))
      in if has_hook (pool_key p) BEFORE_SWAP
         then let adjusted = int (unat base_fee_bps) + sint (hook_fee_delta_bps (hook_config p))
              in of_int (min (max adjusted 0) 10000)
         else base_fee_bps)"

definition v4_spot_price_scaled :: "UniswapV4Pool \<Rightarrow> i64" where
  "v4_spot_price_scaled p = x96_price (v4_sqrt_price_x96 p)"

definition v4_ask_tick :: "UniswapV4Pool \<Rightarrow> i64 \<Rightarrow> u16 \<Rightarrow> u64 \<Rightarrow> ContiguousOrderBook \<times> u128 \<Rightarrow> ConcentratedTick \<Rightarrow> ContiguousOrderBook \<times> u128" where
  "v4_ask_tick p spot fee_bps ts_ns = (\<lambda>(book, ask_liquidity) tick.
     let tick_distance = scast (tick_index tick - v4_current_tick p);
         price_step = spot + tick_distance * 100;
         price_with_fee = price_step + sdivide (price_step * ucast fee_bps) 20000
     in (write_ask book price_with_fee (ucast (ask_liquidity div 1000000000)) ts_ns, cross_up ask_liquidity (liquidity_net tick)))"

definition v4_bid_tick :: "UniswapV4Pool \<Rightarrow> i64 \<Rightarrow> u16 \<Rightarrow> u64 \<Rightarrow> ContiguousOrderBook \<times> u128 \<Rightarrow> ConcentratedTick \<Rightarrow> ContiguousOrderBook \<times> u128" where
  "v4_bid_tick p spot fee_bps ts_ns = (\<lambda>(book, bid_liquidity) tick.
     let tick_distance = scast (v4_current_tick p - tick_index tick);
         price_step = ssaturating_sub spot (tick_distance * 100);
         price_with_fee = ssaturating_sub price_step (sdivide (price_step * ucast fee_bps) 20000);
         book = (if sint price_with_fee > 0
                 then update_bid book price_with_fee (ucast (bid_liquidity div 1000000000)) 1 ts_ns else book)
     in (book, cross_down bid_liquidity (liquidity_net tick)))"

definition v4_populate_virtual_order_book ::
  "UniswapV4Pool \<Rightarrow> ContiguousOrderBook \<Rightarrow> ConcentratedTick list \<Rightarrow> u64 \<Rightarrow> ContiguousOrderBook" where
  "v4_populate_virtual_order_book p book ticks ts_ns =
     (let spot = v4_spot_price_scaled p
      in if sint spot \<le> 0 then book
         else let fee_bps = effective_fee_bps p;
                  (book, _) = foldl (v4_ask_tick p spot fee_bps ts_ns) (book, v4_current_liquidity p)
                                (filter (\<lambda>t. sint (tick_index t) \<ge> sint (v4_current_tick p)) ticks);
                  (book, _) = foldl (v4_bid_tick p spot fee_bps ts_ns) (book, v4_current_liquidity p)
                                (rev (filter (\<lambda>t. sint (tick_index t) \<le> sint (v4_current_tick p)) ticks))
              in book)"

section \<open>The square root\<close>

definition newton :: "nat \<Rightarrow> nat \<Rightarrow> nat" where
  "newton n x = (x + n div x) div 2"

lemma newton_above:
  assumes "r * r \<le> n" and "0 < x"
  shows "r \<le> newton n x"
proof (cases "2 * r \<le> x")
  case False
  have "(int x - int r) * (int x - int r) \<ge> 0" by simp
  then have "2 * (int r * int x) \<le> int x * int x + int r * int r" by (simp add: algebra_simps)
  then have "2 * (r * x) \<le> x * x + r * r" by (metis (mono_tags, lifting) of_nat_add of_nat_le_iff of_nat_mult of_nat_numeral)
  then have "(2 * r - x) * x \<le> n" using assms(1) by (simp add: diff_mult_distrib)
  then have "2 * r - x \<le> n div x" using assms(2) by (simp add: less_eq_div_iff_mult_less_eq)
  then show ?thesis by (simp add: newton_def)
qed (simp add: newton_def)

lemma newton_stops: "\<not> newton n x < x \<Longrightarrow> x * x \<le> n"
proof -
  assume "\<not> newton n x < x"
  then have "x \<le> n div x" by (simp add: newton_def)
  then show ?thesis by (cases "x = 0") (simp_all add: less_eq_div_iff_mult_less_eq)
qed

lemma newton_word:
  fixes n x :: u128
  assumes "0 < unat x" "unat x \<le> 2 ^ 127" and above: "\<And>r. r * r \<le> unat n \<Longrightarrow> r \<le> unat x"
  shows "unat ((x + n div x) div 2) = newton (unat n) (unat x)"
proof -
  have n: "unat n < 2 ^ 128" using unat_less_power [of n] by simp
  have "unat x + unat n div unat x < 2 ^ 128"
  proof (cases "unat x = 1")
    case True
    then have "\<not> 2 * 2 \<le> unat n" using above [of 2] by linarith
    then show ?thesis using True by simp
  next
    case False
    then have "unat n div unat x \<le> unat n div 2" using assms(1) by (intro div_le_mono2) simp_all
    also have "\<dots> < 2 ^ 127" using n by simp
    finally show ?thesis using assms(2) by simp
  qed
  then have "unat (x + n div x) = unat x + unat n div unat x" by (subst unat_add_nowrap) (simp_all add: unat_div_distrib)
  then show ?thesis by (simp add: newton_def unat_div_distrib)
qed

lemma isqrt_loop_correct:
  assumes "0 < unat n" "0 < unat x0" "unat x0 \<le> 2 ^ 127" and "\<And>r. r * r \<le> unat n \<Longrightarrow> r \<le> unat x0"
    and "unat x1 = newton (unat n) (unat x0)"
  shows "\<exists>r. isqrt_loop n x0 x1 = Ret r \<and> unat r * unat r \<le> unat n \<and> unat n < (unat r + 1) * (unat r + 1)"
  using assms
proof (induction n x0 x1 rule: isqrt_loop.induct)
  case (1 n x0 x1)
  have above: "r \<le> unat x1" if "r * r \<le> unat n" for r using newton_above [OF that "1.prems"(2)] "1.prems"(5) by simp
  show ?case
  proof (cases "x1 < x0")
    case True
    have pos: "0 < unat x1" using above [of 1] "1.prems"(1) by simp
    then have nz: "x1 \<noteq> 0" by auto
    have le: "unat x1 \<le> 2 ^ 127" using True "1.prems"(3) by (simp add: word_less_nat_alt)
    note step = newton_word [OF pos le above]
    have "\<exists>r. isqrt_loop n x1 ((x1 + n div x1) div 2) = Ret r \<and> unat r * unat r \<le> unat n \<and> unat n < (unat r + 1) * (unat r + 1)"
      using "1.IH" [OF True "1.prems"(1) pos le above step] by simp
    then show ?thesis using True nz by (subst isqrt_loop.simps) (simp add: checked_div_def)
  next
    case False
    have "unat x0 * unat x0 \<le> unat n"
      using False "1.prems"(5) by (intro newton_stops) (simp add: word_less_nat_alt)
    moreover have "\<not> (unat x0 + 1) * (unat x0 + 1) \<le> unat n" using "1.prems"(4) [of "unat x0 + 1"] by auto
    ultimately show ?thesis using False by (subst isqrt_loop.simps) simp
  qed
qed

lemma integer_sqrt_correct:
  "\<exists>r. integer_sqrt n = Ret r \<and> unat r * unat r \<le> unat n \<and> unat n < (unat r + 1) * (unat r + 1)"
proof (cases "unat n < 4")
  case True
  then have "unat n \<in> {0, 1, 2, 3}" by auto
  then have "n \<in> {0, 1, 2, 3}" by (auto dest!: eq_of_nat)
  then show ?thesis
    by (auto simp: integer_sqrt_def checked_div_def isqrt_loop.simps)
next
  case False
  let ?x = "n div 2"
  have ux: "unat ?x = unat n div 2" by (simp add: unat_div_distrib)
  have pos: "0 < unat ?x" "0 < unat n" using False by (simp_all add: ux)
  have le: "unat ?x \<le> 2 ^ 127" using unat_less_power [of n] by (simp add: ux)
  have above: "r \<le> unat ?x" if "r * r \<le> unat n" for r
  proof (cases "r \<le> 1")
    case True
    then show ?thesis using False by (simp add: ux)
  next
    case r: False
    then have "2 * r \<le> r * r" by (intro mult_right_mono) simp_all
    then have "2 * r \<le> unat n" using that by (rule order_trans)
    then show ?thesis by (simp add: ux)
  qed
  have "n \<noteq> 0" "?x \<noteq> 0" using pos by auto
  then show ?thesis
    using isqrt_loop_correct [OF pos(2,1) le above newton_word [OF pos(1) le above]]
    by (simp add: integer_sqrt_def checked_div_def Let_def)
qed

lemma unat_scast_nonneg: "0 \<le> sint x \<Longrightarrow> unat (scast x :: u128) = unat x" for x :: i64
proof -
  assume x: "0 \<le> sint x"
  have "(scast x :: u128) = of_int (sint x)" by simp
  also have "\<dots> = of_nat (unat x)" using unat_of_sint_nonneg [OF x] x by simp
  finally show ?thesis using unat_less_power [of x] by (simp add: unat_of_nat_small)
qed

section \<open>Prices\<close>

definition x96_round :: "nat \<Rightarrow> nat" where
  "x96_round s = ((s div 2 ^ 48) * (s div 2 ^ 48) div 2 ^ 32 * 100000000 + 2 ^ 63) div 2 ^ 64"

lemma x96_price_nat:
  assumes "unat s < 2 ^ 112"
  shows "sint (x96_price s) = int (x96_round (unat s))"
proof -
  let ?sp = "drop_bit 48 s"
  have sp: "unat ?sp = unat s div 2 ^ 48" by (rule unat_drop_bit)
  have sp64: "unat s div 2 ^ 48 < 2 ^ 64" using assms by (simp add: div_less_iff_less_mult)
  then have sq128: "(unat s div 2 ^ 48) * (unat s div 2 ^ 48) < 2 ^ 64 * 2 ^ 64" by (rule mult_strict_mono') (use sp64 in simp_all)
  have sq: "unat (?sp * ?sp) = (unat s div 2 ^ 48) * (unat s div 2 ^ 48)"
    using sq128 by (subst unat_mult_nowrap) (simp_all add: sp)
  define q where "q = (unat s div 2 ^ 48) * (unat s div 2 ^ 48) div 2 ^ 32"
  have q: "q < 2 ^ 96" using sq128 unfolding q_def by (simp add: div_less_iff_less_mult)
  have dq: "unat (drop_bit 32 (?sp * ?sp)) = q" by (simp add: unat_drop_bit sq q_def)
  have m: "unat (drop_bit 32 (?sp * ?sp) * 100000000) = q * 100000000"
    using q by (subst unat_mult_nowrap) (simp_all add: dq)
  have p: "unat (drop_bit 32 (?sp * ?sp) * 100000000 + push_bit 63 1) = q * 100000000 + 2 ^ 63"
    using q by (subst unat_add_nowrap) (simp_all add: m push_bit_eq_mult)
  have rq: "x96_round (unat s) = (q * 100000000 + 2 ^ 63) div 2 ^ 64" by (simp only: x96_round_def q_def)
  have r: "x96_round (unat s) < 2 ^ 63" using q by (simp add: rq div_less_iff_less_mult)
  have d: "unat (drop_bit 64 (drop_bit 32 (?sp * ?sp) * 100000000 + push_bit 63 1)) = x96_round (unat s)"
    by (simp only: unat_drop_bit p rq)
  have "x96_price s = of_nat (x96_round (unat s))"
  proof (cases "s = 0")
    case False
    have "unat (x96_price s) = x96_round (unat s) mod 2 ^ LENGTH(64)"
      by (simp only: x96_price_def Let_def False if_False unat_ucast_mod d)
    then have "unat (x96_price s) = x96_round (unat s)" using r by simp
    then show ?thesis by (rule eq_of_nat)
  qed (simp add: x96_price_def x96_round_def)
  then show ?thesis using r by (simp add: sint_of_nat_range)
qed

lemma div_bounds: "0 < d \<Longrightarrow> a div d * d \<le> a \<and> a < (a div d + 1) * d" for a d :: nat
  using dividend_less_div_times [of d a] by (simp add: add.commute)

lemma x96_round_bounds:
  assumes "s < 2 ^ 112"
  shows "2 * (x96_round s * 2 ^ 192) \<le> 2 * (s * s * 100000000) + 2 ^ 192" and "s * s * 100000000 < (x96_round s + 1) * 2 ^ 192"
proof -
  define sp q t where "sp = s div 2 ^ 48" and "q = sp * sp div 2 ^ 32" and "t = x96_round s"
  have t: "t = (q * 100000000 + 2 ^ 63) div 2 ^ 64" by (simp add: t_def x96_round_def q_def sp_def)
  have t1: "t * 2 ^ 64 \<le> q * 100000000 + 2 ^ 63" and t2: "q * 100000000 + 2 ^ 63 < (t + 1) * 2 ^ 64"
    using div_bounds [of "2 ^ 64" "q * 100000000 + 2 ^ 63"] by (simp_all only: t) simp_all
  have q1: "q * 2 ^ 32 \<le> sp * sp" and q2: "sp * sp < (q + 1) * 2 ^ 32"
    using div_bounds [of "2 ^ 32" "sp * sp"] by (simp_all only: q_def) simp_all
  have s1: "sp * 2 ^ 48 \<le> s" and s2: "s < (sp + 1) * 2 ^ 48"
    using div_bounds [of "2 ^ 48" s] by (simp_all only: sp_def) simp_all
  have sp64: "sp < 2 ^ 64" using assms by (simp add: sp_def div_less_iff_less_mult)
  have "(sp * 2 ^ 48) * (sp * 2 ^ 48) \<le> s * s" using s1 by (rule mult_le_mono) (rule s1)
  then have ss1: "sp * sp * 2 ^ 96 \<le> s * s" by (simp add: algebra_simps)
  have "s * s < ((sp + 1) * 2 ^ 48) * ((sp + 1) * 2 ^ 48)" using s2 by (rule mult_strict_mono') (use s2 in simp_all)
  then have ss2: "s * s < (sp * sp + 2 * sp + 1) * 2 ^ 96" by (simp add: algebra_simps)
  show "2 * (x96_round s * 2 ^ 192) \<le> 2 * (s * s * 100000000) + 2 ^ 192"
    using t1 q1 ss1 by (simp flip: t_def)
  show "s * s * 100000000 < (x96_round s + 1) * 2 ^ 192"
    using t2 q2 ss2 sp64 by (simp flip: t_def)
qed

text \<open>Square-root prices are converted to within one unit: for every square root below \<open>2 ^ 112\<close> (a price below
  \<open>2 ^ 32\<close>) the spot price is nonnegative, at most half a unit above the exact \<open>10 ^ 8\<close>-scaled price and less
  than one unit below it, although the computation drops 48 and 32 low bits on the way.\<close>

theorem x96_price_accuracy:
  assumes "unat s < 2 ^ 112"
  shows "\<exists>t. sint (x96_price s) = int t \<and> 2 * (t * 2 ^ 192) \<le> 2 * (unat s * unat s * 100000000) + 2 ^ 192 \<and>
    unat s * unat s * 100000000 < (t + 1) * 2 ^ 192"
  using x96_price_nat [OF assms] x96_round_bounds [OF assms] by blast

theorem x96_price_accuracy_witness:
  "\<exists>t. sint (x96_price (push_bit 97 1)) = int t \<and> 2 * (t * 2 ^ 192) \<le> 2 * (2 ^ 97 * 2 ^ 97 * 100000000) + (2 :: nat) ^ 192"
  using x96_price_accuracy [of "push_bit 97 1"] by (auto simp: push_bit_eq_mult)

text \<open>The base reserve at a target price: the constant-product curve, from below and to within rounding.\<close>

lemma v2_target_base_bounds:
  assumes spot: "0 < sint spot" and target: "0 < sint target" and near: "sint spot \<le> 4 * sint target" and res: "unat reserve < 2 ^ 97"
  shows "\<exists>tb. v2_target_base reserve spot target = Ret tb \<and>
    unat tb * unat tb * unat target \<le> unat reserve * unat reserve * unat spot \<and>
    unat reserve * unat reserve * unat spot * 10 ^ 18 < ((unat tb + 1) * 10 ^ 9 + unat reserve)\<^sup>2 * unat target"
proof -
  define S T X where "S = unat spot" and "T = unat target" and "X = unat reserve"
  have S: "int S = sint spot" "S < 2 ^ 63" and T: "int T = sint target" "T < 2 ^ 63" "0 < T"
    using spot target sint_lt [of spot] sint_lt [of target] unat_of_sint_nonneg [of spot] unat_of_sint_nonneg [of target]
    by (simp_all add: S_def T_def)
  have cS: "unat (scast spot :: u128) = S" and cT: "unat (scast target :: u128) = T"
    using unat_scast_nonneg [of spot] unat_scast_nonneg [of target] spot target by (simp_all add: S_def T_def)
  have num: "unat (scast spot * 1000000000000000000 :: u128) = S * 10 ^ 18"
    using S(2) by (subst unat_mult_nowrap) (simp_all add: cS)
  define Q where "Q = S * 10 ^ 18 div T"
  have nz: "(scast target :: u128) \<noteq> 0" using cT T(3) by auto
  have quo: "checked_div (scast spot * 1000000000000000000) (scast target) = Ret (scast spot * 1000000000000000000 div scast target)"
    using nz by (simp add: checked_div_def)
  obtain r where r: "integer_sqrt (scast spot * 1000000000000000000 div scast target) = Ret r" "unat r * unat r \<le> Q" "Q < (unat r + 1) * (unat r + 1)"
    using integer_sqrt_correct [of "scast spot * 1000000000000000000 div scast target"] by (auto simp: unat_div_distrib num cT Q_def)
  have Q1: "Q * T \<le> S * 10 ^ 18" and Q2: "S * 10 ^ 18 < (Q + 1) * T" using div_bounds [OF T(3), of "S * 10 ^ 18"] by (simp_all only: Q_def)
  have "S \<le> 4 * T" using near S(1) T(1) by linarith
  then have "S * 10 ^ 18 \<le> (4 * T) * 10 ^ 18" by (rule mult_right_mono) simp
  with Q1 have "Q * T \<le> (4 * T) * 10 ^ 18" by (rule order_trans)
  then have "Q * T \<le> (4 * 10 ^ 18) * T" by (simp only: ac_simps)
  then have "Q \<le> 4 * 10 ^ 18" using T(3) unfolding mult_le_cancel2 by blast
  then have "unat r * unat r \<le> (2 * 10 ^ 9) * (2 * 10 ^ 9)" using r(2) by simp
  then have R: "unat r \<le> 2 * 10 ^ 9" using power2_le_imp_le [of "unat r" "2 * 10 ^ 9"] by (simp add: power2_eq_square)
  have "X * unat r < 2 ^ 128"
    using mult_le_mono [of X "2 ^ 97" "unat r" "2 * 10 ^ 9"] res R by (simp add: X_def)
  then have prod: "unat (reserve * r) = X * unat r" by (subst unat_mult_nowrap) (simp_all add: X_def)
  define B where "B = X * unat r div 10 ^ 9"
  have tb: "unat (reserve * r div 1000000000) = B" by (simp add: unat_div_distrib prod B_def)
  have B1: "B * 10 ^ 9 \<le> X * unat r" and B2: "X * unat r < (B + 1) * 10 ^ 9" using div_bounds [of "10 ^ 9" "X * unat r"] by (simp_all only: B_def) simp_all
  have "(B * 10 ^ 9) * (B * 10 ^ 9) * T \<le> (X * unat r) * (X * unat r) * T" by (intro mult_le_mono B1 order_refl)
  also have "\<dots> = X * X * (unat r * unat r * T)" by (simp add: algebra_simps)
  also have "\<dots> \<le> X * X * (Q * T)" using r(2) by (intro mult_le_mono order_refl) simp
  also have "\<dots> \<le> X * X * (S * 10 ^ 18)" by (rule mult_le_mono [OF order_refl Q1])
  finally have lower: "B * B * T \<le> X * X * S" by simp
  have "S * 10 ^ 18 < (Q + 1) * T" by (rule Q2)
  also have "\<dots> \<le> (unat r + 1) * (unat r + 1) * T" using r(3) by (intro mult_le_mono order_refl) simp
  finally have "S * 10 ^ 18 < (unat r + 1) * (unat r + 1) * T" .
  then have "X * X * (S * 10 ^ 18) \<le> X * X * ((unat r + 1) * (unat r + 1) * T)" by (intro mult_le_mono [OF order_refl] less_imp_le)
  also have "\<dots> = (X * unat r + X) * (X * unat r + X) * T" by (simp add: algebra_simps)
  also have "\<dots> < ((B + 1) * 10 ^ 9 + X) * ((B + 1) * 10 ^ 9 + X) * T"
    using B2 T(3) by (intro mult_strict_right_mono mult_strict_mono') simp_all
  finally have "X * X * S * 10 ^ 18 < ((B + 1) * 10 ^ 9 + X)\<^sup>2 * T" by (simp add: power2_eq_square mult.assoc)
  then show ?thesis using lower r(1) tb by (simp add: v2_target_base_def quo S_def T_def X_def)
qed

text \<open>C29: The virtual ladder of a constant-product pool follows the curve: for a target price within a factor of
  four of the spot price and a reserve below \<open>2 ^ 97\<close>, the base reserve computed for the target never lies
  above the curve \<open>x\<^sup>2 p = const\<close>, and misses it by less than one unit plus a billionth of the reserve. No
  division by zero and no overflow happens on the way.\<close>

theorem v2_constant_product:
  assumes "0 < sint spot" and "0 < sint target" and "sint spot \<le> 4 * sint target" and "unat reserve < 2 ^ 97"
  shows "\<exists>tb. v2_target_base reserve spot target = Ret tb \<and>
    unat tb * unat tb * unat target \<le> unat reserve * unat reserve * unat spot \<and>
    unat reserve * unat reserve * unat spot * 10 ^ 18 < ((unat tb + 1) * 10 ^ 9 + unat reserve)\<^sup>2 * unat target"
  by (rule v2_target_base_bounds [OF assms])

theorem v2_constant_product_witness:
  "\<exists>tb. v2_target_base 1000000000000000000000 200000000000 202000000000 = Ret tb \<and>
     unat tb * unat tb * 202000000000 \<le> (1000000000000000000000 :: nat) * 1000000000000000000000 * 200000000000"
  using v2_constant_product [of 200000000000 202000000000 1000000000000000000000] by auto

section \<open>Virtual asks bypass the best-ask cache\<close>

lemma write_ask_idx: "best_ask_idx (write_ask b p q t) = best_ask_idx b \<and> bids (write_ask b p q t) = bids b \<and>
    base_price (write_ask b p q t) = base_price b \<and> best_bid_idx (write_ask b p q t) = best_bid_idx b"
  by (simp add: write_ask_def Let_def)

lemma update_bid_asks: "best_ask_idx (update_bid b p q c t) = best_ask_idx b \<and> asks (update_bid b p q c t) = asks b"
  by (simp add: update_bid_def recalculate_best_bid_def Let_def split: option.split)

lemma foldl_preserves: "(\<And>s x. f (h s x) = f s) \<Longrightarrow> f (foldl h s xs) = f s"
  by (induction xs arbitrary: s) simp_all

lemma v4_best_ask_idx: "best_ask_idx (v4_populate_virtual_order_book p book ticks ts) = best_ask_idx book"
proof -
  have a: "best_ask_idx (fst (v4_ask_tick p spot fee ts st tick)) = best_ask_idx (fst st)" for spot fee st tick
    by (cases st) (simp add: v4_ask_tick_def Let_def write_ask_idx)
  have b: "best_ask_idx (fst (v4_bid_tick p spot fee ts st tick)) = best_ask_idx (fst st)" for spot fee st tick
    by (cases st) (simp add: v4_bid_tick_def Let_def update_bid_asks)
  have "best_ask_idx (fst (foldl (v4_ask_tick p spot fee ts) st xs)) = best_ask_idx (fst st)" for spot fee st xs
    by (rule foldl_preserves [where f = "\<lambda>st. best_ask_idx (fst st)"]) (rule a)
  moreover have "best_ask_idx (fst (foldl (v4_bid_tick p spot fee ts) st xs)) = best_ask_idx (fst st)" for spot fee st xs
    by (rule foldl_preserves [where f = "\<lambda>st. best_ask_idx (fst st)"]) (rule b)
  ultimately show ?thesis by (simp add: v4_populate_virtual_order_book_def Let_def case_prod_beta)
qed

lemma cl_best_ask_idx: "best_ask_idx (cl_populate_order_book p book ticks ts) = best_ask_idx book"
proof -
  have a: "best_ask_idx (fst (cl_ask_tick p spot ts st tick)) = best_ask_idx (fst st)" for spot st tick
    by (cases st) (simp add: cl_ask_tick_def Let_def write_ask_idx)
  have b: "best_ask_idx (fst (cl_bid_tick p spot ts st tick)) = best_ask_idx (fst st)" for spot st tick
    by (cases st) (simp add: cl_bid_tick_def Let_def update_bid_asks)
  have "best_ask_idx (fst (foldl (cl_ask_tick p spot ts) st xs)) = best_ask_idx (fst st)" for spot st xs
    by (rule foldl_preserves [where f = "\<lambda>st. best_ask_idx (fst st)"]) (rule a)
  moreover have "best_ask_idx (fst (foldl (cl_bid_tick p spot ts) st xs)) = best_ask_idx (fst st)" for spot st xs
    by (rule foldl_preserves [where f = "\<lambda>st. best_ask_idx (fst st)"]) (rule b)
  ultimately show ?thesis by (simp add: cl_populate_order_book_def Let_def case_prod_beta)
qed

text \<open>Asks of concentrated-liquidity pools are invisible at the top of the book: whatever ticks a pool is
  populated from, the two virtualizers never move the cached best-ask index, so a fresh book reports a best ask
  only from its last level; every other ask they write, however low its price, is not reported.\<close>

theorem virtual_asks_invisible:
  "bbo_ask (cl_populate_order_book p (book_new base) ticks ts) =
     (let l = asks (cl_populate_order_book p (book_new base) ticks ts) ! 2047 in if level_quantity l > 0 then Some l else None) \<and>
   bbo_ask (v4_populate_virtual_order_book q (book_new base) ticks ts) =
     (let l = asks (v4_populate_virtual_order_book q (book_new base) ticks ts) ! 2047 in if level_quantity l > 0 then Some l else None)"
  by (simp add: bbo_ask_def cl_best_ask_idx v4_best_ask_idx book_new_def PRICE_LEVELS_COUNT_def)

text \<open>C28: The pool's integer square root is exact and total: for every 128-bit number the Newton iteration ends,
  divides by zero nowhere, and returns the floor of the square root.\<close>

theorem integer_sqrt_floor:
  "\<exists>r. integer_sqrt n = Ret r \<and> unat r * unat r \<le> unat n \<and> unat n < (unat r + 1) * (unat r + 1)"
  by (rule integer_sqrt_correct)

end
