(* ===== verification/Onchain_Sim.thy ===== *)
theory Onchain_Sim
  imports Amm_Pools Ingest_Models
begin

text \<open>
  The speculative sandbox of \<open>src/crates/onchain-ingest/src/lib.rs\<close>: a pending swap run against a copy of a
  constant-product pool, and the Raydium account parser.
\<close>

section \<open>Pending swaps\<close>

record PendingMempoolTx =
  ptx_hash :: bytes
  ptx_chain_id :: u16
  target_pool :: bytes
  gas_priority_fee_gwei :: u32
  is_buy :: bool
  amount_in :: u128
  min_amount_out :: u128
  detected_ts_ns :: u64

record SpeculativeShiftEvent =
  pool_address :: bytes
  predicted_spot_price :: i64
  price_impact_bps :: u16
  shift_tx_hash :: bytes
  priority_fee_gwei :: u32

text \<open>One branch of the swap: the reserves on the paying and on the receiving side.\<close>

definition swap_reserves :: "UniswapV2Pool \<Rightarrow> u128 \<Rightarrow> u128 \<Rightarrow> u128 \<Rightarrow> u128 \<times> u128" where
  "swap_reserves pool amount reserve_in reserve_out =
     (let amount_in_with_fee = amount * fee_numerator pool;
          numerator = amount_in_with_fee * reserve_out;
          denominator = reserve_in * fee_denominator pool + amount_in_with_fee
      in if denominator > 0
         then let amount_out = numerator div denominator
              in if reserve_out > amount_out then (reserve_in + amount, reserve_out - amount_out)
                 else (reserve_in, reserve_out)
         else (reserve_in, reserve_out))"

definition swapped_pool :: "PendingMempoolTx \<Rightarrow> UniswapV2Pool \<Rightarrow> UniswapV2Pool" where
  "swapped_pool tx pool =
     (if is_buy tx
      then case swap_reserves pool (amount_in tx) (reserve_quote pool) (reserve_base pool) of
             (q, b) \<Rightarrow> pool\<lparr>reserve_base := b, reserve_quote := q\<rparr>
      else case swap_reserves pool (amount_in tx) (reserve_base pool) (reserve_quote pool) of
             (b, q) \<Rightarrow> pool\<lparr>reserve_base := b, reserve_quote := q\<rparr>)"

definition impact_bps :: "i64 \<Rightarrow> i64 \<Rightarrow> u16" where
  "impact_bps spot_before spot_after =
     (if sint spot_after > sint spot_before then ucast (sdivide ((spot_after - spot_before) * 10000) spot_before)
      else if sint spot_before > sint spot_after then ucast (sdivide ((spot_before - spot_after) * 10000) spot_before)
      else 0)"

definition simulate_pending_swap :: "PendingMempoolTx \<Rightarrow> UniswapV2Pool \<Rightarrow> SpeculativeShiftEvent option outcome" where
  "simulate_pending_swap tx pool =
     and_ret (v2_spot_price_scaled pool) (\<lambda>spot_before.
     if sint spot_before \<le> 0 then Ret None
     else and_ret (v2_spot_price_scaled (swapped_pool tx pool)) (\<lambda>spot_after.
          Ret (Some \<lparr>pool_address = target_pool tx, predicted_spot_price = spot_after,
                     price_impact_bps = impact_bps spot_before spot_after, shift_tx_hash = ptx_hash tx,
                     priority_fee_gwei = gas_priority_fee_gwei tx\<rparr>)))"

section \<open>Raydium accounts\<close>

definition parse_raydium_clmm_account :: "u32 \<Rightarrow> bytes \<Rightarrow> bytes \<Rightarrow> u64 \<Rightarrow> u64 \<Rightarrow> string + NormalizedBbo" where
  "parse_raydium_clmm_account market_id account_pubkey data slot t1_ingest_ns =
     (if length data < 64 then Inl ''Payload too short for Raydium CLMM state''
      else let raw_price = (from_le (subslice data 16 8) :: u64);
               bid = ssaturating_mul raw_price 100;
               ask = bid + sdivide (bid * 5) 10000
           in Inr \<lparr>bbo_telemetry = \<lparr>t0_exchange_ns = slot * 400000000, t1_ingest_nic_ns = t1_ingest_ns,
                                     t2_engine_proc_ns = 0, t3_egress_ns = 0\<rparr>,
                   bbo_market_id = market_id, bbo_venue = venue_code Raydium, bbo_chain = chain_code Solana,
                   bbo_sequence = slot, bid_price = bid, bid_qty = 10000000000, ask_price = ask,
                   ask_qty = 10000000000, spread_bps = 5, bbo_flags = 1\<rparr>)"

section \<open>The product of the reserves\<close>

lemma constant_product_nat:
  fixes a f d x y :: nat
  assumes "f \<le> d" and "a * f * x div (y * d + a * f) \<le> x"
  shows "y * x \<le> (y + a) * (x - a * f * x div (y * d + a * f))"
proof -
  define out where "out = a * f * x div (y * d + a * f)"
  have le: "out * (y * d + a * f) \<le> a * f * x" by (simp add: out_def)
  have "out * (y + a) \<le> a * x"
  proof (cases "f = 0")
    case True
    then show ?thesis by (simp add: out_def)
  next
    case False
    have "out * (y + a) * f \<le> out * (y * d + a * f)" using assms(1) by (simp add: algebra_simps)
    also note le
    finally have "out * (y + a) * f \<le> a * x * f" by (simp add: algebra_simps)
    then show ?thesis using False by simp
  qed
  then have "y * x + (y + a) * out \<le> (y + a) * x" by (simp add: algebra_simps)
  then have "y * x \<le> (y + a) * (x - out)" unfolding diff_mult_distrib2 by linarith
  then show ?thesis by (simp only: out_def)
qed

text \<open>No overflow on the way of a swap.\<close>

definition swap_fits :: "UniswapV2Pool \<Rightarrow> u128 \<Rightarrow> u128 \<Rightarrow> u128 \<Rightarrow> bool" where
  "swap_fits pool a r_in r_out \<longleftrightarrow>
     unat a * unat (fee_numerator pool) * unat r_out < 2 ^ 128 \<and> unat a * unat (fee_numerator pool) < 2 ^ 128 \<and>
     unat r_in * unat (fee_denominator pool) + unat a * unat (fee_numerator pool) < 2 ^ 128 \<and> unat r_in + unat a < 2 ^ 128"

lemma swap_reserves_product:
  assumes fits: "swap_fits pool a r_in r_out" and fee: "unat (fee_numerator pool) \<le> unat (fee_denominator pool)"
    and res: "swap_reserves pool a r_in r_out = (r_in', r_out')"
  shows "unat r_in * unat r_out \<le> unat r_in' * unat r_out' \<and> r_in \<le> r_in' \<and> r_out' \<le> r_out \<and> (0 < r_out \<longrightarrow> 0 < r_out')"
proof -
  let ?af = "a * fee_numerator pool" and ?den = "r_in * fee_denominator pool + a * fee_numerator pool"
  have af: "unat ?af = unat a * unat (fee_numerator pool)" using fits by (intro unat_mult_nowrap) (simp add: swap_fits_def)
  have num: "unat (?af * r_out) = unat a * unat (fee_numerator pool) * unat r_out"
    using fits by (subst unat_mult_nowrap) (simp_all add: af swap_fits_def)
  have rd: "unat (r_in * fee_denominator pool) = unat r_in * unat (fee_denominator pool)"
    using fits by (intro unat_mult_nowrap) (simp add: swap_fits_def)
  have den: "unat ?den = unat r_in * unat (fee_denominator pool) + unat a * unat (fee_numerator pool)"
    using fits by (subst unat_add_nowrap) (simp_all add: af rd swap_fits_def)
  let ?out = "?af * r_out div ?den"
  have out: "unat ?out = unat a * unat (fee_numerator pool) * unat r_out div (unat r_in * unat (fee_denominator pool) + unat a * unat (fee_numerator pool))"
    by (simp add: unat_div_distrib num den)
  show ?thesis
  proof (cases "?den > 0 \<and> r_out > ?out")
    case True
    then have r: "r_in' = r_in + a" "r_out' = r_out - ?out" using res by (simp_all add: swap_reserves_def Let_def)
    have lt: "unat ?out < unat r_out" using True by (simp add: word_less_nat_alt)
    have ui: "unat r_in' = unat r_in + unat a" unfolding r using fits by (intro unat_add_nowrap) (simp add: swap_fits_def)
    have uo: "unat r_out' = unat r_out - unat ?out" unfolding r using lt by (intro unat_sub_nowrap) (simp add: word_le_nat_alt)
    have "unat r_in * unat r_out \<le> unat r_in' * unat r_out'"
      using constant_product_nat [OF fee, of "unat a" "unat r_out" "unat r_in"] lt by (simp add: ui uo out)
    then show ?thesis using ui uo lt by (simp add: word_le_nat_alt word_less_nat_alt)
  next
    case False
    then have "r_in' = r_in" "r_out' = r_out" using res by (auto simp: swap_reserves_def Let_def split: if_splits)
    then show ?thesis by simp
  qed
qed

text \<open>C30: A simulated swap respects the pool: with a fee of at most one hundred percent and numbers that do not
  overflow, the product of the two reserves never falls, the side the trader pays into never falls, the side
  it is paid from never rises and is never drained, in both directions.\<close>

theorem pending_swap_product:
  assumes "unat (fee_numerator pool) \<le> unat (fee_denominator pool)"
    and "is_buy tx \<Longrightarrow> swap_fits pool (amount_in tx) (reserve_quote pool) (reserve_base pool)"
    and "\<not> is_buy tx \<Longrightarrow> swap_fits pool (amount_in tx) (reserve_base pool) (reserve_quote pool)"
  shows "unat (reserve_base pool) * unat (reserve_quote pool)
      \<le> unat (reserve_base (swapped_pool tx pool)) * unat (reserve_quote (swapped_pool tx pool)) \<and>
    (if is_buy tx then reserve_base (swapped_pool tx pool) \<le> reserve_base pool \<and> reserve_quote pool \<le> reserve_quote (swapped_pool tx pool)
     else reserve_quote (swapped_pool tx pool) \<le> reserve_quote pool \<and> reserve_base pool \<le> reserve_base (swapped_pool tx pool)) \<and>
    (0 < reserve_base pool \<longrightarrow> 0 < reserve_base (swapped_pool tx pool)) \<and> (0 < reserve_quote pool \<longrightarrow> 0 < reserve_quote (swapped_pool tx pool))"
proof (cases "is_buy tx")
  case True
  obtain q b where s: "swap_reserves pool (amount_in tx) (reserve_quote pool) (reserve_base pool) = (q, b)" by (metis prod.exhaust)
  show ?thesis
    using swap_reserves_product [OF assms(2) [OF True] assms(1) s] True
    by (auto simp: swapped_pool_def s mult.commute intro: less_le_trans)
next
  case False
  obtain b q where s: "swap_reserves pool (amount_in tx) (reserve_base pool) (reserve_quote pool) = (b, q)" by (metis prod.exhaust)
  show ?thesis
    using swap_reserves_product [OF assms(3) [OF False] assms(1) s] False
    by (auto simp: swapped_pool_def s intro: less_le_trans)
qed

definition demo_swap :: PendingMempoolTx where
  "demo_swap = \<lparr>ptx_hash = [], ptx_chain_id = 1, target_pool = [], gas_priority_fee_gwei = 2, is_buy = True,
     amount_in = 5000000, min_amount_out = 0, detected_ts_ns = 0\<rparr>"

theorem pending_swap_product_witness:
  "unat (reserve_base (swapped_pool demo_swap (v2_new 1000000 2000000000 30))) * unat (reserve_quote (swapped_pool demo_swap (v2_new 1000000 2000000000 30)))
     \<ge> 2000000000000000"
  using pending_swap_product [of "v2_new 1000000 2000000000 30" demo_swap] by (simp add: v2_new_def demo_swap_def swap_fits_def)

end
