(* ===== verification/Curve_Pool.thy ===== *)
theory Curve_Pool
  imports Amm_Pools
begin

text \<open>
  The stableswap engine of \<open>src/crates/amm-virtualizer/src/curve.rs\<close>: a 256-bit integer of two 128-bit
  halves with schoolbook multiplication and restoring division, and the Newton solvers for the invariant
  and for an output balance.
\<close>

section \<open>256-bit integers\<close>

record U256 =
  hi :: u128
  lo :: u128

definition U256_ZERO :: U256 where "U256_ZERO = \<lparr>hi = 0, lo = 0\<rparr>"
definition U256_ONE :: U256 where "U256_ONE = \<lparr>hi = 0, lo = 1\<rparr>"

definition from_u128 :: "u128 \<Rightarrow> U256" where "from_u128 v = \<lparr>hi = 0, lo = v\<rparr>"
definition as_u128 :: "U256 \<Rightarrow> u128" where "as_u128 a = lo a"

definition u256_is_zero :: "U256 \<Rightarrow> bool" where
  "u256_is_zero a \<longleftrightarrow> hi a = 0 \<and> lo a = 0"

text \<open>\<open>overflowing_add\<close> and \<open>overflowing_sub\<close>.\<close>

definition overflowing_add :: "u128 \<Rightarrow> u128 \<Rightarrow> u128 \<times> bool" where
  "overflowing_add a b = (a + b, 2 ^ 128 \<le> unat a + unat b)"

definition overflowing_sub :: "u128 \<Rightarrow> u128 \<Rightarrow> u128 \<times> bool" where
  "overflowing_sub a b = (a - b, a < b)"

definition u256_add :: "U256 \<Rightarrow> U256 \<Rightarrow> U256" where
  "u256_add a b =
     (let (l, carry) = overflowing_add (lo a) (lo b)
      in \<lparr>hi = hi a + hi b + (if carry then 1 else 0), lo = l\<rparr>)"

definition u256_sub :: "U256 \<Rightarrow> U256 \<Rightarrow> U256" where
  "u256_sub a b =
     (let (l, borrow) = overflowing_sub (lo a) (lo b)
      in \<lparr>hi = hi a - hi b - (if borrow then 1 else 0), lo = l\<rparr>)"

definition mul_u128 :: "U256 \<Rightarrow> u128 \<Rightarrow> U256" where
  "mul_u128 a b =
     (let lo_lo = take_bit 64 (lo a); lo_hi = drop_bit 64 (lo a);
          o_lo = take_bit 64 b; o_hi = drop_bit 64 b;
          p0 = lo_lo * o_lo; p1 = lo_lo * o_hi; p2 = lo_hi * o_lo; p3 = lo_hi * o_hi;
          (mid, c1) = overflowing_add p1 p2;
          mid_lo = take_bit 64 mid;
          mid_hi = drop_bit 64 mid + (if c1 then push_bit 64 1 else 0);
          (l, c2) = overflowing_add p0 (push_bit 64 mid_lo)
      in \<lparr>hi = p3 + mid_hi + hi a * b + (if c2 then 1 else 0), lo = l\<rparr>)"

definition u256_mul :: "U256 \<Rightarrow> U256 \<Rightarrow> U256" where
  "u256_mul a b = (let res = mul_u128 a (lo b) in res\<lparr>hi := hi res + lo a * hi b\<rparr>)"

text \<open>The derived order compares the high halves first.\<close>

definition u256_less :: "U256 \<Rightarrow> U256 \<Rightarrow> bool" where
  "u256_less a b \<longleftrightarrow> hi a < hi b \<or> (hi a = hi b \<and> lo a < lo b)"

definition u256_le :: "U256 \<Rightarrow> U256 \<Rightarrow> bool" where
  "u256_le a b \<longleftrightarrow> \<not> u256_less b a"

definition shift_left_1 :: "U256 \<Rightarrow> U256" where
  "shift_left_1 a = \<lparr>hi = push_bit 1 (hi a) OR drop_bit 127 (lo a), lo = push_bit 1 (lo a)\<rparr>"

definition get_bit :: "U256 \<Rightarrow> nat \<Rightarrow> bool" where
  "get_bit a n = (if n < 128 then drop_bit n (lo a) AND 1 = 1 else drop_bit (n - 128) (hi a) AND 1 = 1)"

definition u256_set_bit :: "U256 \<Rightarrow> nat \<Rightarrow> U256" where
  "u256_set_bit a n = (if n < 128 then a\<lparr>lo := lo a OR push_bit n 1\<rparr> else a\<lparr>hi := hi a OR push_bit (n - 128) 1\<rparr>)"

text \<open>One round of the division loop; the loop runs over the bits from 255 down.\<close>

definition div_round :: "U256 \<Rightarrow> U256 \<Rightarrow> U256 \<times> U256 \<Rightarrow> nat \<Rightarrow> U256 \<times> U256" where
  "div_round a b = (\<lambda>(quotient, remainder) i.
     let remainder = shift_left_1 remainder;
         remainder = (if get_bit a i then remainder\<lparr>lo := lo remainder OR 1\<rparr> else remainder)
     in if u256_le b remainder then (u256_set_bit quotient i, u256_sub remainder b) else (quotient, remainder))"

definition u256_div :: "U256 \<Rightarrow> U256 \<Rightarrow> U256 outcome" where
  "u256_div a b =
     (if u256_is_zero b then Panic
      else if u256_less a b then Ret U256_ZERO
      else if b = U256_ONE then Ret a
      else Ret (fst (foldl (div_round a b) (U256_ZERO, U256_ZERO) (rev [0..<256]))))"

section \<open>The pool\<close>

definition MAX_COINS :: nat where "MAX_COINS = 3"

record CurvePool =
  n_coins :: nat
  raw_reserves :: "u128 list"
  multipliers :: "u128 list"
  amp_a :: u128
  curve_fee_bps :: u16

text \<open>The multiplier of a token; the difference of the \<open>u8\<close> decimals wraps.\<close>

definition decimals_multiplier :: "u8 \<Rightarrow> u128" where
  "decimals_multiplier d = 10 ^ unat (18 - d)"

definition new_2pool :: "u128 \<Rightarrow> u128 \<Rightarrow> u8 \<Rightarrow> u8 \<Rightarrow> u128 \<Rightarrow> u16 \<Rightarrow> CurvePool" where
  "new_2pool r0 r1 d0 d1 a fee_bps =
     \<lparr>n_coins = 2, raw_reserves = [r0, r1, 0], multipliers = [decimals_multiplier d0, decimals_multiplier d1, 1],
      amp_a = a, curve_fee_bps = fee_bps\<rparr>"

definition new_3pool :: "u128 \<Rightarrow> u128 \<Rightarrow> u128 \<Rightarrow> u8 \<Rightarrow> u8 \<Rightarrow> u8 \<Rightarrow> u128 \<Rightarrow> u16 \<Rightarrow> CurvePool" where
  "new_3pool r0 r1 r2 d0 d1 d2 a fee_bps =
     \<lparr>n_coins = 3, raw_reserves = [r0, r1, r2],
      multipliers = [decimals_multiplier d0, decimals_multiplier d1, decimals_multiplier d2],
      amp_a = a, curve_fee_bps = fee_bps\<rparr>"

definition normalized_reserves :: "CurvePool \<Rightarrow> u128 list" where
  "normalized_reserves p =
     map (\<lambda>i. if i < n_coins p then raw_reserves p ! i * multipliers p ! i else 0) [0..<MAX_COINS]"

definition n_pow_n :: "CurvePool \<Rightarrow> u128" where
  "n_pow_n p = (if n_coins p = 2 then 4 else 27)"

text \<open>A result that may be absent, of a computation that may panic.\<close>

definition and_some :: "'a option outcome \<Rightarrow> ('a \<Rightarrow> 'b option outcome) \<Rightarrow> 'b option outcome" where
  "and_some r f = and_ret r (\<lambda>x. case x of None \<Rightarrow> Ret None | Some v \<Rightarrow> f v)"

text \<open>The division of a product by a denominator, with the early return on a zero denominator.\<close>

definition mul_div :: "U256 \<Rightarrow> U256 \<Rightarrow> U256 \<Rightarrow> U256 option outcome" where
  "mul_div a b denom =
     (if u256_is_zero denom then Ret None else and_ret (u256_div (u256_mul a b) denom) (\<lambda>q. Ret (Some q)))"

fun d_product :: "U256 \<Rightarrow> U256 \<Rightarrow> U256 \<Rightarrow> u128 list \<Rightarrow> U256 option outcome" where
  "d_product n_u d d_p [] = Ret (Some d_p)"
| "d_product n_u d d_p (x # xs) = and_some (mul_div d_p d (u256_mul (from_u128 x) n_u)) (\<lambda>d_p. d_product n_u d d_p xs)"

definition u256_close :: "U256 \<Rightarrow> U256 \<Rightarrow> bool" where
  "u256_close a b = (if u256_less b a then u256_le (u256_sub a b) U256_ONE else u256_le (u256_sub b a) U256_ONE)"

text \<open>The Newton loop for \<open>D\<close>, with the number of rounds left.\<close>

fun d_loop :: "nat \<Rightarrow> U256 \<Rightarrow> U256 \<Rightarrow> U256 \<Rightarrow> u128 list \<Rightarrow> U256 \<Rightarrow> u128 option outcome" where
  "d_loop 0 ann_u s_u n_u xs d = Ret (Some (as_u128 d))"
| "d_loop (Suc k) ann_u s_u n_u xs d =
     and_some (d_product n_u d d xs) (\<lambda>d_p.
     let numerator = u256_mul (u256_add (u256_mul ann_u s_u) (u256_mul d_p n_u)) d;
         denominator = u256_add (u256_mul (u256_sub ann_u U256_ONE) d) (u256_mul (u256_add n_u U256_ONE) d_p)
     in if u256_is_zero denominator then Ret None
        else and_ret (u256_div numerator denominator) (\<lambda>d'.
             if u256_close d' d then Ret (Some (as_u128 d')) else d_loop k ann_u s_u n_u xs d'))"

definition get_d :: "CurvePool \<Rightarrow> u128 list \<Rightarrow> u128 option outcome" where
  "get_d p xp =
     (let xs = map (\<lambda>i. xp ! i) [0..<n_coins p];
          s = foldl (+) 0 xs
      in if s = 0 then Ret (Some 0)
         else d_loop 255 (from_u128 (amp_a p * n_pow_n p)) (from_u128 s) (from_u128 (of_nat (n_coins p))) xs (from_u128 s))"

text \<open>The balances other than \<open>j\<close>, with \<open>x\<close> at \<open>i\<close>, in the order of the loop.\<close>

definition other_balances :: "CurvePool \<Rightarrow> nat \<Rightarrow> nat \<Rightarrow> u128 \<Rightarrow> u128 list \<Rightarrow> u128 list" where
  "other_balances p i j x xp = map (\<lambda>k. if k = i then x else xp ! k) (filter (\<lambda>k. k = i \<or> k \<noteq> j) [0..<n_coins p])"

fun y_loop :: "nat \<Rightarrow> U256 \<Rightarrow> U256 \<Rightarrow> U256 \<Rightarrow> U256 \<Rightarrow> u128 option outcome" where
  "y_loop 0 b c d y = Ret (Some (as_u128 y))"
| "y_loop (Suc k) b c d y =
     (let numerator = u256_add (u256_mul y y) c;
          denom_sum = u256_add (u256_mul (from_u128 2) y) b
      in if u256_le denom_sum d then Ret None
         else and_ret (u256_div numerator (u256_sub denom_sum d)) (\<lambda>y'.
              if u256_close y' y then Ret (Some (as_u128 y')) else y_loop k b c d y'))"

definition get_y :: "CurvePool \<Rightarrow> nat \<Rightarrow> nat \<Rightarrow> u128 \<Rightarrow> u128 list \<Rightarrow> u128 option outcome" where
  "get_y p i j x xp =
     (if i = j \<or> n_coins p \<le> i \<or> n_coins p \<le> j then Ret None
      else and_some (get_d p xp) (\<lambda>d_val.
        let d = from_u128 d_val; ann_u = from_u128 (amp_a p * n_pow_n p); n_u = from_u128 (of_nat (n_coins p));
            xs = other_balances p i j x xp;
            s = foldl (+) 0 xs
        in and_some (d_product n_u d d xs) (\<lambda>c.
           and_some (mul_div c d (u256_mul ann_u n_u)) (\<lambda>c.
           and_ret (u256_div d ann_u) (\<lambda>q. y_loop 255 (u256_add (from_u128 s) q) c d d)))))"

definition calculate_swap_output :: "CurvePool \<Rightarrow> nat \<Rightarrow> nat \<Rightarrow> u128 \<Rightarrow> u128 option outcome" where
  "calculate_swap_output p i j dx =
     (if MAX_COINS \<le> i then Panic
      else let xp = normalized_reserves p;
               dx_norm = dx * multipliers p ! i;
               new_x = xp ! i + dx_norm
           in and_some (get_y p i j new_x xp) (\<lambda>new_y.
              if xp ! j > new_y
              then let dy_norm = xp ! j - new_y;
                       fee_norm = (dy_norm * ucast (curve_fee_bps p)) div 10000;
                       dy_net_norm = saturating_sub dy_norm fee_norm
                   in and_ret (checked_div dy_net_norm (multipliers p ! j)) (\<lambda>dy. Ret (Some dy))
              else Ret None))"

definition curve_spot_price_scaled :: "CurvePool \<Rightarrow> nat \<Rightarrow> nat \<Rightarrow> i64 outcome" where
  "curve_spot_price_scaled p i j =
     (if MAX_COINS \<le> i then Panic
      else and_ret (checked_div (10 ^ 18) (multipliers p ! i)) (\<lambda>unit_dx.
           and_ret (calculate_swap_output p i j unit_dx) (\<lambda>r. case r of
             Some dy \<Rightarrow> Ret (ucast ((dy * multipliers p ! j * 100000000) div 10 ^ 18))
           | None \<Rightarrow> Ret 100000000)))"

definition curve_band ::
  "CurvePool \<Rightarrow> nat \<Rightarrow> nat \<Rightarrow> i64 \<Rightarrow> u64 \<Rightarrow> ContiguousOrderBook \<Rightarrow> u16 \<Rightarrow> ContiguousOrderBook outcome" where
  "curve_band p i j spot ts_ns book bps =
     (let target_ask = spot + sdivide (spot * ucast bps) 10000;
          target_bid = ssaturating_sub spot (sdivide (spot * ucast bps) 10000);
          dx_chunk = (raw_reserves p ! i * ucast bps) div 10000
      in and_ret (calculate_swap_output p i j dx_chunk) (\<lambda>r. case r of
           None \<Rightarrow> Ret book
         | Some dy \<Rightarrow>
             let qty_scaled = ucast ((dy * multipliers p ! j * 100000000) div 10 ^ 18);
                 book = write_ask book target_ask qty_scaled ts_ns
             in Ret (if sint target_bid > 0 then update_bid book target_bid qty_scaled 1 ts_ns else book)))"

definition curve_populate_virtual_order_book ::
  "CurvePool \<Rightarrow> ContiguousOrderBook \<Rightarrow> nat \<Rightarrow> nat \<Rightarrow> u16 list \<Rightarrow> u64 \<Rightarrow> ContiguousOrderBook outcome" where
  "curve_populate_virtual_order_book p book i j bands_bps ts_ns =
     and_ret (curve_spot_price_scaled p i j) (\<lambda>spot.
     if sint spot \<le> 0 then Ret book else foldl_ret (curve_band p i j spot ts_ns) book bands_bps)"

section \<open>What 256-bit arithmetic computes\<close>

definition u256_val :: "U256 \<Rightarrow> nat" where
  "u256_val a = unat (hi a) * 2 ^ 128 + unat (lo a)"

lemma u256_halves: "unat (hi a) < 2 ^ 128" "unat (lo a) < 2 ^ 128"
  using unat_less_power [of "hi a"] unat_less_power [of "lo a"] by simp_all

lemma u256_val_less: "u256_val a < 2 ^ 256"
  using u256_halves [of a] by (simp add: u256_val_def)

lemma u256_val_eqI:
  assumes "unat (lo x) = n mod 2 ^ 128" and "unat (hi x) = n div 2 ^ 128 mod 2 ^ 128"
  shows "u256_val x = n mod 2 ^ 256"
proof -
  have "n mod (2 ^ 128 * 2 ^ 128) = 2 ^ 128 * (n div 2 ^ 128 mod 2 ^ 128) + n mod 2 ^ 128" by (rule mod_mult2_eq)
  also have "2 ^ 128 * 2 ^ 128 = (2 ^ 256 :: nat)" by simp
  finally show ?thesis using assms by (simp only: u256_val_def mult.commute)
qed

lemma u256_val_split: "u256_val a div 2 ^ 128 = unat (hi a)" "u256_val a mod 2 ^ 128 = unat (lo a)"
  using u256_halves [of a] by (simp_all add: u256_val_def)

lemma u256_val_inject: "u256_val a = u256_val b \<Longrightarrow> a = b"
  using u256_val_split [of a] u256_val_split [of b] by (cases a; cases b) (auto simp: word_unat_eq_iff)

lemma unat_carry: "unat (if c then 1 else 0 :: u128) = (if c then 1 else 0)"
  by simp

lemma div_carry: "unat x < 2 ^ 128 \<Longrightarrow> unat y < 2 ^ 128 \<Longrightarrow>
    (unat x + unat y) div 2 ^ 128 = (if 2 ^ 128 \<le> unat x + unat y then 1 else 0)" for x y :: u128
  by (simp add: div_nat_eqI)

lemma u256_val_add: "u256_val (u256_add a b) = (u256_val a + u256_val b) mod 2 ^ 256"
proof (rule u256_val_eqI)
  let ?L = "unat (lo a) + unat (lo b)"
  have sum: "u256_val a + u256_val b = (unat (hi a) + unat (hi b)) * 2 ^ 128 + ?L" by (simp add: u256_val_def)
  show "unat (lo (u256_add a b)) = (u256_val a + u256_val b) mod 2 ^ 128"
    unfolding sum mod_mult_self3 by (simp add: u256_add_def overflowing_add_def unat_word_ariths)
  have c: "?L div 2 ^ 128 = (if 2 ^ 128 \<le> ?L then 1 else 0)" by (rule div_carry) (rule u256_halves)+
  have "(u256_val a + u256_val b) div 2 ^ 128 = unat (hi a) + unat (hi b) + ?L div 2 ^ 128" unfolding sum by simp
  also have "\<dots> mod 2 ^ 128 = unat (hi (u256_add a b))"
    unfolding c by (simp add: u256_add_def overflowing_add_def unat_word_ariths mod_simps)
  finally show "unat (hi (u256_add a b)) = (u256_val a + u256_val b) div 2 ^ 128 mod 2 ^ 128" by simp
qed

lemma u256_less_iff: "u256_less a b \<longleftrightarrow> u256_val a < u256_val b"
  using u256_halves [of a] u256_halves [of b]
  by (cases "hi a = hi b") (auto simp: u256_less_def u256_val_def word_less_nat_alt word_unat_eq_iff)

lemma u256_le_iff: "u256_le a b \<longleftrightarrow> u256_val a \<le> u256_val b"
  by (simp add: u256_le_def u256_less_iff not_less)

lemma u256_val_sub:
  assumes "u256_val b \<le> u256_val a"
  shows "u256_val (u256_sub a b) = u256_val a - u256_val b"
proof -
  have le: "unat (hi b) \<le> unat (hi a)" using assms u256_halves [of a] u256_halves [of b] by (simp add: u256_val_def)
  show ?thesis
  proof (cases "lo a < lo b")
    case True
    then have lt: "unat (lo a) < unat (lo b)" by (simp add: word_less_nat_alt)
    then have "unat (hi b) < unat (hi a)" using assms le by (auto simp: u256_val_def intro: le_neq_implies_less)
    moreover have "unat (lo a - lo b) = unat (lo a) + 2 ^ 128 - unat (lo b)" using lt by (simp add: unat_sub_if_size word_size)
    moreover have "unat (hi a - hi b - 1) = unat (hi a) - unat (hi b) - 1"
      using \<open>unat (hi b) < unat (hi a)\<close> by (simp add: unat_sub_if_size word_size)
    ultimately show ?thesis
      using True lt u256_halves [of b] by (simp add: u256_sub_def overflowing_sub_def u256_val_def diff_mult_distrib)
  next
    case False
    then have "unat (lo b) \<le> unat (lo a)" by (simp add: word_less_nat_alt)
    then show ?thesis
      using False le by (simp add: u256_sub_def overflowing_sub_def u256_val_def unat_sub_if_size diff_mult_distrib)
  qed
qed

lemma unat_take_bit: "unat (take_bit n x) = unat x mod 2 ^ n" for x :: u128
  by (metis take_bit_eq_mod unsigned_take_bit_eq)

lemma add_carry: "unat x + unat y = unat (x + y) + 2 ^ 128 * of_bool (2 ^ 128 \<le> unat x + unat y)" for x y :: u128
proof (cases "2 ^ 128 \<le> unat x + unat y")
  case True
  have "unat x + unat y - 2 ^ 128 < 2 ^ 128" using unat_less_power [of x] unat_less_power [of y] by simp
  then show ?thesis using True by (simp add: unat_word_ariths le_mod_geq)
qed (simp add: unat_word_ariths)

lemma less_pow64_mult: "x < 2 ^ 64 \<Longrightarrow> y < 2 ^ 64 \<Longrightarrow> x * y < (2 :: nat) ^ 128"
  using mult_strict_mono' [of x "2 ^ 64" y "2 ^ 64"] by simp

text \<open>The schoolbook product of two 128-bit numbers in 64-bit digits.\<close>

lemma len128: "LENGTH(128) = 128"
  by simp

lemma unat_high: "unat (x + y + z * u + v) = (unat x + unat y + unat z * unat u + unat v) mod 2 ^ 128" for x y z u v :: u128
  by (simp add: unat_word_ariths mod_simps)

lemma mul_u128_halves:
  fixes a :: U256 and b :: u128
  shows "unat (lo (mul_u128 a b)) = unat (lo a) * unat b mod 2 ^ 128"
    and "unat (hi (mul_u128 a b)) = (unat (hi a) * unat b + unat (lo a) * unat b div 2 ^ 128) mod 2 ^ 128"
proof -
  define a0 a1 b0 b1 where "a0 = unat (lo a) mod 2 ^ 64" and "a1 = unat (lo a) div 2 ^ 64" and "b0 = unat b mod 2 ^ 64" and "b1 = unat b div 2 ^ 64"
  have small: "a0 < 2 ^ 64" "a1 < 2 ^ 64" "b0 < 2 ^ 64" "b1 < 2 ^ 64"
    using u256_halves(2) [of a] unat_less_power [of b] by (simp_all add: a0_def a1_def b0_def b1_def div_less_iff_less_mult)
  have a: "unat (lo a) = a0 + 2 ^ 64 * a1" and b: "unat b = b0 + 2 ^ 64 * b1"
    using mult_div_mod_eq [of "2 ^ 64" "unat (lo a)"] mult_div_mod_eq [of "2 ^ 64" "unat b"] by (simp_all add: a0_def a1_def b0_def b1_def)
  let ?la = "take_bit 64 (lo a)" and ?lb = "drop_bit 64 (lo a)" and ?oa = "take_bit 64 b" and ?ob = "drop_bit 64 b"
  have d: "unat ?la = a0" "unat ?lb = a1" "unat ?oa = b0" "unat ?ob = b1"
    by (simp_all add: unat_take_bit unat_drop_bit a0_def a1_def b0_def b1_def)
  have p: "unat (?la * ?oa) = a0 * b0" "unat (?la * ?ob) = a0 * b1" "unat (?lb * ?oa) = a1 * b0" "unat (?lb * ?ob) = a1 * b1"
    using less_pow64_mult [OF small(1,3)] less_pow64_mult [OF small(1,4)] less_pow64_mult [OF small(2,3)] less_pow64_mult [OF small(2,4)]
    by (subst unat_mult_nowrap; simp add: d)+
  define mid c1 where "mid = ?la * ?ob + ?lb * ?oa" and "c1 \<longleftrightarrow> 2 ^ 128 \<le> unat (?la * ?ob) + unat (?lb * ?oa)"
  define k1 :: nat where "k1 = of_bool c1"
  have mid: "a0 * b1 + a1 * b0 = unat mid + 2 ^ 128 * k1"
    using add_carry [of "?la * ?ob" "?lb * ?oa"] by (simp only: p mid_def k1_def c1_def)
  define m0 m1 where "m0 = unat mid mod 2 ^ 64" and "m1 = unat mid div 2 ^ 64"
  have m: "unat mid = m0 + 2 ^ 64 * m1" "m0 < 2 ^ 64" "m1 < 2 ^ 64"
    using mult_div_mod_eq [of "2 ^ 64" "unat mid"] unat_less_power [of mid] by (simp_all add: m0_def m1_def div_less_iff_less_mult)
  let ?mh = "drop_bit 64 mid + (if c1 then push_bit 64 1 else 0)"
  have mh: "unat ?mh = m1 + 2 ^ 64 * k1"
  proof -
    have "unat (drop_bit 64 mid) = m1" by (simp only: unat_drop_bit m1_def)
    then show ?thesis using m(3) by (cases c1) (simp_all add: unat_word_ariths push_bit_eq_mult k1_def)
  qed
  let ?sh = "push_bit 64 (take_bit 64 mid)"
  have sh: "unat ?sh = 2 ^ 64 * m0"
  proof -
    have "unat (take_bit 64 mid) = m0" by (simp only: unat_take_bit m0_def)
    then show ?thesis using m(2) by (subst unat_push_bit_nowrap) simp_all
  qed
  define c2 where "c2 \<longleftrightarrow> 2 ^ 128 \<le> unat (?la * ?oa) + unat ?sh"
  define k2 :: nat where "k2 = of_bool c2"
  let ?low = "?la * ?oa + ?sh"
  have l: "a0 * b0 + 2 ^ 64 * m0 = unat ?low + 2 ^ 128 * k2"
    using add_carry [of "?la * ?oa" ?sh] by (simp only: p sh k2_def c2_def)
  have res: "mul_u128 a b = \<lparr>hi = ?lb * ?ob + ?mh + hi a * b + (if c2 then 1 else 0), lo = ?low\<rparr>"
    by (simp only: mul_u128_def overflowing_add_def Let_def mid_def c1_def c2_def prod.case)
  have uk2: "unat (if c2 then 1 else 0 :: u128) = k2" by (simp add: k2_def)
  define H where "H = a1 * b1 + (m1 + 2 ^ 64 * k1) + k2"
  have "unat (lo a) * unat b = a0 * b0 + 2 ^ 64 * (a0 * b1 + a1 * b0) + 2 ^ 128 * (a1 * b1)"
    by (simp add: a b algebra_simps)
  also have "\<dots> = (a0 * b0 + 2 ^ 64 * m0) + 2 ^ 128 * (m1 + 2 ^ 64 * k1) + 2 ^ 128 * (a1 * b1)"
    unfolding mid m(1) by (simp add: algebra_simps)
  also have "\<dots> = unat ?low + 2 ^ 128 * H" unfolding l H_def by (simp add: algebra_simps)
  finally have prod: "unat (lo a) * unat b = unat ?low + 2 ^ 128 * H" .
  have lt: "unat ?low < 2 ^ 128" using unat_less_power [of ?low] by simp
  show "unat (lo (mul_u128 a b)) = unat (lo a) * unat b mod 2 ^ 128"
    using lt by (simp only: res prod mod_mult_self2) simp
  have "unat (lo a) * unat b div 2 ^ 128 = H" using lt by (simp only: prod) simp
  moreover have "unat (hi (mul_u128 a b)) = (H + unat (hi a) * unat b) mod 2 ^ 128"
    by (simp only: res U256.select_convs unat_high p mh uk2) (simp only: H_def ac_simps)
  ultimately show "unat (hi (mul_u128 a b)) = (unat (hi a) * unat b + unat (lo a) * unat b div 2 ^ 128) mod 2 ^ 128"
    by (simp add: add.commute)
qed

lemma mul_u128_parts:
  "unat (lo (mul_u128 a b)) = u256_val a * unat b mod 2 ^ 128" "unat (hi (mul_u128 a b)) = u256_val a * unat b div 2 ^ 128 mod 2 ^ 128"
proof -
  have e: "u256_val a * unat b = unat (hi a) * unat b * 2 ^ 128 + unat (lo a) * unat b" by (simp add: u256_val_def algebra_simps)
  show "unat (lo (mul_u128 a b)) = u256_val a * unat b mod 2 ^ 128"
    unfolding e mod_mult_self3 by (rule mul_u128_halves)
  have "(u256_val a * unat b) div 2 ^ 128 = unat (hi a) * unat b + unat (lo a) * unat b div 2 ^ 128"
    unfolding e by (subst div_mult_self3) simp_all
  then show "unat (hi (mul_u128 a b)) = u256_val a * unat b div 2 ^ 128 mod 2 ^ 128"
    by (simp only: mul_u128_halves)
qed

lemma u256_val_mul: "u256_val (u256_mul a b) = u256_val a * u256_val b mod 2 ^ 256"
proof (rule u256_val_eqI)
  define n where "n = u256_val a * unat (lo b)"
  note r = mul_u128_parts [of a "lo b", folded n_def]
  have parts: "lo (u256_mul a b) = lo (mul_u128 a (lo b))" "hi (u256_mul a b) = hi (mul_u128 a (lo b)) + lo a * hi b"
    by (simp_all add: u256_mul_def Let_def)
  have e: "u256_val a * u256_val b = (unat (hi a) * unat (hi b) * 2 ^ 128 + unat (lo a) * unat (hi b)) * 2 ^ 128 + n"
    by (simp add: u256_val_def n_def algebra_simps)
  show "unat (lo (u256_mul a b)) = u256_val a * u256_val b mod 2 ^ 128"
    unfolding e mod_mult_self3 parts by (rule r)
  have "(u256_val a * u256_val b) div 2 ^ 128 = unat (hi a) * unat (hi b) * 2 ^ 128 + unat (lo a) * unat (hi b) + n div 2 ^ 128"
    unfolding e by (subst div_mult_self3) simp_all
  then have "u256_val a * u256_val b div 2 ^ 128 mod 2 ^ 128 = (unat (lo a) * unat (hi b) + n div 2 ^ 128) mod 2 ^ 128"
    by (simp only: add.assoc mod_mult_self3)
  moreover have "unat (hi (u256_mul a b)) = (n div 2 ^ 128 mod 2 ^ 128 + unat (lo a) * unat (hi b) mod 2 ^ 128) mod 2 ^ 128"
    unfolding parts by (simp only: unat_word_ariths r len128)
  ultimately show "unat (hi (u256_mul a b)) = u256_val a * u256_val b div 2 ^ 128 mod 2 ^ 128"
    by (simp only: mod_add_eq add.commute)
qed

section \<open>Restoring division\<close>

lemma and_one_iff: "w AND 1 = 1 \<longleftrightarrow> odd (unat w)" for w :: u128
proof -
  have "w AND 1 = 1 \<longleftrightarrow> unat (w mod 2) = 1" by (simp add: and_one_eq word_unat_eq_iff)
  also have "\<dots> \<longleftrightarrow> odd (unat w)" by (simp add: unat_mod_distrib odd_iff_mod_2_eq_one)
  finally show ?thesis .
qed

lemma pow_split: "m \<le> n \<Longrightarrow> (2 :: nat) ^ n = 2 ^ m * 2 ^ (n - m)"
  by (simp flip: power_add)

lemma get_bit_iff: "i < 256 \<Longrightarrow> get_bit a i \<longleftrightarrow> odd (u256_val a div 2 ^ i)"
proof (cases "i < 128")
  case True
  have "(2 :: nat) ^ 128 = 2 ^ (128 - i) * 2 ^ i" using True by (simp flip: power_add)
  then have "u256_val a = unat (hi a) * 2 ^ (128 - i) * 2 ^ i + unat (lo a)" by (simp only: u256_val_def mult.assoc)
  then have "u256_val a div 2 ^ i = unat (hi a) * 2 ^ (128 - i) + unat (lo a) div 2 ^ i" by simp
  then show ?thesis using True by (simp add: get_bit_def and_one_iff unat_drop_bit)
next
  case False
  then have "(2 :: nat) ^ i = 2 ^ 128 * 2 ^ (i - 128)" by (intro pow_split) simp
  then have "u256_val a div 2 ^ i = unat (hi a) div 2 ^ (i - 128)" by (simp only: div_mult2_eq u256_val_split)
  then show ?thesis using False by (simp add: get_bit_def and_one_iff unat_drop_bit)
qed

lemma or_add_bit:
  fixes w :: u128
  assumes "n < 128" and "2 ^ Suc n dvd unat w"
  shows "unat (w OR push_bit n 1) = unat w + 2 ^ n"
proof -
  obtain k where k: "unat w = 2 ^ Suc n * k" using assms(2) by (elim dvdE)
  have lt: "unat w < 2 ^ 128" using unat_less_power [of w] by simp
  have pw: "(2 :: nat) ^ 128 = 2 ^ Suc n * 2 ^ (128 - Suc n)" using assms(1) by (intro pow_split) simp
  have "k < 2 ^ (128 - Suc n)" using lt unfolding k pw mult_less_cancel1 by blast
  then have "2 ^ Suc n * Suc k \<le> 2 ^ Suc n * 2 ^ (128 - Suc n)" by (intro mult_le_mono2) simp
  then have fit: "unat w + 2 ^ Suc n \<le> 2 ^ 128" unfolding k pw by (simp only: mult_Suc_right add.commute)
  have one: "unat (push_bit n 1 :: u128) = 2 ^ n"
    using assms(1) power_strict_increasing [of n 128 "2 :: nat"] by (subst unat_push_bit_nowrap) simp_all
  have "push_bit (Suc n) (drop_bit (Suc n) w) = w"
  proof -
    have "unat (drop_bit (Suc n) w) = k" by (simp only: unat_drop_bit k) simp
    then have "unat (push_bit (Suc n) (drop_bit (Suc n) w)) = unat w" using lt k by (subst unat_push_bit_nowrap) (simp_all add: mult.commute)
    then show ?thesis by (simp only: word_unat_eq_iff)
  qed
  then have "w OR push_bit n 1 = w + push_bit n 1"
    using or_eq_add_disjoint [of "push_bit n 1" "Suc n" "drop_bit (Suc n) w"] one by simp
  moreover have "(2 :: nat) ^ n < 2 ^ Suc n" by simp
  then have "unat w + 2 ^ n < 2 ^ 128" using fit by linarith
  then have "unat (w + push_bit n 1) = unat w + 2 ^ n" using one by (subst unat_add_nowrap) (simp_all only: len128)
  ultimately show ?thesis by simp
qed

lemma u256_val_shift:
  assumes "2 * u256_val a < 2 ^ 256"
  shows "u256_val (shift_left_1 a) = 2 * u256_val a" and "even (unat (lo (shift_left_1 a)))"
proof -
  have h: "unat (hi a) < 2 ^ 127" using assms by (simp add: u256_val_def)
  have d: "unat (drop_bit 127 (lo a)) = unat (lo a) div 2 ^ 127" by (rule unat_drop_bit)
  have d2: "unat (lo a) div 2 ^ 127 < 2" using u256_halves(2) [of a] by (simp add: div_less_iff_less_mult)
  have ph: "unat (push_bit 1 (hi a)) = 2 * unat (hi a)" using h by (subst unat_push_bit_nowrap) simp_all
  have "push_bit 1 (hi a) OR drop_bit 127 (lo a) = push_bit 1 (hi a) + drop_bit 127 (lo a)"
    using d d2 by (intro or_eq_add_disjoint) simp
  moreover have "unat (push_bit 1 (hi a) + drop_bit 127 (lo a)) = 2 * unat (hi a) + unat (lo a) div 2 ^ 127"
    using h d2 by (subst unat_add_nowrap) (simp_all only: ph d len128, simp)
  moreover have pl: "unat (push_bit 1 (lo a)) = 2 * unat (lo a) mod 2 ^ 128"
    by (simp add: push_bit_eq_mult unat_word_ariths mult.commute)
  moreover have "2 * unat (lo a) = 2 ^ 128 * (unat (lo a) div 2 ^ 127) + 2 * unat (lo a) mod 2 ^ 128"
  proof -
    have "2 * unat (lo a) div 2 ^ 128 = unat (lo a) div 2 ^ 127"
      using div_mult_mult1 [of 2 "unat (lo a)" "2 ^ 127"] by simp
    then show ?thesis using mult_div_mod_eq [of "2 ^ 128" "2 * unat (lo a)"] by simp
  qed
  ultimately show "u256_val (shift_left_1 a) = 2 * u256_val a" by (simp add: shift_left_1_def u256_val_def)
  have "unat (lo (shift_left_1 a)) = 2 * unat (lo a) mod 2 ^ 128" by (simp only: shift_left_1_def U256.select_convs pl)
  then show "even (unat (lo (shift_left_1 a)))" by (simp only: dvd_mod dvd_triv_left) (simp add: dvd_mod)
qed

lemma u256_val_set_bit:
  assumes "i < 256" and "2 ^ Suc i dvd u256_val a"
  shows "u256_val (u256_set_bit a i) = u256_val a + 2 ^ i"
proof (cases "i < 128")
  case True
  have "2 ^ Suc i dvd u256_val a mod 2 ^ 128"
    using True by (intro dvd_mod assms(2) le_imp_power_dvd) simp
  then have "2 ^ Suc i dvd unat (lo a)" by (simp only: u256_val_split)
  then show ?thesis using or_add_bit [OF True] True by (simp add: u256_set_bit_def u256_val_def)
next
  case False
  have p: "(2 :: nat) ^ Suc i = 2 ^ 128 * 2 ^ Suc (i - 128)" using pow_split [of 128 "Suc i"] False by (simp only: Suc_diff_le not_less)
  obtain k where "u256_val a = 2 ^ 128 * (2 ^ Suc (i - 128) * k)" using assms(2) unfolding p by (metis dvdE mult.assoc)
  then have "unat (hi a) = 2 ^ Suc (i - 128) * k" using u256_val_split(1) [of a] by (simp add: ac_simps)
  then have "2 ^ Suc (i - 128) dvd unat (hi a)" by simp
  then have "unat (hi a OR push_bit (i - 128) 1) = unat (hi a) + 2 ^ (i - 128)" using assms(1) False by (intro or_add_bit) simp_all
  moreover have "(2 :: nat) ^ i = 2 ^ (i - 128) * 2 ^ 128" using pow_split [of 128 i] False by (simp only: mult.commute not_less)
  ultimately show ?thesis using False by (simp add: u256_set_bit_def u256_val_def add_mult_distrib)
qed

text \<open>The loop invariant before bit \<open>i\<close> is processed: quotient and remainder of the bits above it.\<close>

definition div_inv :: "nat \<Rightarrow> nat \<Rightarrow> nat \<Rightarrow> U256 \<times> U256 \<Rightarrow> bool" where
  "div_inv va vb i = (\<lambda>(q, r). \<exists>k. u256_val q = k * 2 ^ i \<and> va div 2 ^ i = k * vb + u256_val r \<and> u256_val r < vb)"

lemma div_round_inv:
  assumes inv: "div_inv (u256_val a) (u256_val b) (Suc i) (q, r)" and i: "i < 256"
  shows "div_inv (u256_val a) (u256_val b) i (div_round a b (q, r) i)"
proof -
  obtain k where k: "u256_val q = k * 2 ^ Suc i" "u256_val a div 2 ^ Suc i = k * u256_val b + u256_val r" "u256_val r < u256_val b"
    using inv by (auto simp: div_inv_def)
  define A where "A = u256_val a div 2 ^ i"
  have A: "A div 2 = u256_val a div 2 ^ Suc i" by (simp only: A_def power_Suc2 div_mult2_eq)
  have Abit: "A = 2 * (A div 2) + of_bool (odd A)" by (simp add: of_bool_def)
  have "u256_val r \<le> A div 2" unfolding A k(2) by simp
  moreover have "A \<le> u256_val a" by (simp add: A_def)
  ultimately have fit: "2 * u256_val r < 2 ^ 256" using u256_val_less [of a] by linarith
  let ?r1 = "shift_left_1 r"
  let ?r2 = "if get_bit a i then ?r1\<lparr>lo := lo ?r1 OR 1\<rparr> else ?r1"
  have one: "unat (lo ?r1 OR 1) = unat (lo ?r1) + 1"
    using or_add_bit [of 0 "lo ?r1"] u256_val_shift(2) [OF fit] by simp
  define R where "R = ?r2"
  have r2: "u256_val R = 2 * u256_val r + of_bool (odd A)"
    using u256_val_shift(1) [OF fit] one get_bit_iff [OF i, of a] by (simp add: R_def A_def u256_val_def)
  have AA: "A = 2 * k * u256_val b + u256_val R" using Abit A k(2) r2 by (simp add: algebra_simps)
  have round: "div_round a b (q, r) i = (if u256_le b R then (u256_set_bit q i, u256_sub R b) else (q, R))"
    by (simp only: div_round_def Let_def R_def prod.case)
  show ?thesis
  proof (cases "u256_val b \<le> u256_val R")
    case True
    have q: "u256_val (u256_set_bit q i) = (2 * k + 1) * 2 ^ i"
      using u256_val_set_bit [OF i, of q] k(1) by (simp add: algebra_simps)
    have "A = (2 * k + 1) * u256_val b + u256_val (u256_sub R b)" using AA True u256_val_sub [OF True] by (simp add: algebra_simps)
    moreover have "u256_val (u256_sub R b) < u256_val b"
      using r2 k(3) u256_val_sub [OF True] by (simp add: of_bool_def split: if_splits)
    ultimately have "div_inv (u256_val a) (u256_val b) i (u256_set_bit q i, u256_sub R b)"
      unfolding div_inv_def prod.case A_def using q by blast
    then show ?thesis using True by (simp add: round u256_le_iff)
  next
    case False
    have "u256_val q = (2 * k) * 2 ^ i" using k(1) by simp
    then have "div_inv (u256_val a) (u256_val b) i (q, R)"
      unfolding div_inv_def prod.case using AA False unfolding A_def by (metis not_le)
    then show ?thesis using False by (simp add: round u256_le_iff)
  qed
qed

lemma div_loop_inv:
  assumes "n \<le> 256" and "0 < u256_val b"
  shows "div_inv (u256_val a) (u256_val b) n (foldl (div_round a b) (U256_ZERO, U256_ZERO) (rev [n..<256]))"
  using assms(1)
proof (induction "256 - n" arbitrary: n)
  case 0
  then have "n = 256" by simp
  then show ?case using u256_val_less [of a] assms(2) by (simp add: div_inv_def U256_ZERO_def u256_val_def)
next
  case (Suc m)
  then have n: "n < 256" by simp
  then have "rev [n..<256] = rev [Suc n..<256] @ [n]" by (subst upt_conv_Cons) simp_all
  then show ?case
    using Suc.hyps(1) [of "Suc n"] Suc.hyps(2) n div_round_inv [OF _ n, of a b]
    by (cases "foldl (div_round a b) (U256_ZERO, U256_ZERO) (rev [Suc n..<256])") simp
qed

lemma u256_div_val:
  assumes "0 < u256_val b"
  shows "\<exists>q. u256_div a b = Ret q \<and> u256_val q = u256_val a div u256_val b"
proof -
  have nz: "\<not> u256_is_zero b" using assms by (auto simp: u256_is_zero_def u256_val_def)
  obtain q r where l: "foldl (div_round a b) (U256_ZERO, U256_ZERO) (rev [0..<256]) = (q, r)" by (metis prod.exhaust)
  have "div_inv (u256_val a) (u256_val b) 0 (q, r)" using div_loop_inv [OF _ assms, of 0 a] l by simp
  then have "u256_val a = u256_val q * u256_val b + u256_val r" "u256_val r < u256_val b" by (auto simp: div_inv_def)
  then have "u256_val a div u256_val b = u256_val q" by (metis add.commute div_mult_self1 div_less add_0 mult.commute assms not_less_zero)
  moreover have "u256_val U256_ZERO = 0" "u256_val U256_ONE = 1" by (simp_all add: U256_ZERO_def U256_ONE_def u256_val_def)
  ultimately show ?thesis using nz l by (auto simp: u256_div_def u256_less_iff)
qed

section \<open>Properties\<close>

text \<open>C25: The hand-written 256-bit integers compute exactly: addition and the 64-bit schoolbook multiplication are
  addition and multiplication modulo \<open>2 ^ 256\<close>, the derived order is the order of the values, subtraction is
  exact when it does not underflow, and the bit-by-bit division returns the floor of the quotient for every
  nonzero divisor and panics exactly on zero.\<close>

theorem u256_arithmetic:
  "u256_val (u256_add a b) = (u256_val a + u256_val b) mod 2 ^ 256 \<and>
   u256_val (u256_mul a b) = u256_val a * u256_val b mod 2 ^ 256 \<and>
   (u256_less a b \<longleftrightarrow> u256_val a < u256_val b) \<and>
   (u256_val (u256_sub a b) = u256_val a - u256_val b \<or> u256_val a < u256_val b) \<and>
   (case u256_div a b of Panic \<Rightarrow> u256_val b = 0 | Ret q \<Rightarrow> u256_val b \<noteq> 0 \<and> u256_val q = u256_val a div u256_val b)"
proof -
  have sub: "u256_val (u256_sub a b) = u256_val a - u256_val b \<or> u256_val a < u256_val b"
    using u256_val_sub [of b a] by (cases "u256_val b \<le> u256_val a") auto
  have "case u256_div a b of Panic \<Rightarrow> u256_val b = 0 | Ret q \<Rightarrow> u256_val b \<noteq> 0 \<and> u256_val q = u256_val a div u256_val b"
  proof (cases "u256_val b = 0")
    case True
    then show ?thesis by (simp add: u256_div_def u256_is_zero_def u256_val_def unat_eq_zero)
  next
    case False
    then show ?thesis using u256_div_val [of b a] by auto
  qed
  then show ?thesis using u256_val_add u256_val_mul u256_less_iff sub by simp
qed

lemma u256_div_exact:
  assumes "u256_val a = u256_val q * u256_val b" and "0 < u256_val b"
  shows "u256_div a b = Ret q"
proof -
  obtain q' where q': "u256_div a b = Ret q'" "u256_val q' = u256_val a div u256_val b" using u256_div_val [OF assms(2)] by blast
  then have "u256_val q' = u256_val q" using assms by simp
  then show ?thesis using q'(1) u256_val_inject by blast
qed

lemma val_from_u128 [simp]: "u256_val (from_u128 v) = unat v" "u256_val U256_ONE = 1"
  by (simp_all add: from_u128_def U256_ONE_def u256_val_def)

lemma val_mul_nowrap: "u256_val a * u256_val b < 2 ^ 256 \<Longrightarrow> u256_val (u256_mul a b) = u256_val a * u256_val b"
  by (simp only: u256_val_mul mod_less)

lemma val_add_nowrap: "u256_val a + u256_val b < 2 ^ 256 \<Longrightarrow> u256_val (u256_add a b) = u256_val a + u256_val b"
  by (simp only: u256_val_add mod_less)

lemma is_zero_iff: "u256_is_zero a \<longleftrightarrow> u256_val a = 0"
  by (auto simp: u256_is_zero_def u256_val_def unat_eq_zero)

text \<open>A balanced pool is a fixed point of both Newton products.\<close>

lemma d_product_balanced:
  assumes "\<And>x. x \<in> set xs \<Longrightarrow> unat x * u256_val n_u = u256_val d" and "0 < u256_val d" and "u256_val d < 2 ^ 128"
  shows "d_product n_u d d xs = Ret (Some d)"
  using assms(1)
proof (induction xs)
  case (Cons x xs)
  have x: "unat x * u256_val n_u = u256_val d" using Cons.prems by simp
  have den: "u256_val (u256_mul (from_u128 x) n_u) = u256_val d"
    using x assms(3) by (subst val_mul_nowrap) simp_all
  have "u256_val d * u256_val d < 2 ^ 128 * 2 ^ 128" using assms(3) by (intro mult_strict_mono') simp_all
  then have "u256_val (u256_mul d d) = u256_val d * u256_val d" by (intro val_mul_nowrap) simp
  then have "u256_div (u256_mul d d) (u256_mul (from_u128 x) n_u) = Ret d" using den assms(2) by (intro u256_div_exact) simp_all
  then have "mul_div d d (u256_mul (from_u128 x) n_u) = Ret (Some d)" using den assms(2) by (simp add: mul_div_def is_zero_iff)
  then show ?case using Cons by (simp add: and_some_def)
qed simp

lemma d_loop_balanced:
  assumes xs: "\<And>x. x \<in> set xs \<Longrightarrow> unat x * n = u256_val d" and d: "0 < u256_val d" "u256_val d < 2 ^ 100"
    and u: "u256_val n_u = n" "n \<le> 3" "0 < n" and ann: "0 < u256_val ann_u" "u256_val ann_u < 2 ^ 40"
  shows "d_loop (Suc k) ann_u d n_u xs d = Ret (Some (as_u128 d))"
proof -
  have dp: "d_product n_u d d xs = Ret (Some d)" using d xs u by (intro d_product_balanced) simp_all
  let ?A = "u256_val ann_u" and ?D = "u256_val d"
  have "?A * ?D < 2 ^ 40 * 2 ^ 100" using ann(2) d(2) by (intro mult_strict_mono') simp_all
  then have AD: "?A * ?D < 2 ^ 140" by (simp only: power_add [symmetric]) simp
  have nD: "?D * n \<le> 2 ^ 100 * 3" using d(2) u(2) by (intro mult_le_mono) simp_all
  have e1: "u256_val (u256_mul ann_u d) = ?A * ?D" using AD by (intro val_mul_nowrap) simp
  have e2: "u256_val (u256_mul d n_u) = ?D * n" using nD u(1) by (subst val_mul_nowrap) simp_all
  have e3: "u256_val (u256_add (u256_mul ann_u d) (u256_mul d n_u)) = (?A + n) * ?D"
    using AD nD e1 e2 by (subst val_add_nowrap) (simp_all add: algebra_simps)
  have sum: "(?A + n) * ?D < 2 ^ 141" using AD nD by (simp add: algebra_simps)
  then have "(?A + n) * ?D * ?D < 2 ^ 141 * 2 ^ 100" using d(2) by (intro mult_strict_mono') simp_all
  then have e4: "u256_val (u256_mul (u256_add (u256_mul ann_u d) (u256_mul d n_u)) d) = (?A + n) * ?D * ?D"
    using e3 by (subst val_mul_nowrap) simp_all
  have s1: "u256_val (u256_sub ann_u U256_ONE) = ?A - 1" using ann(1) by (subst u256_val_sub) simp_all
  have e5: "u256_val (u256_mul (u256_sub ann_u U256_ONE) d) = (?A - 1) * ?D"
    using AD s1 by (subst val_mul_nowrap) (simp_all add: diff_mult_distrib)
  have e6: "u256_val (u256_add n_u U256_ONE) = n + 1" using u by (subst val_add_nowrap) simp_all
  have e7: "u256_val (u256_mul (u256_add n_u U256_ONE) d) = (n + 1) * ?D"
    using nD e6 d(2) by (subst val_mul_nowrap) (simp_all add: algebra_simps)
  have AnD: "(?A - 1) * ?D + (n + 1) * ?D = (?A + n) * ?D" using ann(1) by (cases "u256_val ann_u") (simp_all add: algebra_simps)
  have e8: "u256_val (u256_add (u256_mul (u256_sub ann_u U256_ONE) d) (u256_mul (u256_add n_u U256_ONE) d)) = (?A + n) * ?D"
    using sum e5 e7 AnD by (subst val_add_nowrap) simp_all
  have "u256_div (u256_mul (u256_add (u256_mul ann_u d) (u256_mul d n_u)) d)
      (u256_add (u256_mul (u256_sub ann_u U256_ONE) d) (u256_mul (u256_add n_u U256_ONE) d)) = Ret d"
    using e4 e8 d(1) ann(1) by (intro u256_div_exact) simp_all
  moreover have "u256_close d d" by (simp add: u256_close_def u256_less_iff u256_le_iff u256_val_sub)
  ultimately show ?thesis using dp e8 d(1) ann(1) by (simp add: and_some_def Let_def is_zero_iff)
qed

text \<open>The stableswap invariant of a balanced pool is the sum of its balances: for two or three equal
  normalized balances below \<open>2 ^ 96\<close> and an amplification below \<open>2 ^ 32\<close>, the Newton solver divides by zero
  nowhere, overflows nowhere and returns exactly \<open>n\<close> times the balance.\<close>

theorem curve_balanced_invariant:
  assumes "n_coins p = 2 \<or> n_coins p = 3" and "0 < unat x" "unat x < 2 ^ 96" and "0 < unat (amp_a p)" "unat (amp_a p) < 2 ^ 32"
  shows "get_d p [x, x, x] = Ret (Some (of_nat (n_coins p) * x))"
proof -
  let ?n = "n_coins p"
  have n: "0 < ?n" "?n \<le> 3" using assms(1) by auto
  have xs: "map (\<lambda>i. [x, x, x] ! i) [0..<?n] = replicate ?n x" using assms(1) by (elim disjE) (simp_all add: upt_conv_Cons numeral_2_eq_2 numeral_3_eq_3 replicate_Suc)
  have s: "foldl (+) 0 (replicate ?n x) = of_nat ?n * x" 
  proof -
    have "replicate 2 x = [x, x]" "replicate 3 x = [x, x, x]" by (simp_all add: numeral_2_eq_2 numeral_3_eq_3)
    then show ?thesis using assms(1) by (elim disjE) (simp_all only: foldl.simps of_nat_numeral add_0, simp_all)
  qed
  have un: "unat (of_nat ?n :: u128) = ?n" using n by (intro unat_of_nat_small) simp
  have sx: "?n * unat x < 2 ^ 98" using mult_le_mono [OF n(2), of "unat x" "2 ^ 96 - 1"] assms(3) by simp
  have us: "unat (of_nat ?n * x) = ?n * unat x" using sx by (subst unat_mult_nowrap) (simp_all add: un)
  have N: "unat (n_pow_n p) \<le> 27" "0 < unat (n_pow_n p)" by (simp_all add: n_pow_n_def)
  have "unat (amp_a p) * unat (n_pow_n p) \<le> 2 ^ 32 * 27" using assms(5) N by (intro mult_le_mono) simp_all
  then have ua40: "unat (amp_a p) * unat (n_pow_n p) < 2 ^ 40" by simp
  then have ua: "unat (amp_a p * n_pow_n p) = unat (amp_a p) * unat (n_pow_n p)"
    by (intro unat_mult_nowrap) simp
  let ?d = "from_u128 (of_nat ?n * x)"
  have "d_loop (Suc 254) (from_u128 (amp_a p * n_pow_n p)) ?d (from_u128 (of_nat ?n)) (replicate ?n x) ?d = Ret (Some (as_u128 ?d))"
  proof (rule d_loop_balanced)
    show "unat y * ?n = u256_val ?d" if "y \<in> set (replicate ?n x)" for y using that us by (simp add: mult.commute)
    show "0 < u256_val ?d" using n(1) assms(2) us by simp
    show "u256_val ?d < 2 ^ 100" using us sx by simp
    show "u256_val (from_u128 (of_nat ?n)) = ?n" using un by simp
    show "0 < u256_val (from_u128 (amp_a p * n_pow_n p))" using ua N(2) assms(4) by simp
    show "u256_val (from_u128 (amp_a p * n_pow_n p)) < 2 ^ 40" using ua ua40 by simp
  qed (rule n)+
  moreover have "of_nat ?n * x \<noteq> 0" using us n assms(2) by (metis mult_is_0 neq0_conv unat_0)
  ultimately show ?thesis
    unfolding get_d_def xs Let_def s by (simp add: as_u128_def from_u128_def del: d_loop.simps)
qed

theorem curve_balanced_invariant_witness:
  "get_d (new_2pool 1000 1000 18 18 100 4) [1000, 1000, 1000] = Ret (Some 2000)"
  using curve_balanced_invariant [of "new_2pool 1000 1000 18 18 100 4" 1000] by (simp add: new_2pool_def)

end
