(* ===== verification/Curve_Solver.thy ===== *)
theory Curve_Solver
  imports Curve_Pool
begin

text \<open>
  Correctness of the second Newton solver of \<open>src/crates/amm-virtualizer/src/curve.rs\<close> (\<open>get_y\<close>) and of the
  swap built on it.  The loop looks for the root of \<open>y\<^sup>2 + b y = c + d y\<close>.  The integers \<open>y\<close> with
  \<open>y\<^sup>2 + b y \<le> c + d y\<close> have a largest element, the floor of the root; every round of the loop stays at or above it
  and at least halves the distance to it, so the loop ends by convergence and not by running out of rounds.
\<close>

section \<open>The quadratic over the integers\<close>

text \<open>With \<open>B = b - d\<close>: the floor of the root of \<open>y\<^sup>2 + B y = c\<close>.\<close>

definition root_floor :: "int \<Rightarrow> int \<Rightarrow> int \<Rightarrow> bool" where
  "root_floor B c f \<longleftrightarrow> 0 \<le> f \<and> f * f + B * f \<le> c \<and> c < (f + 1) * (f + 1) + B * (f + 1)"

lemma root_floor_exists:
  assumes "0 \<le> c"
  shows "\<exists>f. root_floor B c f"
proof -
  define P where "P n \<longleftrightarrow> int n * int n + B * int n \<le> c" for n
  have "n \<le> nat (c + \<bar>B\<bar>)" if "P n" for n
  proof (rule ccontr)
    assume "\<not> n \<le> nat (c + \<bar>B\<bar>)"
    then have n: "c + \<bar>B\<bar> + 1 \<le> int n" by linarith
    then have "1 * (c + 1) \<le> int n * (int n + B)" using assms by (intro mult_mono) linarith+
    then show False using that by (simp add: P_def algebra_simps)
  qed
  moreover have "P 0" using assms by (simp add: P_def)
  ultimately have "P (Greatest P)" and "\<not> P (Suc (Greatest P))"
    using GreatestI_nat [of P 0 "nat (c + \<bar>B\<bar>)"] Greatest_le_nat [of P "Suc (Greatest P)" "nat (c + \<bar>B\<bar>)"] by auto
  then have "root_floor B c (int (Greatest P))" by (simp add: root_floor_def P_def algebra_simps)
  then show ?thesis ..
qed

lemma root_floor_slope: "root_floor B c f \<Longrightarrow> 0 \<le> c \<Longrightarrow> 0 \<le> 2 * f + B"
proof -
  assume f: "root_floor B c f" and "0 \<le> c"
  then have "0 < (f + 1) * (f + 1 + B)" by (simp add: root_floor_def algebra_simps)
  moreover have "0 < f + 1" using f by (simp add: root_floor_def)
  ultimately have "0 < f + 1 + B" by (simp add: zero_less_mult_iff)
  then show ?thesis using \<open>0 < f + 1\<close> by linarith
qed

text \<open>One round from \<open>y\<close>, with the denominator \<open>P = 2 y + B\<close>.\<close>

definition newton_y :: "int \<Rightarrow> int \<Rightarrow> int \<Rightarrow> int" where
  "newton_y B c y = (y * y + c) div (2 * y + B)"

lemma div_sandwich: "0 < p \<Longrightarrow> n div p * p \<le> n \<and> n < (n div p + 1) * p" for n p :: int
  using pos_mod_sign [of p n] pos_mod_bound [of p n]
  by (simp only: distrib_right minus_mod_eq_div_mult [symmetric]) simp

lemma newton_y_bounds:
  assumes "0 < 2 * y + B"
  shows "newton_y B c y * (2 * y + B) \<le> y * y + c" and "y * y + c < (newton_y B c y + 1) * (2 * y + B)"
  using div_sandwich [OF assms, of "y * y + c"] by (simp_all only: newton_y_def)

lemma newton_y_above:
  assumes "0 < 2 * y + B" and "root_floor B c f"
  shows "f \<le> newton_y B c y"
proof -
  have "0 \<le> (y - f) * (y - f)" by simp
  then have "f * (2 * y + B) \<le> y * y + c" using assms(2) by (simp add: root_floor_def algebra_simps)
  then have "f * (2 * y + B) div (2 * y + B) \<le> newton_y B c y" unfolding newton_y_def using assms(1) by (rule zdiv_mono1)
  then show ?thesis using assms(1) by simp
qed

lemma newton_y_halves:
  assumes P: "0 < 2 * y + B" and f: "root_floor B c f" and c: "0 \<le> c" and y: "f < y"
  shows "2 * (newton_y B c y - f) \<le> y - f"
proof (rule ccontr)
  let ?n = "newton_y B c y" and ?P = "2 * y + B" and ?s = "y - f"
  assume "\<not> ?thesis"
  then have "2 * f + ?s + 1 \<le> 2 * ?n" by simp
  then have "(2 * f + ?s + 1) * ?P \<le> 2 * ?n * ?P" using P by (intro mult_right_mono) simp_all
  also have "\<dots> \<le> 2 * (y * y + c)" using newton_y_bounds(1) [OF P, of c] by simp
  finally have "(2 * f + ?s + 1) * ?P \<le> 2 * (y * y + c)" .
  moreover have "2 * c < 2 * ((f + 1) * (f + 1) + B * (f + 1))" using f by (simp add: root_floor_def)
  moreover have "0 \<le> (?s - 1) * (2 * f + B)" using root_floor_slope [OF f c] y by simp
  ultimately show False using y by (simp add: algebra_simps)
qed

lemma newton_y_at_root:
  assumes P: "0 < 2 * f + B" and f: "root_floor B c f"
  shows "newton_y B c f \<le> f + 1"
proof (rule ccontr)
  assume "\<not> ?thesis"
  then have "(f + 2) * (2 * f + B) \<le> newton_y B c f * (2 * f + B)" using P by (intro mult_right_mono) simp_all
  then show False using newton_y_bounds(1) [OF P, of c] f P by (simp add: root_floor_def algebra_simps)
qed

text \<open>A round that does not stop leaves a positive denominator for the next.\<close>

lemma newton_y_denominator:
  assumes P: "0 < 2 * y + B" and c: "0 \<le> c" and n: "0 \<le> newton_y B c y" and far: "1 < \<bar>newton_y B c y - y\<bar>"
  shows "0 < 2 * newton_y B c y + B"
proof (rule ccontr)
  define m t where "m = newton_y B c y" and "t = y - m"
  assume "\<not> ?thesis"
  then have le: "B \<le> - 2 * m" by (simp add: m_def)
  have y: "y = m + t" by (simp add: t_def)
  have "m * B \<le> m * (- 2 * m)" using le n unfolding m_def by (rule mult_left_mono)
  moreover have "(m + t) * (m + t) + c < (m + 1) * (2 * (m + t) + B)"
    using newton_y_bounds(2) [OF P, of c] by (simp only: m_def [symmetric] y [symmetric])
  ultimately have "m * m + (t - 1) * (t - 1) \<le> 0" using le c by (simp add: algebra_simps)
  moreover have "0 \<le> m * m" "0 \<le> (t - 1) * (t - 1)" by simp_all
  ultimately have "(t - 1) * (t - 1) = 0" by linarith
  then show False using far by (simp add: t_def m_def)
qed

text \<open>When two successive values differ by at most one, the later one solves the equation to within one.\<close>

lemma newton_y_accurate:
  assumes P: "0 < 2 * y + B" and close: "\<bar>newton_y B c y - y\<bar> \<le> 1"
  shows "newton_y B c y * newton_y B c y + B * newton_y B c y \<le> c + 1"
    and "c < (newton_y B c y + 1) * (newton_y B c y + 1) + B * (newton_y B c y + 1)"
proof -
  define m e where "m = newton_y B c y" and "e = y - m"
  have y: "y = m + e" by (simp add: e_def)
  have bounds: "m * (2 * (m + e) + B) \<le> (m + e) * (m + e) + c" "(m + e) * (m + e) + c < (m + 1) * (2 * (m + e) + B)"
    using newton_y_bounds [OF P, of c] by (simp_all only: m_def [symmetric] y [symmetric])
  have "e = -1 \<or> e = 0 \<or> e = 1" using close by (auto simp: e_def m_def)
  then have sq: "e * e \<le> 1" "0 \<le> (1 - e) * (1 - e)" by auto
  have "m * m + B * m \<le> c + 1" "c < (m + 1) * (m + 1) + B * (m + 1)" using bounds sq by (simp_all add: algebra_simps)
  then show "newton_y B c y * newton_y B c y + B * newton_y B c y \<le> c + 1"
    "c < (newton_y B c y + 1) * (newton_y B c y + 1) + B * (newton_y B c y + 1)" by (simp_all only: m_def)
qed

section \<open>The loop\<close>

text \<open>What the loop promises of its result: it solves the equation to within one.\<close>

definition y_solution :: "int \<Rightarrow> int \<Rightarrow> int \<Rightarrow> bool" where
  "y_solution B c z \<longleftrightarrow> z * z + B * z \<le> c + 1 \<and> c < (z + 1) * (z + 1) + B * (z + 1)"

lemma u256_close_iff: "u256_close a b \<longleftrightarrow> \<bar>int (u256_val a) - int (u256_val b)\<bar> \<le> 1"
  by (auto simp: u256_close_def u256_less_iff u256_le_iff u256_val_sub)

lemma as_u128_val: "u256_val a < 2 ^ 128 \<Longrightarrow> unat (as_u128 a) = u256_val a"
    "u256_val a < 2 ^ 128 \<Longrightarrow> uint (as_u128 a) = int (u256_val a)"
  using u256_val_split [of a] by (simp_all add: as_u128_def uint_nat del: of_nat_unat)

lemma y_loop_round:
  assumes y: "u256_val y < 2 ^ 127" and b: "u256_val b < 2 ^ 128" and c: "u256_val c < 2 ^ 254"
    and d: "u256_val d < 2 * u256_val y + u256_val b"
  shows "\<exists>y'. int (u256_val y') = newton_y (int (u256_val b) - int (u256_val d)) (int (u256_val c)) (int (u256_val y)) \<and>
    y_loop (Suc k) b c d y = (if u256_close y' y then Ret (Some (as_u128 y')) else y_loop k b c d y')"
proof -
  let ?sum = "u256_add (u256_mul (from_u128 2) y) b" and ?num = "u256_add (u256_mul y y) c"
  have "u256_val y * u256_val y < 2 ^ 127 * 2 ^ 127" using y by (intro mult_strict_mono') simp_all
  then have yy: "u256_val y * u256_val y < 2 ^ 254" by simp
  have two: "u256_val (from_u128 2) = 2" by simp
  have num: "u256_val ?num = u256_val y * u256_val y + u256_val c"
    using yy c by (subst val_add_nowrap; subst val_mul_nowrap; simp)
  have m2: "u256_val (u256_mul (from_u128 2) y) = 2 * u256_val y" using y two by (subst val_mul_nowrap) simp_all
  have sum: "u256_val ?sum = 2 * u256_val y + u256_val b" using y b m2 by (subst val_add_nowrap) simp_all
  have den: "u256_val (u256_sub ?sum d) = 2 * u256_val y + u256_val b - u256_val d" using d sum by (subst u256_val_sub) simp_all
  have pos: "0 < u256_val (u256_sub ?sum d)" using den d by simp
  obtain q where q: "u256_div ?num (u256_sub ?sum d) = Ret q" "u256_val q = u256_val ?num div u256_val (u256_sub ?sum d)"
    using u256_div_val [OF pos] by blast
  have "int (2 * u256_val y + u256_val b - u256_val d) = 2 * int (u256_val y) + (int (u256_val b) - int (u256_val d))" using d by simp
  then have "int (u256_val q) = newton_y (int (u256_val b) - int (u256_val d)) (int (u256_val c)) (int (u256_val y))"
    unfolding newton_y_def q(2) num den zdiv_int by simp
  moreover have "y_loop (Suc k) b c d y = (if u256_close q y then Ret (Some (as_u128 q)) else y_loop k b c d q)"
    using d sum q(1) by (simp add: Let_def u256_le_iff)
  ultimately show ?thesis by blast
qed

text \<open>One round from a value at or above the root: it stops with a solution, or halves the distance.\<close>

lemma y_loop_progress:
  assumes b: "u256_val b < 2 ^ 128" and c: "u256_val c < 2 ^ 254"
    and B: "B = int (u256_val b) - int (u256_val d)" and C: "C = int (u256_val c)" and f: "root_floor B C f"
    and y: "f \<le> int (u256_val y)" "u256_val y < 2 ^ 127" "u256_val d < 2 * u256_val y + u256_val b"
  shows "(\<exists>z. y_loop (Suc m) b c d y = Ret (Some z) \<and> unat z \<le> 2 ^ 127 \<and> y_solution B C (uint z)) \<or>
    (\<exists>q. y_loop (Suc m) b c d y = y_loop m b c d q \<and> f \<le> int (u256_val q) \<and> u256_val q < 2 ^ 127 \<and>
      u256_val d < 2 * u256_val q + u256_val b \<and> f < int (u256_val y) \<and> 2 * (int (u256_val q) - f) \<le> int (u256_val y) - f)"
proof -
  have P: "0 < 2 * int (u256_val y) + B" and C0: "0 \<le> C" using y(3) by (simp_all add: B C)
  obtain q where q: "int (u256_val q) = newton_y B C (int (u256_val y))"
    "y_loop (Suc m) b c d y = (if u256_close q y then Ret (Some (as_u128 q)) else y_loop m b c d q)"
    using y_loop_round [OF y(2) b c y(3), of m] unfolding B C by blast
  have above: "f \<le> int (u256_val q)" unfolding q(1) by (rule newton_y_above [OF P f])
  have down: "2 * (int (u256_val q) - f) \<le> int (u256_val y) - f" if "f < int (u256_val y)"
    unfolding q(1) by (rule newton_y_halves [OF P f C0 that])
  have near: "int (u256_val q) \<le> f + 1" if "f = int (u256_val y)"
    using newton_y_at_root [of f B C] P f q(1) that by simp
  show ?thesis
  proof (cases "u256_close q y")
    case True
    then have "y_solution B C (int (u256_val q))"
      using newton_y_accurate [OF P, of C] unfolding y_solution_def u256_close_iff q(1) by blast
    moreover have "u256_val q \<le> 2 ^ 127" using True y(2) by (simp add: u256_close_iff)
    ultimately show ?thesis using q(2) True as_u128_val [of q] by (simp del: y_loop.simps)
  next
    case False
    then have far: "1 < \<bar>newton_y B C (int (u256_val y)) - int (u256_val y)\<bar>" unfolding u256_close_iff q(1) by simp
    then have lt: "f < int (u256_val y)" using near above y(1) unfolding q(1) [symmetric] by (cases "f = int (u256_val y)") simp_all
    have "0 < 2 * int (u256_val q) + B" using newton_y_denominator [OF P C0 _ far] unfolding q(1) [symmetric] by simp
    then have "u256_val d < 2 * u256_val q + u256_val b" by (simp add: B)
    moreover have "u256_val q < 2 ^ 127" using down [OF lt] above y(2) by simp
    ultimately show ?thesis using False q(2) above lt down [OF lt] by (auto simp del: y_loop.simps)
  qed
qed

lemma y_loop_converges:
  assumes b: "u256_val b < 2 ^ 128" and c: "u256_val c < 2 ^ 254"
    and B: "B = int (u256_val b) - int (u256_val d)" and C: "C = int (u256_val c)" and f: "root_floor B C f"
  shows "\<lbrakk>f \<le> int (u256_val y); int (u256_val y) - f < 2 ^ k; k < n; u256_val y < 2 ^ 127; u256_val d < 2 * u256_val y + u256_val b\<rbrakk>
    \<Longrightarrow> \<exists>z. y_loop n b c d y = Ret (Some z) \<and> unat z \<le> 2 ^ 127 \<and> y_solution B C (uint z)"
proof (induction k arbitrary: n y)
  case (0 n y)
  then show ?case using y_loop_progress [OF b c B C f, of y "n - 1"] by (cases n) (auto simp del: y_loop.simps)
next
  case (Suc k n y)
  obtain m where n: "n = Suc m" using Suc.prems(3) by (cases n) simp_all
  from y_loop_progress [OF b c B C f Suc.prems(1,4,5), of m]
  consider (stop) "\<exists>z. y_loop n b c d y = Ret (Some z) \<and> unat z \<le> 2 ^ 127 \<and> y_solution B C (uint z)"
    | (go) q where "y_loop n b c d y = y_loop m b c d q" "f \<le> int (u256_val q)" "u256_val q < 2 ^ 127"
        "u256_val d < 2 * u256_val q + u256_val b" "2 * (int (u256_val q) - f) \<le> int (u256_val y) - f"
    unfolding n by blast
  then show ?case
  proof cases
    case go
    have "int (u256_val q) - f < 2 ^ k" using go(5) Suc.prems(2) by simp
    then show ?thesis using Suc.IH [OF go(2) _ _ go(3,4), of m] go(1) Suc.prems(3) n by simp
  qed
qed

text \<open>The loop as \<open>get_y\<close> starts it, at the invariant itself, which may lie below the root.\<close>

lemma y_loop_solves:
  assumes d: "0 < u256_val d" "u256_val d < 2 ^ 126" and b: "u256_val b < 2 ^ 128" and c: "u256_val c \<le> 2 ^ 126 * u256_val d"
  shows "\<exists>z. y_loop 255 b c d d = Ret (Some z) \<and> y_solution (int (u256_val b) - int (u256_val d)) (int (u256_val c)) (uint z)"
proof -
  define B C where "B = int (u256_val b) - int (u256_val d)" and "C = int (u256_val c)"
  have "2 ^ 126 * u256_val d < 2 ^ 126 * 2 ^ 126" using d(2) by simp
  then have c': "u256_val c < 2 ^ 254" using c by simp
  have y: "u256_val d < 2 ^ 127" "u256_val d < 2 * u256_val d + u256_val b" using d by simp_all
  have P: "0 < 2 * int (u256_val d) + B" and C0: "0 \<le> C" using d(1) by (simp_all add: B_def C_def)
  obtain q where q: "int (u256_val q) = newton_y B C (int (u256_val d))"
    "y_loop (Suc 254) b c d d = (if u256_close q d then Ret (Some (as_u128 q)) else y_loop 254 b c d q)"
    using y_loop_round [OF y(1) b c' y(2), of 254] unfolding B_def C_def by blast
  have q127: "u256_val q < 2 ^ 127"
  proof -
    have "int (u256_val q) * int (u256_val d) \<le> int (u256_val q) * (2 * int (u256_val d) + B)"
      using d by (intro mult_left_mono) (simp_all add: B_def)
    also have "\<dots> \<le> int (u256_val d) * int (u256_val d) + C" unfolding q(1) by (rule newton_y_bounds [OF P])
    also have "\<dots> \<le> int ((u256_val d + 2 ^ 126) * u256_val d)" using c by (simp add: C_def distrib_right)
    finally have "u256_val q * u256_val d \<le> (u256_val d + 2 ^ 126) * u256_val d" by (simp only: of_nat_mult [symmetric] of_nat_le_iff)
    then show ?thesis using d by simp
  qed
  have "\<exists>z. y_loop (Suc 254) b c d d = Ret (Some z) \<and> y_solution B C (uint z)"
  proof (cases "u256_close q d")
    case True
    then have "y_solution B C (int (u256_val q))"
      using newton_y_accurate [OF P, of C] unfolding y_solution_def u256_close_iff q(1) by blast
    then show ?thesis using q(2) True q127 as_u128_val [of q] by (simp del: y_loop.simps)
  next
    case False
    then have far: "1 < \<bar>newton_y B C (int (u256_val d)) - int (u256_val d)\<bar>" unfolding u256_close_iff q(1) by simp
    have "0 < 2 * int (u256_val q) + B" using newton_y_denominator [OF P C0 _ far] unfolding q(1) [symmetric] by simp
    then have den: "u256_val d < 2 * u256_val q + u256_val b" by (simp add: B_def)
    obtain f where f: "root_floor B C f" using root_floor_exists [OF C0] ..
    have above: "f \<le> int (u256_val q)" unfolding q(1) by (rule newton_y_above [OF P f])
    have "int (u256_val q) - f < 2 ^ 127" using q127 f by (simp add: root_floor_def)
    then show ?thesis
      using y_loop_converges [OF b c' B_def C_def f above _ _ q127 den, of 127 254] q(2) False by (auto simp del: y_loop.simps)
  qed
  then show ?thesis by (simp del: y_loop.simps add: B_def C_def)
qed

section \<open>The coefficients\<close>

text \<open>The coefficients of the equation for the balances \<open>xs\<close> of the other coins, over the natural numbers.\<close>

definition curve_c :: "nat \<Rightarrow> nat \<Rightarrow> nat \<Rightarrow> nat list \<Rightarrow> nat" where
  "curve_c n ann d xs = foldl (\<lambda>c x. c * d div (x * n)) d xs * d div (ann * n)"

definition curve_b :: "nat \<Rightarrow> nat \<Rightarrow> nat list \<Rightarrow> nat" where
  "curve_b ann d xs = sum_list xs + d div ann"

lemma mul_div_val:
  assumes "u256_val a * u256_val b < 2 ^ 256" and "0 < u256_val e"
  shows "\<exists>q. mul_div a b e = Ret (Some q) \<and> u256_val q = u256_val a * u256_val b div u256_val e"
  using u256_div_val [OF assms(2), of "u256_mul a b"] val_mul_nowrap [OF assms(1)] assms(2)
  by (auto simp: mul_div_def is_zero_iff)

lemma d_product_val:
  assumes "\<And>x. x \<in> set xs \<Longrightarrow> unat x < 2 ^ 127 \<and> u256_val d \<le> 2 ^ 15 * (n * unat x)"
    and d: "0 < u256_val d" "u256_val d < 2 ^ 96" and n: "u256_val n_u = n" "n \<le> 3"
    and len: "u256_val c \<le> 2 ^ (15 * k) * u256_val d" "k + length xs \<le> 3"
  shows "\<exists>q. d_product n_u d c xs = Ret (Some q) \<and> u256_val q = foldl (\<lambda>c x. c * u256_val d div (unat x * n)) (u256_val c) xs \<and>
    u256_val q \<le> 2 ^ (15 * (k + length xs)) * u256_val d"
  using assms(1) len
proof (induction xs arbitrary: c k)
  case (Cons x xs)
  have x: "unat x < 2 ^ 127" "u256_val d \<le> 2 ^ 15 * (n * unat x)" using Cons.prems(1) [of x] by simp_all
  then have pos: "0 < unat x * n" using d(1) by (cases "unat x * n = 0") (auto simp: mult.commute)
  have "unat x * n \<le> 2 ^ 127 * 3" using x(1) n(2) by (intro mult_le_mono) simp_all
  then have den: "u256_val (u256_mul (from_u128 x) n_u) = unat x * n" using n(1) by (subst val_mul_nowrap) simp_all
  have k: "k + 1 \<le> 3" using Cons.prems(3) by simp
  have "u256_val c \<le> 2 ^ (15 * k) * u256_val d" by (rule Cons.prems)
  also have "\<dots> \<le> 2 ^ 30 * 2 ^ 96" using d(2) k power_increasing [of "15 * k" 30 "2 :: nat"] by (intro mult_le_mono) simp_all
  finally have "u256_val c * u256_val d \<le> 2 ^ 30 * 2 ^ 96 * 2 ^ 96" using d(2) by (intro mult_le_mono) simp_all
  then have small: "u256_val c * u256_val d < 2 ^ 256" by simp
  obtain q where q: "mul_div c d (u256_mul (from_u128 x) n_u) = Ret (Some q)" "u256_val q = u256_val c * u256_val d div (unat x * n)"
    using mul_div_val [OF small, of "u256_mul (from_u128 x) n_u"] den pos by auto
  have "u256_val c * u256_val d \<le> u256_val c * (2 ^ 15 * (n * unat x))" using x(2) by simp
  then have "u256_val q \<le> u256_val c * (2 ^ 15 * (n * unat x)) div (unat x * n)" unfolding q(2) by (rule div_le_mono)
  also have "\<dots> = u256_val c * 2 ^ 15" using pos by (simp add: ac_simps)
  also have "\<dots> \<le> 2 ^ (15 * (k + 1)) * u256_val d" using Cons.prems(2) by (simp add: power_add algebra_simps)
  finally have "u256_val q \<le> 2 ^ (15 * (k + 1)) * u256_val d" .
  then show ?case using Cons.IH [of q "k + 1"] Cons.prems(1,3) q by (auto simp: and_some_def)
qed simp

section \<open>The solver and the swap\<close>

lemma foldl_plus_val: "unat a + sum_list (map unat xs) < 2 ^ 128 \<Longrightarrow> unat (foldl (+) a xs) = unat a + sum_list (map unat xs)" for a :: u128
proof (induction xs arbitrary: a)
  case (Cons x xs)
  have "unat (a + x) = unat a + unat x" using Cons.prems by (intro unat_add_nowrap) simp
  then show ?case using Cons.IH [of "a + x"] Cons.prems by simp
qed simp

lemma length_other_balances: "i \<noteq> j \<Longrightarrow> j < n_coins p \<Longrightarrow> length (other_balances p i j x xp) < n_coins p"
  using length_filter_less [of j "[0..<n_coins p]" "\<lambda>k. k = i \<or> k \<noteq> j"] by (simp add: other_balances_def)

lemma get_y_solves:
  fixes p i j x xp
  defines "xs \<equiv> other_balances p i j x xp" and "n \<equiv> n_coins p" and "ann \<equiv> unat (amp_a p) * unat (n_pow_n p)"
  assumes n: "n \<le> 3" and ij: "i \<noteq> j" "i < n" "j < n" and amp: "0 < unat (amp_a p)" "unat (amp_a p) < 2 ^ 32"
    and d: "get_d p xp = Ret (Some d)" "0 < unat d" "unat d < 2 ^ 96"
    and sum: "sum_list (map unat xs) < 2 ^ 127" and share: "\<And>x. x \<in> set xs \<Longrightarrow> unat d \<le> 2 ^ 15 * (n * unat x)"
  shows "\<exists>y. get_y p i j x xp = Ret (Some y) \<and>
    y_solution (int (curve_b ann (unat d) (map unat xs)) - uint d) (int (curve_c n ann (unat d) (map unat xs))) (uint y)"
proof -
  let ?d = "from_u128 d" and ?n = "from_u128 (of_nat n)" and ?ann = "from_u128 (amp_a p * n_pow_n p)"
  have N: "unat (n_pow_n p) \<le> 27" "0 < unat (n_pow_n p)" by (simp_all add: n_pow_n_def)
  have "unat (amp_a p) * unat (n_pow_n p) \<le> 2 ^ 32 * 27" using amp N by (intro mult_le_mono) simp_all
  then have a: "u256_val ?ann = ann" "0 < ann" "ann < 2 ^ 40" using amp N(2) by (simp_all add: ann_def unat_mult_nowrap)
  have un: "u256_val ?n = n" using n by (simp add: unat_of_nat_small)
  have len: "length xs \<le> 2" using length_other_balances [of i j p x xp] ij n by (simp add: xs_def n_def)
  have each: "unat x < 2 ^ 127 \<and> u256_val ?d \<le> 2 ^ 15 * (n * unat x)" if "x \<in> set xs" for x
    using share [OF that] member_le_sum_list [of "unat x" "map unat xs"] that sum by simp
  obtain c0 where c0: "d_product ?n ?d ?d xs = Ret (Some c0)"
    "u256_val c0 = foldl (\<lambda>c x. c * unat d div (unat x * n)) (unat d) xs" "u256_val c0 \<le> 2 ^ (15 * length xs) * unat d"
    using d_product_val [where k = 0 and c = "?d" and xs = xs, OF each _ _ un n] d(2,3) len by auto
  have "(2 :: nat) ^ (15 * length xs) \<le> 2 ^ 30" using len by (intro power_increasing) simp_all
  then have c0': "u256_val c0 \<le> 2 ^ 30 * unat d" using c0(3) mult_le_mono1 order_trans by blast
  then have "u256_val c0 * unat d \<le> 2 ^ 30 * 2 ^ 96 * unat d" using d(3) by (intro mult_le_mono1 order_trans [OF c0']) simp
  then have c126: "u256_val c0 * unat d \<le> 2 ^ 126 * unat d" by simp
  also have "\<dots> \<le> 2 ^ 126 * 2 ^ 96" using d(3) by (intro mult_le_mono2) simp
  finally have small: "u256_val c0 * u256_val ?d < 2 ^ 256" by simp
  have "ann * n \<le> 2 ^ 40 * 3" using a(3) n by (intro mult_le_mono) simp_all
  then have an: "u256_val (u256_mul ?ann ?n) = ann * n" using a(1) un by (subst val_mul_nowrap) simp_all
  obtain c where c: "mul_div c0 ?d (u256_mul ?ann ?n) = Ret (Some c)" "u256_val c = u256_val c0 * unat d div (ann * n)"
    using mul_div_val [OF small, of "u256_mul ?ann ?n"] an a(2) ij(2) by auto
  obtain q where q: "u256_div ?d ?ann = Ret q" "u256_val q = unat d div ann" using u256_div_val [of ?ann ?d] a by auto
  let ?b = "u256_add (from_u128 (foldl (+) 0 xs)) q"
  have dv: "unat d div ann < 2 ^ 96" by (rule order_le_less_trans [OF div_le_dividend d(3)])
  have fs: "unat (foldl (+) 0 xs) = sum_list (map unat xs)" using foldl_plus_val [of 0 xs] sum by simp
  have s2: "u256_val (from_u128 (foldl (+) 0 xs)) + u256_val q = curve_b ann (unat d) (map unat xs)"
    by (simp only: val_from_u128 fs q(2) curve_b_def)
  have b128: "curve_b ann (unat d) (map unat xs) < 2 ^ 128" using sum dv by (simp add: curve_b_def)
  have b: "u256_val ?b = curve_b ann (unat d) (map unat xs)" using val_add_nowrap [of "from_u128 (foldl (+) 0 xs)" q] b128 unfolding s2 by simp
  have cc: "u256_val c = curve_c n ann (unat d) (map unat xs)" unfolding c(2) c0(2) curve_c_def by (simp add: foldl_map)
  have "u256_val c \<le> 2 ^ 126 * unat d" unfolding c(2) by (rule order_trans [OF div_le_dividend c126])
  then obtain y where y: "y_loop 255 ?b c ?d ?d = Ret (Some y)"
    "y_solution (int (u256_val ?b) - int (unat d)) (int (u256_val c)) (uint y)"
    using y_loop_solves [of ?d ?b c] d b128 unfolding b val_from_u128 by (auto simp del: y_loop.simps)
  have "get_y p i j x xp = y_loop 255 ?b c ?d ?d"
    using ij d(1) c0(1) c(1) q(1) unfolding xs_def n_def by (simp add: get_y_def and_some_def Let_def del: y_loop.simps)
  then show ?thesis using y unfolding b cc by (simp only: uint_nat) blast
qed

text \<open>The balances a swap meets, over the natural numbers: those of the coins other than \<open>j\<close>, the input added at \<open>i\<close>.\<close>

definition swap_balances :: "CurvePool \<Rightarrow> nat \<Rightarrow> nat \<Rightarrow> u128 \<Rightarrow> nat list" where
  "swap_balances p i j dx =
     map (\<lambda>k. (unat (raw_reserves p ! k) + (if k = i then unat dx else 0)) * unat (multipliers p ! k)) (filter (\<lambda>k. k \<noteq> j) [0..<n_coins p])"

text \<open>The output balance that keeps the stableswap invariant \<open>d\<close> after the swap, to within one.\<close>

definition swap_target :: "CurvePool \<Rightarrow> nat \<Rightarrow> nat \<Rightarrow> u128 \<Rightarrow> u128 \<Rightarrow> u128 \<Rightarrow> bool" where
  "swap_target p i j dx d y \<longleftrightarrow>
     (let xs = swap_balances p i j dx; ann = unat (amp_a p) * unat (n_pow_n p)
      in y_solution (int (curve_b ann (unat d) xs) - uint d) (int (curve_c (n_coins p) ann (unat d) xs)) (uint y))"

lemma normalized_reserve:
  assumes "k < n_coins p" and "n_coins p \<le> 3" and "unat (raw_reserves p ! k) * unat (multipliers p ! k) < 2 ^ 112"
  shows "unat (normalized_reserves p ! k) = unat (raw_reserves p ! k) * unat (multipliers p ! k)"
  using assms by (simp add: normalized_reserves_def MAX_COINS_def unat_mult_nowrap)

lemma other_balances_val:
  assumes n: "n_coins p \<le> 3" and i: "i \<noteq> j"
    and small: "\<And>k. k < n_coins p \<Longrightarrow> unat (raw_reserves p ! k) * unat (multipliers p ! k) < 2 ^ 112"
    and dx: "unat dx * unat (multipliers p ! i) < 2 ^ 112"
  shows "map unat (other_balances p i j (normalized_reserves p ! i + dx * multipliers p ! i) (normalized_reserves p)) = swap_balances p i j dx"
proof -
  have m: "unat (dx * multipliers p ! i) = unat dx * unat (multipliers p ! i)" using dx by (simp add: unat_mult_nowrap)
  have x: "unat (normalized_reserves p ! i + dx * multipliers p ! i) = (unat (raw_reserves p ! i) + unat dx) * unat (multipliers p ! i)"
    if "i < n_coins p"
  proof -
    have r: "unat (normalized_reserves p ! i) = unat (raw_reserves p ! i) * unat (multipliers p ! i)"
      using normalized_reserve [OF that n small [OF that]] .
    have "unat (normalized_reserves p ! i) + unat (dx * multipliers p ! i) < 2 ^ 128" unfolding r m using small [OF that] dx by simp
    then have "unat (normalized_reserves p ! i + dx * multipliers p ! i) = unat (normalized_reserves p ! i) + unat (dx * multipliers p ! i)"
      by (intro unat_add_nowrap) simp
    then show ?thesis unfolding r m by (simp only: distrib_right)
  qed
  have flt: "(\<lambda>k. k = i \<or> k \<noteq> j) = (\<lambda>k. k \<noteq> j)" using i by auto
  show ?thesis
    unfolding other_balances_def swap_balances_def flt map_map
  proof (rule map_cong [OF refl])
    fix k assume "k \<in> set (filter (\<lambda>k. k \<noteq> j) [0..<n_coins p])"
    then have "k < n_coins p" by simp
    then show "(unat \<circ> (\<lambda>k. if k = i then normalized_reserves p ! i + dx * multipliers p ! i else normalized_reserves p ! k)) k =
        (unat (raw_reserves p ! k) + (if k = i then unat dx else 0)) * unat (multipliers p ! k)"
      using x normalized_reserve [OF _ n small] by simp
  qed
qed

lemma swap_balances_sum:
  assumes "n_coins p \<le> 3" and small: "\<And>k. k < n_coins p \<Longrightarrow> unat (raw_reserves p ! k) * unat (multipliers p ! k) < 2 ^ 112"
    and dx: "unat dx * unat (multipliers p ! i) < 2 ^ 112"
  shows "sum_list (swap_balances p i j dx) < 2 ^ 127"
proof -
  have "x \<le> 2 ^ 113" if m: "x \<in> set (swap_balances p i j dx)" for x
  proof -
    obtain k where k: "k < n_coins p" "x = (unat (raw_reserves p ! k) + (if k = i then unat dx else 0)) * unat (multipliers p ! k)"
      using m by (auto simp: swap_balances_def)
    then show ?thesis using small [OF k(1)] dx by (simp add: distrib_right split: if_splits)
  qed
  then have "sum_list (swap_balances p i j dx) \<le> sum_list (map (\<lambda>_. 2 ^ 113) (swap_balances p i j dx))"
    using sum_list_mono [of "swap_balances p i j dx" "\<lambda>x. x" "\<lambda>_. 2 ^ 113"] by simp
  also have "\<dots> = length (swap_balances p i j dx) * 2 ^ 113" by (simp add: sum_list_triv)
  also have "\<dots> \<le> 3 * 2 ^ 113"
    using assms(1) length_filter_le [of "\<lambda>k. k \<noteq> j" "[0..<n_coins p]"] by (intro mult_le_mono1) (simp add: swap_balances_def)
  finally show ?thesis by simp
qed

text \<open>The fee and the scaling of the output.\<close>

lemma swap_net_val:
  fixes x y :: u128 and fee :: u16
  assumes "y < x" and "unat x < 2 ^ 112" and "unat fee \<le> 10000"
  shows "unat (saturating_sub (x - y) ((x - y) * ucast fee div 10000)) = unat x - unat y - (unat x - unat y) * unat fee div 10000"
proof -
  have g: "unat (x - y) = unat x - unat y" using assms(1) by (intro unat_sub) simp
  have f: "unat (ucast fee :: u128) = unat fee" using assms(3) by (simp add: unat_ucast_mod)
  have "unat (x - y) * unat fee \<le> 2 ^ 112 * 10000" using assms(2,3) g by (intro mult_le_mono) simp_all
  then have "unat ((x - y) * ucast fee) = unat (x - y) * unat fee" using f by (simp add: unat_mult_nowrap)
  then show ?thesis by (simp add: unat_saturating_sub unat_div g)
qed

text \<open>The swap for a known invariant \<open>d\<close>: the second solver converges, and the swap is refused exactly when the
  balance \<open>y\<close> it finds reaches the present one.\<close>

lemma curve_swap_given_d:
  assumes n: "n_coins p \<le> 3" and ij: "i \<noteq> j" "i < n_coins p" "j < n_coins p"
    and amp: "0 < unat (amp_a p)" "unat (amp_a p) < 2 ^ 32" and fee: "unat (curve_fee_bps p) \<le> 10000" and mul: "0 < unat (multipliers p ! j)"
    and small: "\<And>k. k < n_coins p \<Longrightarrow> unat (raw_reserves p ! k) * unat (multipliers p ! k) < 2 ^ 112"
    and dx: "unat dx * unat (multipliers p ! i) < 2 ^ 112"
    and d: "get_d p (normalized_reserves p) = Ret (Some d)" "0 < unat d" "unat d < 2 ^ 96"
    and share: "\<And>x. x \<in> set (swap_balances p i j dx) \<Longrightarrow> unat d \<le> 2 ^ 15 * (n_coins p * x)"
  shows "\<exists>y. swap_target p i j dx d y \<and>
    (let g = unat (raw_reserves p ! j) * unat (multipliers p ! j) - unat y
     in if g = 0 then calculate_swap_output p i j dx = Ret None
        else \<exists>dy. calculate_swap_output p i j dx = Ret (Some dy) \<and>
               unat dy = (g - g * unat (curve_fee_bps p) div 10000) div unat (multipliers p ! j) \<and>
               unat dy * unat (multipliers p ! j) + unat y \<le> unat (raw_reserves p ! j) * unat (multipliers p ! j))"
proof -
  let ?xp = "normalized_reserves p" and ?m = "unat (multipliers p ! j)"
  let ?x = "?xp ! i + dx * multipliers p ! i"
  have xs: "map unat (other_balances p i j ?x ?xp) = swap_balances p i j dx" using n ij(1) small dx by (rule other_balances_val)
  have xj: "unat (?xp ! j) = unat (raw_reserves p ! j) * ?m" by (rule normalized_reserve [OF ij(3) n small [OF ij(3)]])
  have sum: "sum_list (map unat (other_balances p i j ?x ?xp)) < 2 ^ 127" unfolding xs using n small dx by (rule swap_balances_sum)
  have "unat d \<le> 2 ^ 15 * (n_coins p * unat x)" if "x \<in> set (other_balances p i j ?x ?xp)" for x
    using share [of "unat x"] that unfolding xs [symmetric] by simp
  from get_y_solves [OF n ij amp d sum this]
  obtain y where y: "get_y p i j ?x ?xp = Ret (Some y)" "swap_target p i j dx d y" unfolding xs swap_target_def Let_def by blast
  have i3: "\<not> MAX_COINS \<le> i" using ij(2) n by (simp add: MAX_COINS_def)
  show ?thesis
  proof (cases "y < ?xp ! j")
    case False
    then have "unat (raw_reserves p ! j) * ?m - unat y = 0" using xj by (simp add: word_less_nat_alt)
    moreover have "calculate_swap_output p i j dx = Ret None" using y(1) False i3 by (simp add: calculate_swap_output_def Let_def and_some_def)
    ultimately show ?thesis using y(2) by auto
  next
    case True
    define g where "g = unat (raw_reserves p ! j) * ?m - unat y"
    let ?net = "saturating_sub (?xp ! j - y) ((?xp ! j - y) * ucast (curve_fee_bps p) div 10000)"
    have g: "0 < g" "g + unat y = unat (raw_reserves p ! j) * ?m" using True xj by (simp_all add: g_def word_less_nat_alt)
    have net: "unat ?net = g - g * unat (curve_fee_bps p) div 10000"
      using swap_net_val [OF True _ fee] small [OF ij(3)] xj by (simp add: g_def)
    have "calculate_swap_output p i j dx = Ret (Some (?net div multipliers p ! j))"
      using y(1) True i3 mul by (auto simp: calculate_swap_output_def Let_def and_some_def checked_div_def)
    moreover have dy: "unat (?net div multipliers p ! j) = (g - g * unat (curve_fee_bps p) div 10000) div ?m" by (simp only: unat_div net)
    moreover have "unat (?net div multipliers p ! j) * ?m \<le> g" unfolding dy by (rule order_trans [OF div_times_less_eq_dividend]) simp
    ultimately show ?thesis using y(2) g by (intro exI [of _ y]) (simp add: Let_def flip: g_def)
  qed
qed

end
