(* ===== verification/Curve_Invariant.thy ===== *)
theory Curve_Invariant
  imports Curve_Solver
begin

text \<open>
  The first Newton solver of \<open>src/crates/amm-virtualizer/src/curve.rs\<close> (\<open>get_d\<close>). For pools in a realistic range it
  is the same iteration over unbounded naturals: no step overflows, truncates or divides by zero, and every iterate
  lies between one and twice the sum of the balances. What it does not do is always converge: the floors in the
  running product make it alternate for some pools until its rounds are used up.
\<close>

section \<open>The iteration over the naturals\<close>

definition d_prod :: "nat \<Rightarrow> nat list \<Rightarrow> nat \<Rightarrow> nat" where
  "d_prod n xs d = foldl (\<lambda>c x. c * d div (x * n)) d xs"

definition d_newton :: "nat \<Rightarrow> nat \<Rightarrow> nat list \<Rightarrow> nat \<Rightarrow> nat" where
  "d_newton n ann xs d =
     (let d_p = d_prod n xs d
      in (ann * sum_list xs + d_p * n) * d div ((ann - 1) * d + (n + 1) * d_p))"

definition near :: "nat \<Rightarrow> nat \<Rightarrow> bool" where
  "near a b \<longleftrightarrow> a \<le> b + 1 \<and> b \<le> a + 1"

fun d_iterate :: "nat \<Rightarrow> nat \<Rightarrow> nat \<Rightarrow> nat list \<Rightarrow> nat \<Rightarrow> nat" where
  "d_iterate 0 n ann xs d = d"
| "d_iterate (Suc k) n ann xs d =
     (let d' = d_newton n ann xs d in if near d' d then d' else d_iterate k n ann xs d')"

lemma d_prod_one:
  assumes "xs \<noteq> []" and "2 \<le> n" and "\<forall>x \<in> set xs. 0 < x"
  shows "d_prod n xs 1 = 0"
proof -
  have zero: "foldl (\<lambda>c x. c * 1 div (x * n)) 0 ys = 0" for ys :: "nat list" by (induction ys) simp_all
  obtain x ys where xs: "xs = x # ys" using assms(1) by (cases xs) simp_all
  have "1 * 2 \<le> x * n" using assms xs by (intro mult_le_mono) (simp_all add: Suc_le_eq)
  then show ?thesis using zero by (simp add: d_prod_def xs)
qed

text \<open>Every iterate is positive and at most twice the sum.\<close>

lemma d_newton_range:
  assumes xs: "xs \<noteq> []" "\<forall>x \<in> set xs. 0 < x" and n: "2 \<le> n" and ann: "2 \<le> ann"
    and d: "0 < d" "d \<le> 2 * sum_list xs"
  shows "0 < d_newton n ann xs d" and "d_newton n ann xs d \<le> 2 * sum_list xs"
proof -
  define S p where "S = sum_list xs" and "p = d_prod n xs d"
  let ?N = "(ann * S + p * n) * d" and ?Q = "(ann - 1) * d + (n + 1) * p"
  obtain a where a: "ann = Suc (Suc a)" using ann by (metis add_2_eq_Suc le_Suc_ex)
  have S: "0 < S" using xs by (cases xs) (simp_all add: S_def)
  have Q: "0 < ?Q" using d(1) by (simp add: a)
  have aS: "ann - 1 \<le> ann * S" using S by (intro order_trans [OF diff_le_self]) simp
  have "?Q \<le> ?N"
  proof (cases "d = 1")
    case True
    then have "p = 0" using d_prod_one xs n by (simp add: p_def)
    then show ?thesis using True aS by simp
  next
    case False
    have "(ann - 1) * d \<le> ann * S * d" using aS by (rule mult_le_mono1)
    moreover have "(n + 1) * p \<le> p * n * d"
    proof -
      have "(n + 1) * p \<le> n * 2 * p" using n by (intro mult_le_mono1) simp
      also have "\<dots> \<le> n * d * p" using False d(1) by (intro mult_le_mono1 mult_le_mono2) simp
      finally show ?thesis by (simp only: ac_simps)
    qed
    ultimately have "?Q \<le> ann * S * d + p * n * d" by (rule add_mono)
    then show ?thesis by (simp only: distrib_right)
  qed
  then have "0 < ?N div ?Q" using Q by (simp only: div_greater_zero_iff)
  then show "0 < d_newton n ann xs d" by (simp only: d_newton_def S_def p_def Let_def)
  have "ann * S * d \<le> 2 * S * ((ann - 1) * d)" by (simp add: a algebra_simps)
  moreover have "p * n * d \<le> 2 * S * ((n + 1) * p)"
  proof -
    have "p * n * d \<le> p * n * (2 * S)" using d(2) by (intro mult_le_mono2) (simp add: S_def)
    also have "\<dots> \<le> 2 * S * ((n + 1) * p)" by (simp add: algebra_simps)
    finally show ?thesis .
  qed
  ultimately have "?N \<le> 2 * S * ?Q" by (simp add: algebra_simps)
  then have "?N div ?Q \<le> 2 * S * ?Q div ?Q" by (rule div_le_mono)
  also have "\<dots> = 2 * S" using Q by (intro nonzero_mult_div_cancel_right) (simp only: neq0_conv not_False_eq_True)
  finally show "d_newton n ann xs d \<le> 2 * sum_list xs" by (simp only: d_newton_def S_def p_def Let_def)
qed

text \<open>The distance of \<open>d\<close> from the root of the stableswap equation
  \<open>A n\<^sup>n S + D = A n\<^sup>n D + D\<^sup>n\<^sup>+\<^sup>1 / (n\<^sup>n \<Prod>x)\<close>, and the slope of the equation there times \<open>d\<close>.\<close>

definition d_residual :: "nat \<Rightarrow> nat \<Rightarrow> nat list \<Rightarrow> nat \<Rightarrow> int" where
  "d_residual n ann xs d = int ann * int (sum_list xs) + int d - int ann * int d - int (d_prod n xs d)"

definition d_slope :: "nat \<Rightarrow> nat \<Rightarrow> nat list \<Rightarrow> nat \<Rightarrow> nat" where
  "d_slope n ann xs d = (ann - 1) * d + (n + 1) * d_prod n xs d"

text \<open>The residual is within two slopes where a step moves by at most one.\<close>

definition d_solution :: "nat \<Rightarrow> nat \<Rightarrow> nat list \<Rightarrow> nat \<Rightarrow> bool" where
  "d_solution n ann xs d \<longleftrightarrow> \<bar>int d * d_residual n ann xs d\<bar> \<le> 2 * int (d_slope n ann xs d)"

lemma d_newton_accurate:
  assumes ann: "2 \<le> ann" and d: "0 < d" and close: "near (d_newton n ann xs d) d"
  shows "d_solution n ann xs d"
proof -
  define S p Q m where "S = int (sum_list xs)" and "p = int (d_prod n xs d)" and "Q = int (d_slope n ann xs d)"
    and "m = int (d_newton n ann xs d)"
  define A D N where "A = int ann" and "D = int d" and "N = int n"
  have Q: "Q = (A - 1) * D + (N + 1) * p" using ann by (simp add: Q_def A_def D_def N_def p_def d_slope_def of_nat_diff distrib_right)
  have "0 < d_slope n ann xs d" using ann d by (simp add: d_slope_def)
  then have pos: "0 < Q" by (simp add: Q_def)
  have m: "m = (A * S + p * N) * D div Q"
    by (simp add: m_def Q_def A_def S_def p_def N_def D_def d_newton_def d_slope_def Let_def zdiv_int)
  have "m * Q \<le> (A * S + p * N) * D" "(A * S + p * N) * D < (m + 1) * Q" unfolding m using div_sandwich [OF pos] by simp_all
  moreover have "(A * S + p * N) * D = D * Q + D * d_residual n ann xs d"
    unfolding Q d_residual_def by (simp add: A_def S_def D_def p_def algebra_simps)
  moreover have "(D - 1) * Q \<le> m * Q" "(m + 1) * Q \<le> (D + 2) * Q"
    using close pos by (intro mult_right_mono; simp add: near_def m_def D_def)+
  ultimately have "\<bar>D * d_residual n ann xs d\<bar> \<le> 2 * Q" using pos by (simp add: algebra_simps)
  then show ?thesis by (simp only: d_solution_def D_def Q_def)
qed

text \<open>How an iteration ends: with a step of at most one from a solution, or because the rounds are used up.\<close>

lemma d_iterate_ends:
  assumes "xs \<noteq> []" "\<forall>x \<in> set xs. 0 < x" "2 \<le> n" "2 \<le> ann"
  shows "\<lbrakk>0 < d; d \<le> 2 * sum_list xs\<rbrakk> \<Longrightarrow>
    d_iterate k n ann xs d = (d_newton n ann xs ^^ k) d \<or>
    (\<exists>e. d_solution n ann xs e \<and> near (d_iterate k n ann xs d) e \<and> d_iterate k n ann xs d = d_newton n ann xs e)"
proof (induction k arbitrary: d)
  case (Suc k d)
  have "0 < d_newton n ann xs d" "d_newton n ann xs d \<le> 2 * sum_list xs" using d_newton_range [OF assms Suc.prems] .
  then show ?case using Suc.IH d_newton_accurate [OF assms(4) Suc.prems(1)] by (auto simp: Let_def funpow_swap1)
qed simp

section \<open>The loop on 256-bit integers\<close>

text \<open>The ranges in which a round neither overflows nor divides by zero.\<close>

lemma d_loop_round:
  fixes d ann_u s_u n_u :: U256 and xs :: "u128 list"
  defines "D \<equiv> u256_val d" and "A \<equiv> u256_val ann_u" and "n \<equiv> u256_val n_u" and "S \<equiv> u256_val s_u"
  assumes d: "0 < D" "D < 2 ^ 96" and A: "2 \<le> A" "A < 2 ^ 40" and n: "n \<le> 3" and len: "length xs \<le> 3"
    and S: "S = sum_list (map unat xs)" "S < 2 ^ 95"
    and each: "\<And>x. x \<in> set xs \<Longrightarrow> unat x < 2 ^ 127 \<and> D \<le> 2 ^ 15 * (n * unat x)"
  shows "\<exists>d'. u256_val d' = d_newton n A (map unat xs) D \<and>
    d_loop (Suc k) ann_u s_u n_u xs d = (if u256_close d' d then Ret (Some (as_u128 d')) else d_loop k ann_u s_u n_u xs d')"
proof -
  obtain c where c: "d_product n_u d d xs = Ret (Some c)" "u256_val c = d_prod n (map unat xs) D" "u256_val c \<le> 2 ^ (15 * length xs) * D"
    using d_product_val [where k = 0 and c = d and d = d and n_u = n_u and xs = xs and n = n] each d n len
    unfolding D_def n_def d_prod_def by (auto simp: foldl_map)
  let ?p = "u256_val c"
  have "2 ^ (15 * length xs) * D \<le> 2 ^ 45 * 2 ^ 96" using len d(2) by (intro mult_le_mono power_increasing) simp_all
  then have p: "?p \<le> 2 ^ 141" using c(3) by (simp del: mult_le_mono)
  have "A * S \<le> 2 ^ 40 * 2 ^ 95" using A(2) S(2) by (intro mult_le_mono) simp_all
  then have AS: "A * S \<le> 2 ^ 135" by simp
  have "?p * n \<le> 2 ^ 141 * 3" using p n by (intro mult_le_mono) simp_all
  then have pn: "?p * n \<le> 3 * 2 ^ 141" by simp
  have e1: "u256_val (u256_mul ann_u s_u) = A * S" using AS unfolding A_def S_def by (intro val_mul_nowrap) simp
  have e2: "u256_val (u256_mul c n_u) = ?p * n" using pn unfolding n_def by (intro val_mul_nowrap) simp
  have e3: "u256_val (u256_add (u256_mul ann_u s_u) (u256_mul c n_u)) = A * S + ?p * n"
    using AS pn e1 e2 by (subst val_add_nowrap) simp_all
  have "(A * S + ?p * n) * D \<le> (2 ^ 135 + 3 * 2 ^ 141) * 2 ^ 96" using AS pn d(2) by (intro mult_le_mono [OF add_mono]) simp_all
  then have e4: "u256_val (u256_mul (u256_add (u256_mul ann_u s_u) (u256_mul c n_u)) d) = (A * S + ?p * n) * D"
    unfolding D_def e3 [symmetric] by (intro val_mul_nowrap) simp
  have s1: "u256_val (u256_sub ann_u U256_ONE) = A - 1" using A(1) by (subst u256_val_sub) (simp_all add: A_def)
  have "(A - 1) * D \<le> 2 ^ 40 * 2 ^ 96" using A(2) d(2) by (intro mult_le_mono) simp_all
  then have AD: "(A - 1) * D \<le> 2 ^ 136" by simp
  have e5: "u256_val (u256_mul (u256_sub ann_u U256_ONE) d) = (A - 1) * D" using AD s1 by (subst val_mul_nowrap) (simp_all add: D_def)
  have e6: "u256_val (u256_add n_u U256_ONE) = n + 1" using n by (subst val_add_nowrap) (simp_all add: n_def)
  have "(n + 1) * ?p \<le> 4 * 2 ^ 141" using n p by (intro mult_le_mono) simp_all
  then have np: "(n + 1) * ?p \<le> 2 ^ 143" by simp
  have e7: "u256_val (u256_mul (u256_add n_u U256_ONE) c) = (n + 1) * ?p"
    using np unfolding e6 [symmetric] by (intro val_mul_nowrap) simp
  let ?den = "u256_add (u256_mul (u256_sub ann_u U256_ONE) d) (u256_mul (u256_add n_u U256_ONE) c)"
  have e8: "u256_val ?den = (A - 1) * D + (n + 1) * ?p" using AD np e5 e7 by (subst val_add_nowrap) simp_all
  have pos: "0 < u256_val ?den" unfolding e8 using A(1) d(1) by simp
  let ?num = "u256_mul (u256_add (u256_mul ann_u s_u) (u256_mul c n_u)) d"
  obtain q where q: "u256_div ?num ?den = Ret q" "u256_val q = u256_val ?num div u256_val ?den"
    using u256_div_val [OF pos, of ?num] by blast
  have "u256_val q = d_newton n A (map unat xs) D"
    by (simp only: q(2) e4 e8 d_newton_def Let_def c(2) S(1))
  moreover have "d_loop (Suc k) ann_u s_u n_u xs d = (if u256_close q d then Ret (Some (as_u128 q)) else d_loop k ann_u s_u n_u xs q)"
    using c(1) q(1) pos by (simp add: and_some_def Let_def is_zero_iff)
  ultimately show ?thesis by blast
qed

text \<open>The whole loop is the iteration over the naturals.\<close>

lemma d_loop_iterates:
  fixes xs :: "u128 list"
  assumes vals: "u256_val ann_u = A" "u256_val n_u = n" "sum_list (map unat xs) = S"
    and A: "2 \<le> A" "A < 2 ^ 40" and n: "2 \<le> n" "n \<le> 3" and len: "xs \<noteq> []" "length xs \<le> 3"
    and S: "u256_val s_u = S" "S < 2 ^ 95" and each: "\<And>x. x \<in> set xs \<Longrightarrow> 0 < unat x \<and> 2 * S \<le> 2 ^ 15 * (n * unat x)"
  shows "\<lbrakk>0 < u256_val d; u256_val d \<le> 2 * S\<rbrakk> \<Longrightarrow>
    \<exists>v. d_loop k ann_u s_u n_u xs d = Ret (Some v) \<and> unat v = d_iterate k n A (map unat xs) (u256_val d) \<and> 0 < unat v \<and> unat v \<le> 2 * S"
proof (induction k arbitrary: d)
  case 0
  then have "u256_val d < 2 ^ 128" using S(2) by simp
  then show ?case using 0 as_u128_val(1) [of d] by simp
next
  case (Suc k d)
  have pos: "map unat xs \<noteq> []" "\<forall>x \<in> set (map unat xs). 0 < x" using len each by auto
  have D: "u256_val d < 2 ^ 96" using Suc.prems(2) S(2) by simp
  have share: "unat x < 2 ^ 127 \<and> u256_val d \<le> 2 ^ 15 * (n * unat x)" if "x \<in> set xs" for x
    using each [OF that] Suc.prems(2) S(2) member_le_sum_list [of "unat x" "map unat xs"] that unfolding vals(3) by auto
  obtain q where q: "u256_val q = d_newton n A (map unat xs) (u256_val d)"
    "d_loop (Suc k) ann_u s_u n_u xs d = (if u256_close q d then Ret (Some (as_u128 q)) else d_loop k ann_u s_u n_u xs q)"
    using d_loop_round [of d ann_u n_u xs s_u k] Suc.prems(1) D A n(2) len(2) S share unfolding vals by auto
  have range: "0 < u256_val q" "u256_val q \<le> 2 * S"
    using d_newton_range [OF pos n(1) A(1) Suc.prems [folded vals(3)]] unfolding q(1) vals(3) by simp_all
  have close: "u256_close q d \<longleftrightarrow> near (u256_val q) (u256_val d)" by (auto simp: u256_close_iff near_def)
  have "u256_val q < 2 ^ 128" using range(2) S(2) by simp
  then show ?case using Suc.IH [OF range] q(2) range as_u128_val(1) [of q] close by (auto simp: q(1) [symmetric] Let_def simp del: d_loop.simps)
qed

section \<open>The solver\<close>

text \<open>The normalized balances over the naturals, and the range of pools in which the solver is exact: two or three
  coins, a sum below \<open>2 ^ 95\<close> (at 18 decimals about 39 billion tokens), no balance smaller than the sum divided by
  \<open>2 ^ 14 n\<close>, an amplification below \<open>2 ^ 32\<close>.\<close>

definition pool_balances :: "CurvePool \<Rightarrow> nat list" where
  "pool_balances p = map (\<lambda>k. unat (raw_reserves p ! k) * unat (multipliers p ! k)) [0..<n_coins p]"

definition pool_ann :: "CurvePool \<Rightarrow> nat" where
  "pool_ann p = unat (amp_a p) * unat (n_pow_n p)"

definition solver_range :: "CurvePool \<Rightarrow> bool" where
  "solver_range p \<longleftrightarrow> (n_coins p = 2 \<or> n_coins p = 3) \<and> 0 < unat (amp_a p) \<and> unat (amp_a p) < 2 ^ 32 \<and>
     sum_list (pool_balances p) < 2 ^ 95 \<and>
     list_all (\<lambda>x. 0 < x \<and> 2 * sum_list (pool_balances p) \<le> 2 ^ 15 * (n_coins p * x)) (pool_balances p)"

lemma pool_ann_range: "0 < unat (amp_a p) \<Longrightarrow> unat (amp_a p) < 2 ^ 32 \<Longrightarrow> 4 \<le> pool_ann p \<and> pool_ann p < 2 ^ 40 \<and>
    unat (amp_a p * n_pow_n p) = pool_ann p"
proof -
  assume a: "0 < unat (amp_a p)" "unat (amp_a p) < 2 ^ 32"
  have N: "unat (n_pow_n p) \<le> 27" "4 \<le> unat (n_pow_n p)" by (simp_all add: n_pow_n_def)
  have "1 * 4 \<le> pool_ann p" "pool_ann p \<le> 2 ^ 32 * 27" unfolding pool_ann_def using a N by (intro mult_le_mono; simp)+
  then show ?thesis by (simp add: pool_ann_def unat_mult_nowrap)
qed

lemma solver_rangeD:
  assumes "solver_range p"
  shows "2 \<le> n_coins p" "n_coins p \<le> 3" "0 < unat (amp_a p)" "unat (amp_a p) < 2 ^ 32" "sum_list (pool_balances p) < 2 ^ 95"
    "x \<in> set (pool_balances p) \<Longrightarrow> 0 < x" "x \<in> set (pool_balances p) \<Longrightarrow> 2 * sum_list (pool_balances p) \<le> 2 ^ 15 * (n_coins p * x)"
  using assms by (auto simp: solver_range_def list_all_iff)

lemma pool_balance_mem: "k < n_coins p \<Longrightarrow> unat (raw_reserves p ! k) * unat (multipliers p ! k) \<in> set (pool_balances p)"
  by (simp add: pool_balances_def)

lemma pool_balance_small:
  assumes "solver_range p" and "k < n_coins p"
  shows "unat (raw_reserves p ! k) * unat (multipliers p ! k) < 2 ^ 95"
proof -
  from pool_balance_mem [OF assms(2)] have "unat (raw_reserves p ! k) * unat (multipliers p ! k) \<le> sum_list (pool_balances p)" by (intro member_le_sum_list) simp_all
  then show ?thesis using solver_rangeD(5) [OF assms(1)] by simp
qed

lemma pool_balances_val:
  assumes "solver_range p"
  shows "map unat (map (\<lambda>i. normalized_reserves p ! i) [0..<n_coins p]) = pool_balances p"
  unfolding pool_balances_def map_map
proof (rule map_cong [OF refl])
  fix k assume "k \<in> set [0..<n_coins p]"
  then have k: "k < n_coins p" by simp
  then show "(unat \<circ> (!) (normalized_reserves p)) k = unat (raw_reserves p ! k) * unat (multipliers p ! k)"
    using normalized_reserve [OF k solver_rangeD(2) [OF assms]] pool_balance_small [OF assms k] by simp
qed

lemma get_d_exact:
  fixes p defines "n \<equiv> n_coins p" and "ann \<equiv> pool_ann p" and "xs \<equiv> pool_balances p"
  assumes p: "solver_range p"
  shows "\<exists>d. get_d p (normalized_reserves p) = Ret (Some d) \<and> unat d = d_iterate 255 n ann xs (sum_list xs) \<and>
    0 < unat d \<and> unat d \<le> 2 * sum_list xs"
proof -
  let ?xs = "map (\<lambda>i. normalized_reserves p ! i) [0..<n_coins p]"
  note r = solver_rangeD [OF p]
  have xs: "map unat ?xs = xs" unfolding xs_def using p by (rule pool_balances_val)
  have len: "?xs \<noteq> []" "length ?xs \<le> 3" "xs \<noteq> []" using r(1,2) by (auto simp: xs_def pool_balances_def)
  have pos: "0 < x" "2 * sum_list xs \<le> 2 ^ 15 * (n * x)" if "x \<in> set xs" for x
    using r(6,7) [of x] that by (simp_all add: xs_def n_def)
  have s: "unat (foldl (+) 0 ?xs) = sum_list xs" using foldl_plus_val [of 0 ?xs] r(5) unfolding xs by (simp add: xs_def)
  have S: "0 < sum_list xs" using len(3) pos(1) by (cases xs) simp_all
  have un: "u256_val (from_u128 (of_nat (n_coins p))) = n" using r(2) by (simp add: n_def unat_of_nat_small)
  have ann: "u256_val (from_u128 (amp_a p * n_pow_n p)) = ann" "2 \<le> ann" "ann < 2 ^ 40"
    using pool_ann_range [OF r(3,4)] by (simp_all add: ann_def)
  let ?s = "from_u128 (foldl (+) 0 ?xs)"
  have us: "u256_val ?s = sum_list xs" using s by simp
  have each: "0 < unat x \<and> 2 * sum_list xs \<le> 2 ^ 15 * (n * unat x)" if "x \<in> set ?xs" for x
    using pos [of "unat x"] imageI [OF that, of unat] unfolding set_map [symmetric] xs by blast
  obtain d where d: "d_loop 255 (from_u128 (amp_a p * n_pow_n p)) ?s (from_u128 (of_nat (n_coins p))) ?xs ?s = Ret (Some d)"
    "unat d = d_iterate 255 n ann xs (sum_list xs)" "0 < unat d" "unat d \<le> 2 * sum_list xs"
    using d_loop_iterates [OF ann(1) un arg_cong [OF xs] ann(2,3) _ _ len(1,2) us _ each S [folded us], of 255] r(1,2,5)
    unfolding xs us n_def xs_def by auto
  have "foldl (+) 0 ?xs \<noteq> 0" using s S by (metis unat_0 less_irrefl)
  then have "get_d p (normalized_reserves p) = Ret (Some d)" using d(1) by (simp add: get_d_def Let_def del: d_loop.simps)
  then show ?thesis using d(2-4) by blast
qed

lemma d_iterate_two_cycle:
  assumes "d_newton n ann xs a = b" "d_newton n ann xs b = a" "\<not> near a b"
  shows "d_iterate (2 * k) n ann xs a = a"
  using assms by (induction k) (auto simp: Let_def near_def)

section \<open>Properties\<close>

text \<open>C27: The solver for the stableswap invariant always answers and is exact.  For every pool in the range, \<open>get_d\<close>
  neither panics nor gives up: its 256-bit arithmetic is the Newton iteration over the naturals started at the sum
  \<open>S\<close> of the balances, the result is positive and at most \<open>2 S\<close>, and unless the 255 rounds were used up it was
  reached by a last step of at most one unit from a value whose residual in the stableswap equation is within twice
  the slope of the equation.\<close>

theorem curve_invariant_solver:
  assumes p: "solver_range p"
  shows "\<exists>d. get_d p (normalized_reserves p) = Ret (Some d) \<and>
    unat d = d_iterate 255 (n_coins p) (pool_ann p) (pool_balances p) (sum_list (pool_balances p)) \<and>
    0 < unat d \<and> unat d \<le> 2 * sum_list (pool_balances p) \<and>
    (unat d = (d_newton (n_coins p) (pool_ann p) (pool_balances p) ^^ 255) (sum_list (pool_balances p)) \<or>
     (\<exists>e. d_solution (n_coins p) (pool_ann p) (pool_balances p) e \<and> near (unat d) e \<and>
          unat d = d_newton (n_coins p) (pool_ann p) (pool_balances p) e))"
proof -
  let ?xs = "pool_balances p"
  note r = solver_rangeD [OF p]
  have xs: "?xs \<noteq> []" "\<forall>x \<in> set ?xs. 0 < x" using r(1,6) by (auto simp: pool_balances_def)
  then have "0 < sum_list ?xs" by (cases ?xs) simp_all
  then show ?thesis
    using get_d_exact [OF p] d_iterate_ends [OF xs, of "n_coins p" "pool_ann p" "sum_list ?xs" 255] r(1) pool_ann_range [OF r(3,4)]
    by auto
qed

theorem curve_invariant_solver_witness:
  "\<exists>d. get_d (new_2pool 3000 1000 18 18 10 4) [3000, 1000, 0] = Ret (Some d) \<and> 0 < unat d \<and> unat d \<le> 8000"
proof -
  let ?p = "new_2pool 3000 1000 18 18 10 4"
  have p: "n_coins ?p = 2" "raw_reserves ?p = [3000, 1000, 0]" "multipliers ?p = [1, 1, 1]" "amp_a ?p = 10"
    by (simp_all add: new_2pool_def decimals_multiplier_def)
  have b: "pool_balances ?p = [3000, 1000]" by (simp add: pool_balances_def p upt_rec)
  have "solver_range ?p" by (simp add: solver_range_def b p)
  moreover have "normalized_reserves ?p = [3000, 1000, 0]" by (simp add: normalized_reserves_def p MAX_COINS_def upt_rec)
  ultimately show ?thesis using curve_invariant_solver [of ?p] by (auto simp: b)
qed

text \<open>C26: A stableswap swap always answers, and with the right amount.  For a pool in the range of the solver and a
  bounded input, the invariant \<open>d\<close> is found, the second solver converges within its 255 rounds without overflow,
  truncation or a zero denominator; the balance \<open>y\<close> it finds satisfies the quadratic \<open>y\<^sup>2 + b y = c + d y\<close> to
  within one unit; the swap is refused exactly when \<open>y\<close> reaches the present balance, and otherwise pays the
  difference less the fee, rounded down, so the pool keeps at least \<open>y\<close> of the output coin.\<close>

theorem curve_swap_on_curve:
  assumes p: "solver_range p" and ij: "i \<noteq> j" "i < n_coins p" "j < n_coins p"
    and fee: "unat (curve_fee_bps p) \<le> 10000" and dx: "unat dx * unat (multipliers p ! i) < 2 ^ 112"
  shows "\<exists>d y. get_d p (normalized_reserves p) = Ret (Some d) \<and> swap_target p i j dx d y \<and>
    (let g = unat (raw_reserves p ! j) * unat (multipliers p ! j) - unat y
     in if g = 0 then calculate_swap_output p i j dx = Ret None
        else \<exists>dy. calculate_swap_output p i j dx = Ret (Some dy) \<and>
               unat dy = (g - g * unat (curve_fee_bps p) div 10000) div unat (multipliers p ! j) \<and>
               unat dy * unat (multipliers p ! j) + unat y \<le> unat (raw_reserves p ! j) * unat (multipliers p ! j))"
proof -
  note r = solver_rangeD [OF p]
  obtain d where d: "get_d p (normalized_reserves p) = Ret (Some d)" "0 < unat d" "unat d \<le> 2 * sum_list (pool_balances p)"
    using get_d_exact [OF p] by blast
  have d96: "unat d < 2 ^ 96" using d(3) r(5) by simp
  have mul: "0 < unat (multipliers p ! j)" using r(6) [OF pool_balance_mem [OF ij(3)]] by simp
  have small: "unat (raw_reserves p ! k) * unat (multipliers p ! k) < 2 ^ 112" if "k < n_coins p" for k
    using pool_balance_small [OF p that] by simp
  have share: "unat d \<le> 2 ^ 15 * (n_coins p * x)" if x: "x \<in> set (swap_balances p i j dx)" for x
  proof -
    obtain k where k: "k < n_coins p" "unat (raw_reserves p ! k) * unat (multipliers p ! k) \<le> x"
      using x by (auto simp: swap_balances_def)
    have "2 * sum_list (pool_balances p) \<le> 2 ^ 15 * (n_coins p * (unat (raw_reserves p ! k) * unat (multipliers p ! k)))"
      by (rule r(7) [OF pool_balance_mem [OF k(1)]])
    also have "\<dots> \<le> 2 ^ 15 * (n_coins p * x)" using k(2) by (intro mult_le_mono2)
    finally show ?thesis by (rule order_trans [OF d(3)])
  qed
  show ?thesis using curve_swap_given_d [OF r(2) ij r(3,4) fee mul small dx d(1,2) d96 share] d(1) by blast
qed

theorem curve_swap_on_curve_witness:
  "\<exists>d y. get_d (new_3pool 1000000 1000000 1000000 18 18 18 100 4) [1000000, 1000000, 1000000] = Ret (Some d) \<and>
    swap_target (new_3pool 1000000 1000000 1000000 18 18 18 100 4) 0 1 1000 d y \<and>
    (let g = 1000000 - unat y
     in if g = 0 then calculate_swap_output (new_3pool 1000000 1000000 1000000 18 18 18 100 4) 0 1 1000 = Ret None
        else \<exists>dy. calculate_swap_output (new_3pool 1000000 1000000 1000000 18 18 18 100 4) 0 1 1000 = Ret (Some dy) \<and>
               unat dy = g - g * 4 div 10000 \<and> unat dy + unat y \<le> 1000000)"
proof -
  let ?p = "new_3pool 1000000 1000000 1000000 18 18 18 100 4"
  have p: "n_coins ?p = 3" "raw_reserves ?p = [1000000, 1000000, 1000000]" "multipliers ?p = [1, 1, 1]" "amp_a ?p = 100" "curve_fee_bps ?p = 4"
    by (simp_all add: new_3pool_def decimals_multiplier_def)
  have xp: "normalized_reserves ?p = [1000000, 1000000, 1000000]" by (simp add: normalized_reserves_def p MAX_COINS_def upt_rec)
  have b: "pool_balances ?p = [1000000, 1000000, 1000000]" by (simp add: pool_balances_def p upt_rec)
  have "solver_range ?p" by (simp add: solver_range_def b p)
  then show ?thesis using curve_swap_on_curve [of ?p 0 1 1000] by (simp add: p xp Let_def cong: if_cong)
qed

text \<open>The iteration need not converge: for this pool its values alternate between two numbers that differ by two,
  so the test for convergence never holds and the solver returns the value of its last round.\<close>

theorem curve_invariant_oscillates:
  fixes p defines "p \<equiv> new_2pool 912272 584 18 18 1 4"
  shows "get_d p (normalized_reserves p) = Ret (Some 187419) \<and>
    d_newton 2 4 (pool_balances p) 187419 = 187421 \<and> d_newton 2 4 (pool_balances p) 187421 = 187419"
proof -
  have p: "n_coins p = 2" "raw_reserves p = [912272, 584, 0]" "multipliers p = [1, 1, 1]" "amp_a p = 1"
    by (simp_all add: p_def new_2pool_def decimals_multiplier_def)
  have b: "pool_balances p = [912272, 584]" by (simp add: pool_balances_def p upt_rec)
  have r: "solver_range p" by (simp add: solver_range_def b p)
  have ann: "pool_ann p = 4" by (simp add: pool_ann_def n_pow_n_def p)
  have cycle: "d_newton 2 4 [912272, 584] 187419 = 187421" "d_newton 2 4 [912272, 584] 187421 = 187419"
    by (simp_all add: d_newton_def d_prod_def)
  have run: "d_iterate (Suc (Suc (Suc (Suc (Suc (Suc (Suc k))))))) 2 4 [912272, 584] 912856 = d_iterate k 2 4 [912272, 584] 187419" for k
    by (simp add: d_newton_def d_prod_def near_def)
  have "d_iterate 255 2 4 [912272, 584] 912856 = 187419"
    using run [of "2 * 124"] d_iterate_two_cycle [OF cycle, of 124] by (simp add: near_def)
  then obtain d where "get_d p (normalized_reserves p) = Ret (Some d)" "unat d = 187419" using get_d_exact [OF r] by (auto simp: b p ann)
  moreover have "d = of_nat (unat d)" by simp
  ultimately show ?thesis using cycle by (simp add: b)
qed

end
