(* ===== verification/Isolated_Queue.thy ===== *)
theory Isolated_Queue
  imports Spsc_Ring "HOL-Library.Sublist"
begin

text \<open>
  The isolated consumer queue of \<open>src/crates/core-engine/src/simulator.rs\<close>: a ring like that of
  \<open>SpscRingBuffer\<close> whose producer never waits. When the ring is full it either drops the new item or
  advances the consumer's cursor over the oldest one, and counts what it did. The four cursors and the
  buffer are kept in a \<^typ>\<open>'a SpscRingBuffer\<close>, whose invariant is reused here.
\<close>

section \<open>State and operations\<close>

datatype SaturationDropPolicy = DropNewest | DropOldest

datatype PushResult = Enqueued | DroppedNewest | EvictedOldest

record QueueMetrics =
  total_enqueued :: u64
  total_dropped :: u64
  total_evicted :: u64
  total_consumed :: u64
  saturation_events :: u64

definition queue_metrics_new :: QueueMetrics where
  "queue_metrics_new = \<lparr>total_enqueued = 0, total_dropped = 0, total_evicted = 0, total_consumed = 0,
     saturation_events = 0\<rparr>"

record 'a IsolatedConsumerQueue =
  iq_ring :: "'a SpscRingBuffer"
  iq_metrics :: QueueMetrics

abbreviation iq_n :: "'a IsolatedConsumerQueue \<Rightarrow> nat" where
  "iq_n q \<equiv> ring_n (iq_ring q)"

definition iq_new :: "nat \<Rightarrow> 'a \<Rightarrow> 'a IsolatedConsumerQueue outcome" where
  "iq_new n dflt =
     (if is_power_of_two n
      then Ret \<lparr>iq_ring = \<lparr>producer_cursor = 0, cached_consumer_cursor = 0, consumer_cursor = 0,
                  cached_producer_cursor = 0, ring_buffer = replicate n dflt\<rparr>,
                iq_metrics = queue_metrics_new\<rparr>
      else Panic)"

text \<open>The write of the slot followed by the store of the producer cursor, which occurs three times.\<close>

definition iq_write :: "'a SpscRingBuffer \<Rightarrow> u64 \<Rightarrow> 'a \<Rightarrow> 'a SpscRingBuffer" where
  "iq_write r current_head item =
     r\<lparr>ring_buffer := (ring_buffer r)[slot_index r current_head := item],
       producer_cursor := current_head + 1\<rparr>"

definition push_with_policy ::
  "'a IsolatedConsumerQueue \<Rightarrow> 'a \<Rightarrow> SaturationDropPolicy \<Rightarrow> 'a IsolatedConsumerQueue \<times> PushResult" where
  "push_with_policy q item policy =
     (let r = iq_ring q; m = iq_metrics q;
          current_head = producer_cursor r;
          cached_tail = cached_consumer_cursor r
      in if current_head < cached_tail + of_nat (ring_n r)
         then (q\<lparr>iq_ring := iq_write r current_head item,
                 iq_metrics := m\<lparr>total_enqueued := total_enqueued m + 1\<rparr>\<rparr>, Enqueued)
         else
           let actual_tail = consumer_cursor r;
               r = r\<lparr>cached_consumer_cursor := actual_tail\<rparr>
           in if current_head < actual_tail + of_nat (ring_n r)
              then (q\<lparr>iq_ring := iq_write r current_head item,
                      iq_metrics := m\<lparr>total_enqueued := total_enqueued m + 1\<rparr>\<rparr>, Enqueued)
              else
                let m = m\<lparr>saturation_events := saturation_events m + 1\<rparr>
                in case policy of
                     DropNewest \<Rightarrow>
                       (q\<lparr>iq_ring := r, iq_metrics := m\<lparr>total_dropped := total_dropped m + 1\<rparr>\<rparr>,
                        DroppedNewest)
                   | DropOldest \<Rightarrow>
                       let new_tail = actual_tail + 1;
                           r = r\<lparr>consumer_cursor := new_tail\<rparr>;
                           r = r\<lparr>cached_consumer_cursor := new_tail\<rparr>
                       in (q\<lparr>iq_ring := iq_write r current_head item,
                             iq_metrics := m\<lparr>total_evicted := total_evicted m + 1\<rparr>\<rparr>,
                           EvictedOldest))"

text \<open>\<open>try_pop\<close>, cut where the consumer has decided to read but has not read yet.\<close>

definition iq_pop_begin :: "'a IsolatedConsumerQueue \<Rightarrow> 'a IsolatedConsumerQueue \<times> u64 option" where
  "iq_pop_begin q =
     (let r = iq_ring q;
          current_tail = consumer_cursor r;
          cached_head = cached_producer_cursor r
      in if current_tail \<ge> cached_head
         then let actual_head = producer_cursor r;
                  q = q\<lparr>iq_ring := r\<lparr>cached_producer_cursor := actual_head\<rparr>\<rparr>
              in if current_tail \<ge> actual_head then (q, None) else (q, Some current_tail)
         else (q, Some current_tail))"

definition iq_pop_end :: "'a IsolatedConsumerQueue \<Rightarrow> u64 \<Rightarrow> 'a IsolatedConsumerQueue \<times> 'a" where
  "iq_pop_end q current_tail =
     (let r = iq_ring q; m = iq_metrics q;
          item = ring_buffer r ! slot_index r current_tail
      in (q\<lparr>iq_ring := r\<lparr>consumer_cursor := current_tail + 1\<rparr>,
            iq_metrics := m\<lparr>total_consumed := total_consumed m + 1\<rparr>\<rparr>, item))"

definition iq_try_pop :: "'a IsolatedConsumerQueue \<Rightarrow> 'a IsolatedConsumerQueue \<times> 'a option" where
  "iq_try_pop q =
     (case iq_pop_begin q of
        (q, None) \<Rightarrow> (q, None)
      | (q, Some current_tail) \<Rightarrow> (case iq_pop_end q current_tail of (q, item) \<Rightarrow> (q, Some item)))"

definition iq_is_empty :: "'a IsolatedConsumerQueue \<Rightarrow> bool" where
  "iq_is_empty q \<longleftrightarrow> consumer_cursor (iq_ring q) \<ge> producer_cursor (iq_ring q)"

definition iq_len :: "'a IsolatedConsumerQueue \<Rightarrow> u64" where
  "iq_len q = saturating_sub (producer_cursor (iq_ring q)) (consumer_cursor (iq_ring q))"

section \<open>One operation on a well-formed ring\<close>

lemma iq_try_pop_ring:
  "iq_try_pop q = (case try_pop (iq_ring q) of
     (r', res) \<Rightarrow> (q\<lparr>iq_ring := r', iq_metrics := (if res = None then iq_metrics q
        else (iq_metrics q)\<lparr>total_consumed := total_consumed (iq_metrics q) + 1\<rparr>)\<rparr>, res))"
  by (simp add: iq_try_pop_def iq_pop_begin_def iq_pop_end_def try_pop_def Let_def slot_index_def)

lemma iq_write_holds:
  assumes "ring_holds r hist t" "length hist < t + ring_n r" "length hist + 1 + ring_n r < 2 ^ 64"
  shows "ring_holds (iq_write r (producer_cursor r) x) (hist @ [x]) t"
proof -
  note w = ring_holds_write [OF assms(1,2), of x]
  show ?thesis using ring_holds_publish [OF conjunct1 [OF w], of x] w assms by (simp add: iq_write_def)
qed

lemma ring_n_iq_write [simp]: "ring_n (iq_write r h x) = ring_n r"
  by (simp add: iq_write_def)

lemma ring_holds_evict:
  assumes "ring_holds r hist t" "length hist = t + ring_n r"
  shows "ring_holds (r\<lparr>consumer_cursor := consumer_cursor r + 1, cached_consumer_cursor := consumer_cursor r + 1\<rparr>)
    hist (t + 1)"
proof -
  have "0 < ring_n r" using assms(1) power_of_two_bounds unfolding ring_holds_def by blast
  then have "t < length hist" using assms(2) by simp
  from ring_holds_take [OF assms(1) this] show ?thesis by (simp add: ring_holds_def)
qed

definition spec_push :: "nat \<Rightarrow> 'a list \<Rightarrow> 'a \<Rightarrow> SaturationDropPolicy \<Rightarrow> 'a list \<times> PushResult" where
  "spec_push n xs x policy =
     (if length xs < n then (xs @ [x], Enqueued)
      else case policy of DropNewest \<Rightarrow> (xs, DroppedNewest) | DropOldest \<Rightarrow> (tl xs @ [x], EvictedOldest))"

fun count_push :: "PushResult \<Rightarrow> QueueMetrics \<Rightarrow> QueueMetrics" where
  "count_push Enqueued m = m\<lparr>total_enqueued := total_enqueued m + 1\<rparr>"
| "count_push DroppedNewest m =
     m\<lparr>saturation_events := saturation_events m + 1, total_dropped := total_dropped m + 1\<rparr>"
| "count_push EvictedOldest m =
     m\<lparr>saturation_events := saturation_events m + 1, total_evicted := total_evicted m + 1\<rparr>"

lemma push_with_policy_holds:
  assumes hold: "ring_holds (iq_ring q) hist t" and room: "length hist + 1 + iq_n q < 2 ^ 64"
    and push: "push_with_policy q x policy = (q', res)"
  shows "iq_n q' = iq_n q \<and> iq_metrics q' = count_push res (iq_metrics q) \<and>
    res = (if length hist < t + iq_n q then Enqueued
           else case policy of DropNewest \<Rightarrow> DroppedNewest | DropOldest \<Rightarrow> EvictedOldest) \<and>
    (case res of Enqueued \<Rightarrow> ring_holds (iq_ring q') (hist @ [x]) t
     | DroppedNewest \<Rightarrow> ring_holds (iq_ring q') hist t
     | EvictedOldest \<Rightarrow> ring_holds (iq_ring q') (hist @ [x]) (t + 1))"
proof -
  let ?r = "iq_ring q"
  let ?h = "producer_cursor ?r" and ?c = "cached_consumer_cursor ?r" and ?t = "consumer_cursor ?r"
  let ?r1 = "?r\<lparr>cached_consumer_cursor := ?t\<rparr>"
  let ?r2 = "?r\<lparr>consumer_cursor := ?t + 1, cached_consumer_cursor := ?t + 1\<rparr>"
  have un: "unat ?c + iq_n q < 2 ^ 64" "unat ?t + iq_n q < 2 ^ 64" and t: "unat ?t = t" "t \<le> length hist"
    and h: "unat ?h = length hist" and c: "unat ?c \<le> t" and le: "length hist \<le> t + iq_n q"
    using hold by (simp_all add: ring_holds_def)
  have r1: "ring_holds ?r1 hist t" using hold by (simp add: ring_holds_def)
  have fast: "?h < ?c + of_nat (iq_n q) \<longleftrightarrow> length hist < unat ?c + iq_n q"
    and slow: "?h < ?t + of_nat (iq_n q) \<longleftrightarrow> length hist < t + iq_n q"
    using full_check [OF un(1), of ?h] full_check [OF un(2), of ?h] h t by (simp_all add: not_le [symmetric])
  consider (cached) "length hist < unat ?c + iq_n q" | (reload) "\<not> length hist < unat ?c + iq_n q" "length hist < t + iq_n q"
    | (full) "\<not> length hist < unat ?c + iq_n q" "length hist = t + iq_n q"
    using le by linarith
  then show ?thesis
  proof cases
    case cached
    then have "length hist < t + iq_n q" using c by simp
    with iq_write_holds [OF hold this room, of x] cached push show ?thesis
      by (auto simp: push_with_policy_def Let_def fast)
  next
    case reload
    with iq_write_holds [OF r1, of x] room push show ?thesis
      by (auto simp: push_with_policy_def Let_def fast slow)
  next
    case full
    have r2: "ring_holds ?r2 hist (t + 1)" using ring_holds_evict [OF hold full(2)] by simp
    have "ring_holds (iq_write ?r2 ?h x) (hist @ [x]) (t + 1)"
      using iq_write_holds [OF r2, of x] full room by simp
    moreover have "\<not> length hist < t + iq_n q" using full by simp
    ultimately show ?thesis using full(1) push r1
      by (cases policy) (auto simp: push_with_policy_def Let_def fast slow)
  qed
qed


lemma push_with_policy_spec:
  assumes "ring_inv (Suc k) (iq_ring q)" and push: "push_with_policy q x policy = (q', res)"
  shows "ring_inv k (iq_ring q')" "iq_n q' = iq_n q" "iq_metrics q' = count_push res (iq_metrics q)"
    "(ring_items (iq_ring q'), res) = spec_push (iq_n q) (ring_items (iq_ring q)) x policy"
proof -
  obtain hist where hist: "ring_holds (iq_ring q) hist (unat (consumer_cursor (iq_ring q)))"
      "length hist + Suc k + iq_n q < 2 ^ 64"
    using assms(1) by (auto simp: ring_inv_def)
  let ?t = "unat (consumer_cursor (iq_ring q))"
  have room: "length hist + 1 + iq_n q < 2 ^ 64" using hist(2) by simp
  note * = push_with_policy_holds [OF hist(1) room push]
  show n: "iq_n q' = iq_n q" and "iq_metrics q' = count_push res (iq_metrics q)" using * by simp_all
  define hist' t' where "hist' = (if res = DroppedNewest then hist else hist @ [x])"
    and "t' = (if res = EvictedOldest then ?t + 1 else ?t)"
  have hold: "ring_holds (iq_ring q') hist' t'"
    using * by (cases res) (simp_all add: hist'_def t'_def)
  have "length hist' + k + iq_n q' < 2 ^ 64" using hist(2) n by (simp add: hist'_def)
  then show "ring_inv k (iq_ring q')" unfolding ring_inv_def using ring_holds_tail [OF hold] hold by blast
  have items: "ring_items (iq_ring q) = drop ?t hist" "ring_items (iq_ring q') = drop t' hist'"
    using ring_items_hist [OF hist(1)] ring_items_hist [OF hold] by simp_all
  have "?t \<le> length hist" "length hist \<le> ?t + iq_n q" using hist(1) by (simp_all add: ring_holds_def)
  moreover have "0 < iq_n q" using hist(1) power_of_two_bounds unfolding ring_holds_def by blast
  then have "Suc 0 - iq_n q = 0" by linarith
  moreover have "drop (Suc ?t) hist = tl (drop ?t hist)" by (simp add: drop_Suc drop_tl)
  ultimately show "(ring_items (iq_ring q'), res) = spec_push (iq_n q) (ring_items (iq_ring q)) x policy"
    using * by (cases policy) (auto simp: items hist'_def t'_def spec_push_def)
qed

lemma iq_try_pop_spec:
  assumes "ring_inv k (iq_ring q)" and pop: "iq_try_pop q = (q', res)"
  shows "ring_inv k (iq_ring q')" "iq_n q' = iq_n q"
    "iq_metrics q' = (if res = None then iq_metrics q
       else (iq_metrics q)\<lparr>total_consumed := total_consumed (iq_metrics q) + 1\<rparr>)"
    "res = (case ring_items (iq_ring q) of [] \<Rightarrow> None | y # ys \<Rightarrow> Some y)"
    "ring_items (iq_ring q') = tl (ring_items (iq_ring q))"
proof -
  obtain r' where p: "try_pop (iq_ring q) = (r', res)" and q': "iq_ring q' = r'" and
    m: "iq_metrics q' = (if res = None then iq_metrics q
       else (iq_metrics q)\<lparr>total_consumed := total_consumed (iq_metrics q) + 1\<rparr>)"
    using pop by (auto simp: iq_try_pop_ring split: prod.splits)
  show "iq_metrics q' = (if res = None then iq_metrics q
       else (iq_metrics q)\<lparr>total_consumed := total_consumed (iq_metrics q) + 1\<rparr>)" by (rule m)
  show "ring_inv k (iq_ring q')" "iq_n q' = iq_n q" using spsc.pop_inv [OF assms(1) p] q' by simp_all
  show "res = (case ring_items (iq_ring q) of [] \<Rightarrow> None | y # ys \<Rightarrow> Some y)"
    "ring_items (iq_ring q') = tl (ring_items (iq_ring q))"
    using spsc.pop_items [OF assms(1) p] q' by (auto split: list.splits)
qed

lemma iq_new_inv:
  assumes "iq_new n dflt = Ret q" "k + n < 2 ^ 64"
  shows "ring_inv k (iq_ring q)" "ring_items (iq_ring q) = []" "iq_n q = n" "iq_metrics q = queue_metrics_new"
proof -
  have r: "spsc_new n dflt = Ret (iq_ring q)"
    and "iq_metrics q = queue_metrics_new" "iq_n q = n"
    using assms(1) by (auto simp: iq_new_def spsc_new_def split: if_splits)
  then show "iq_metrics q = queue_metrics_new" "iq_n q = n" by simp_all
  have hold: "ring_holds (iq_ring q) [] 0" using sys_inv_init [OF r] assms(2) by (simp add: sys_inv_def sys_init_def)
  show "ring_inv k (iq_ring q)" unfolding ring_inv_def
    using assms(2) by (intro exI [of _ "[]"]) (simp add: ring_holds_tail [OF hold] hold \<open>iq_n q = n\<close>)
  show "ring_items (iq_ring q) = []" using ring_items_hist [OF hold] by simp
qed

section \<open>Runs\<close>

datatype 'a iq_op = IqPush 'a SaturationDropPolicy | IqPop

fun iq_step :: "'a IsolatedConsumerQueue \<times> 'a list \<Rightarrow> 'a iq_op \<Rightarrow> 'a IsolatedConsumerQueue \<times> 'a list" where
  "iq_step (q, out) (IqPush x policy) = (fst (push_with_policy q x policy), out)"
| "iq_step (q, out) IqPop =
     (case iq_try_pop q of (q, None) \<Rightarrow> (q, out) | (q, Some x) \<Rightarrow> (q, out @ [x]))"

fun op_pushed :: "'a iq_op \<Rightarrow> 'a list" where
  "op_pushed (IqPush x _) = [x]"
| "op_pushed IqPop = []"

text \<open>What the counters say of the contents, of what was handed out and of what was offered.\<close>

definition metrics_ok :: "QueueMetrics \<Rightarrow> nat \<Rightarrow> nat \<Rightarrow> nat \<Rightarrow> bool" where
  "metrics_ok m pushes consumed len \<longleftrightarrow>
     unat (total_enqueued m) + unat (total_dropped m) + unat (total_evicted m) = pushes \<and>
     unat (total_consumed m) = consumed \<and>
     unat (saturation_events m) = unat (total_dropped m) + unat (total_evicted m) \<and>
     unat (total_enqueued m) = consumed + len"

lemma metrics_ok_push:
  assumes "metrics_ok m p c l" "p + 1 < 2 ^ 64"
  shows "metrics_ok (count_push Enqueued m) (p + 1) c (l + 1)"
    "metrics_ok (count_push DroppedNewest m) (p + 1) c l" "metrics_ok (count_push EvictedOldest m) (p + 1) c l"
  using assms by (simp_all add: metrics_ok_def unat_Suc_nowrap)

lemma metrics_ok_pop:
  assumes "metrics_ok m p c (l + 1)" "p < 2 ^ 64"
  shows "metrics_ok (m\<lparr>total_consumed := total_consumed m + 1\<rparr>) p (c + 1) l"
  using assms by (simp add: metrics_ok_def unat_Suc_nowrap)

definition iq_run_inv :: "nat \<Rightarrow> nat \<Rightarrow> 'a list \<Rightarrow> 'a IsolatedConsumerQueue \<times> 'a list \<Rightarrow> bool" where
  "iq_run_inv n k pushed s \<longleftrightarrow> ring_inv k (iq_ring (fst s)) \<and> iq_n (fst s) = n \<and>
     length (ring_items (iq_ring (fst s))) \<le> n \<and>
     metrics_ok (iq_metrics (fst s)) (length pushed) (length (snd s)) (length (ring_items (iq_ring (fst s)))) \<and>
     subseq (snd s @ ring_items (iq_ring (fst s))) pushed"

lemma subseq_append_tl: "subseq (xs @ ys) zs \<Longrightarrow> subseq (xs @ tl ys) zs"
  by (rule subseq_order.trans [of _ "xs @ ys"]) (auto intro: list_emb_append_mono suffix_tl suffix_imp_subseq)

lemma iq_push_run_inv:
  assumes inv: "iq_run_inv n (Suc k) pushed (q, out)" and room: "length pushed + 1 < 2 ^ 64" "0 < n"
  shows "iq_run_inv n k (pushed @ [x]) (fst (push_with_policy q x policy), out)"
proof -
  obtain q' res where p: "push_with_policy q x policy = (q', res)" by (cases "push_with_policy q x policy")
  let ?xs = "ring_items (iq_ring q)"
  have r: "ring_inv (Suc k) (iq_ring q)" and n: "iq_n q = n" and sub: "subseq (out @ ?xs) pushed" and len: "length ?xs \<le> n"
    and m: "metrics_ok (iq_metrics q) (length pushed) (length out) (length ?xs)"
    using inv by (simp_all add: iq_run_inv_def)
  note s = push_with_policy_spec [OF r p]
  have keep: "subseq (out @ ?xs @ [x]) (pushed @ [x])" using sub by (simp flip: append_assoc)
  have shift: "subseq (out @ tl ?xs @ [x]) (pushed @ [x])"
    using subseq_append_tl [OF sub] by (simp flip: append_assoc)
  have tl: "length (tl ?xs @ [x]) = length ?xs" if "\<not> length ?xs < n" using that \<open>0 < n\<close> by (cases ?xs) auto
  note mm = metrics_ok_push [OF m room(1)]
  have more: "subseq (out @ ?xs) (pushed @ [x])" using sub by (rule subseq_order.trans) (simp add: prefix_imp_subseq)
  show ?thesis
    unfolding p fst_conv iq_run_inv_def snd_conv
    using s n len keep shift tl mm more
    by (cases policy) (simp_all add: spec_push_def split: if_splits)
qed

lemma iq_pop_run_inv:
  assumes inv: "iq_run_inv n k pushed (q, out)" and room: "length pushed < 2 ^ 64"
  shows "iq_run_inv n k pushed (iq_step (q, out) IqPop)"
proof -
  obtain q' res where p: "iq_try_pop q = (q', res)" by (cases "iq_try_pop q")
  have r: "ring_inv k (iq_ring q)" using inv by (simp add: iq_run_inv_def)
  note s = iq_try_pop_spec [OF r p]
  show ?thesis
  proof (cases "ring_items (iq_ring q)")
    case Nil
    then show ?thesis using s inv by (simp add: iq_run_inv_def p)
  next
    case (Cons y ys)
    then have "metrics_ok (iq_metrics q) (length pushed) (length out) (length ys + 1)"
      using inv by (simp add: iq_run_inv_def)
    from metrics_ok_pop [OF this room] Cons show ?thesis using s inv by (simp add: iq_run_inv_def p)
  qed
qed

lemma iq_runs_inv:
  assumes "iq_run_inv n (length ops) pushed s" "length pushed + length ops < 2 ^ 64" "0 < n"
  shows "iq_run_inv n 0 (pushed @ concat (map op_pushed ops)) (foldl iq_step s ops)"
  using assms
proof (induction ops arbitrary: s pushed)
  case (Cons oper ops)
  obtain q out where s: "s = (q, out)" by (cases s)
  have "iq_run_inv n (length ops) (pushed @ op_pushed oper) (iq_step s oper)"
  proof (cases oper)
    case (IqPush x policy)
    then show ?thesis using iq_push_run_inv [of n "length ops" pushed q out x policy] Cons.prems s by simp
  next
    case IqPop
    have "iq_run_inv n (length ops) pushed (q, out)"
      using Cons.prems(1) unfolding s iq_run_inv_def by (auto simp: ring_inv_def intro: exI)
    then show ?thesis using iq_pop_run_inv [of n "length ops" pushed q out] Cons.prems IqPop s by simp
  qed
  moreover have "length (pushed @ op_pushed oper) + length ops < 2 ^ 64"
    using Cons.prems(2) by (cases oper) simp_all
  ultimately show ?case using Cons.IH [of "pushed @ op_pushed oper" "iq_step s oper"] Cons.prems(3) by simp
qed simp

section \<open>Properties\<close>

text \<open>C32: Used from one thread the isolated queue is a bounded queue whose producer never waits: a
  push appends while fewer than \<open>N\<close> items are queued; on a full queue it leaves the contents alone
  (\<open>DropNewest\<close>) or replaces the oldest item by the newest at the other end (\<open>DropOldest\<close>); its result
  says which. A pop returns the oldest item. \<open>len\<close> and \<open>is_empty\<close> are those of the contents, and
  well-formedness is kept.\<close>

theorem isolated_queue_refines:
  assumes "ring_inv (Suc k) (iq_ring q)"
  shows "(case push_with_policy q x policy of (q', res) \<Rightarrow> ring_inv k (iq_ring q') \<and> iq_n q' = iq_n q \<and>
            (ring_items (iq_ring q'), res) = spec_push (iq_n q) (ring_items (iq_ring q)) x policy) \<and>
    (case iq_try_pop q of (q', res) \<Rightarrow> ring_inv (Suc k) (iq_ring q') \<and> iq_n q' = iq_n q \<and>
            res = (case ring_items (iq_ring q) of [] \<Rightarrow> None | y # ys \<Rightarrow> Some y) \<and>
            ring_items (iq_ring q') = tl (ring_items (iq_ring q))) \<and>
    unat (iq_len q) = length (ring_items (iq_ring q)) \<and> iq_is_empty q = (ring_items (iq_ring q) = [])"
proof -
  obtain q1 res1 where push: "push_with_policy q x policy = (q1, res1)" by (cases "push_with_policy q x policy")
  obtain q2 res2 where pop: "iq_try_pop q = (q2, res2)" by (cases "iq_try_pop q")
  have "unat (iq_len q) = length (ring_items (iq_ring q))" "iq_is_empty q = (ring_items (iq_ring q) = [])"
    by (auto simp: iq_len_def iq_is_empty_def ring_items_def unat_saturating_sub word_le_nat_alt)
  then show ?thesis
    using push_with_policy_spec [OF assms push] iq_try_pop_spec [OF assms pop] by (simp add: push pop)
qed

theorem isolated_queue_refines_witness:
  "\<exists>q. iq_new 2 (0 :: nat) = Ret q \<and> ring_inv (Suc 9) (iq_ring q) \<and>
     ring_items (iq_ring (fst (push_with_policy q 5 DropOldest))) = [5]"
proof -
  obtain q where q: "iq_new 2 (0 :: nat) = Ret q"
    by (simp add: iq_new_def is_power_of_two_def upt_conv_Cons)
  have inv: "ring_inv (Suc 9) (iq_ring q)" by (rule iq_new_inv(1) [OF q]) simp
  show ?thesis
    using isolated_queue_refines [OF inv, of 5 DropOldest] iq_new_inv [OF q, of 0] q inv
    by (auto simp: spec_push_def split: prod.splits)
qed

text \<open>After any sequence of pushes, with any mixture of policies, and pops on a fresh queue, the
  counters account for every item: each push is counted once as enqueued, dropped or evicting, the
  saturation counter is the sum of the last two, and the items enqueued are the items consumed plus
  those still queued. What the consumer has received, followed by what is queued, is a subsequence of
  what was pushed: nothing is reordered, duplicated or invented.\<close>

theorem isolated_queue_accounting:
  assumes "iq_new n dflt = Ret q" and "length ops + n < 2 ^ 64" and "foldl iq_step (q, []) ops = (q', out)"
  shows "metrics_ok (iq_metrics q') (length (concat (map op_pushed ops))) (length out) (unat (iq_len q')) \<and>
    unat (iq_len q') \<le> n \<and> subseq (out @ ring_items (iq_ring q')) (concat (map op_pushed ops))"
proof -
  note new = iq_new_inv [OF assms(1,2)]
  have "0 < n" using assms(1) power_of_two_bounds by (auto simp: iq_new_def split: if_splits)
  have "iq_run_inv n (length ops) [] (q, [])"
    using new by (simp add: iq_run_inv_def metrics_ok_def queue_metrics_new_def)
  from iq_runs_inv [OF this _ \<open>0 < n\<close>] assms(2,3)
  have inv: "iq_run_inv n 0 (concat (map op_pushed ops)) (q', out)" by simp
  have "unat (iq_len q') = length (ring_items (iq_ring q'))"
    by (simp add: iq_len_def ring_items_def unat_saturating_sub)
  with inv show ?thesis by (simp add: iq_run_inv_def)
qed

theorem isolated_queue_accounting_witness:
  "\<exists>q q' out. iq_new 1 (0 :: nat) = Ret q \<and>
     foldl iq_step (q, []) [IqPush 4 DropOldest, IqPush 5 DropOldest, IqPush 6 DropNewest, IqPop] = (q', out) \<and>
     out = [5] \<and> subseq out [4, 5, 6]"
proof -
  let ?q = "\<lparr>iq_ring = \<lparr>producer_cursor = 0, cached_consumer_cursor = 0, consumer_cursor = 0,
    cached_producer_cursor = 0, ring_buffer = [0 :: nat]\<rparr>, iq_metrics = queue_metrics_new\<rparr>"
  let ?ops = "[IqPush 4 DropOldest, IqPush 5 DropOldest, IqPush 6 DropNewest, IqPop]"
  have q: "iq_new 1 (0 :: nat) = Ret ?q" by (simp add: iq_new_def is_power_of_two_def upt_conv_Cons)
  have five: "snd (foldl iq_step (?q, []) ?ops) = [5]"
    by (simp add: push_with_policy_def iq_write_def iq_try_pop_def iq_pop_begin_def iq_pop_end_def Let_def
        slot_index_def word_le_nat_alt word_less_nat_alt)
  obtain q' out where run: "foldl iq_step (?q, []) ?ops = (q', out)" by (cases "foldl iq_step (?q, []) ?ops")
  then have "out = [5]" using five by (simp only: snd_conv)
  moreover have "subseq (out @ ring_items (iq_ring q')) [4, 5, 6]"
    using isolated_queue_accounting [OF q _ run] by (simp del: foldl_Cons)
  then have "subseq out [4, 5, 6]" by (rule subseq_order.trans [rotated]) (simp add: prefix_imp_subseq)
  ultimately show ?thesis using q run by blast
qed

end
