(* ===== verification/Isolated_Threads.thy ===== *)
theory Isolated_Threads
  imports Isolated_Queue
begin

text \<open>
  The isolated consumer queue of \<open>src/crates/core-engine/src/simulator.rs\<close> cut at every access to shared
  memory, counters included, so that a producer and a consumer thread can be interleaved. Under the policy
  that drops the newest item the ring accesses are those of the SPSC ring: the threads simulate the system
  of \<open>Spsc_Ring\<close>, and its invariant carries over. The policy that evicts the oldest item stores the
  consumer's cursor from the producer; a run shows what that does.
\<close>

section \<open>The steps\<close>

datatype 'a iq_ppc =
    QIdle | QLoadTail 'a SaturationDropPolicy u64 | QSaturated 'a SaturationDropPolicy u64 u64 | QCountDropped 'a
  | QEvict 'a u64 u64 | QWrite 'a u64 PushResult | QPublish 'a u64 PushResult | QCountEnqueued | QCountEvicted

datatype 'a iq_cpc = KIdle | KLoadHead u64 | KRead u64 | KPublish 'a u64 | KCount 'a

fun iq_producer_step ::
  "'a \<times> SaturationDropPolicy \<Rightarrow> 'a IsolatedConsumerQueue \<times> 'a iq_ppc \<Rightarrow> 'a IsolatedConsumerQueue \<times> 'a iq_ppc" where
  "iq_producer_step (item, policy) (q, QIdle) =
     (let r = iq_ring q; current_head = producer_cursor r
      in (q, if current_head < cached_consumer_cursor r + of_nat (ring_n r) then QWrite item current_head Enqueued
             else QLoadTail item policy current_head))"
| "iq_producer_step _ (q, QLoadTail item policy current_head) =
     (let r = iq_ring q; actual_tail = consumer_cursor r
      in (q\<lparr>iq_ring := r\<lparr>cached_consumer_cursor := actual_tail\<rparr>\<rparr>,
          if current_head < actual_tail + of_nat (ring_n r) then QWrite item current_head Enqueued
          else QSaturated item policy current_head actual_tail))"
| "iq_producer_step _ (q, QSaturated item policy current_head actual_tail) =
     (let m = iq_metrics q
      in (q\<lparr>iq_metrics := m\<lparr>saturation_events := saturation_events m + 1\<rparr>\<rparr>,
          case policy of DropNewest \<Rightarrow> QCountDropped item | DropOldest \<Rightarrow> QEvict item current_head actual_tail))"
| "iq_producer_step _ (q, QCountDropped item) =
     (let m = iq_metrics q in (q\<lparr>iq_metrics := m\<lparr>total_dropped := total_dropped m + 1\<rparr>\<rparr>, QIdle))"
| "iq_producer_step _ (q, QEvict item current_head actual_tail) =
     (q\<lparr>iq_ring := (iq_ring q)\<lparr>consumer_cursor := actual_tail + 1, cached_consumer_cursor := actual_tail + 1\<rparr>\<rparr>,
      QWrite item current_head EvictedOldest)"
| "iq_producer_step _ (q, QWrite item current_head res) =
     (let r = iq_ring q
      in (q\<lparr>iq_ring := r\<lparr>ring_buffer := (ring_buffer r)[slot_index r current_head := item]\<rparr>\<rparr>,
          QPublish item current_head res))"
| "iq_producer_step _ (q, QPublish item current_head res) =
     (q\<lparr>iq_ring := (iq_ring q)\<lparr>producer_cursor := current_head + 1\<rparr>\<rparr>,
      if res = Enqueued then QCountEnqueued else QCountEvicted)"
| "iq_producer_step _ (q, QCountEnqueued) =
     (let m = iq_metrics q in (q\<lparr>iq_metrics := m\<lparr>total_enqueued := total_enqueued m + 1\<rparr>\<rparr>, QIdle))"
| "iq_producer_step _ (q, QCountEvicted) =
     (let m = iq_metrics q in (q\<lparr>iq_metrics := m\<lparr>total_evicted := total_evicted m + 1\<rparr>\<rparr>, QIdle))"

fun iq_consumer_step :: "'a IsolatedConsumerQueue \<times> 'a iq_cpc \<Rightarrow> 'a IsolatedConsumerQueue \<times> 'a iq_cpc" where
  "iq_consumer_step (q, KIdle) =
     (let r = iq_ring q; current_tail = consumer_cursor r
      in (q, if current_tail \<ge> cached_producer_cursor r then KLoadHead current_tail else KRead current_tail))"
| "iq_consumer_step (q, KLoadHead current_tail) =
     (let r = iq_ring q; actual_head = producer_cursor r
      in (q\<lparr>iq_ring := r\<lparr>cached_producer_cursor := actual_head\<rparr>\<rparr>,
          if current_tail \<ge> actual_head then KIdle else KRead current_tail))"
| "iq_consumer_step (q, KRead current_tail) =
     (let r = iq_ring q in (q, KPublish (ring_buffer r ! slot_index r current_tail) current_tail))"
| "iq_consumer_step (q, KPublish item current_tail) =
     (q\<lparr>iq_ring := (iq_ring q)\<lparr>consumer_cursor := current_tail + 1\<rparr>\<rparr>, KCount item)"
| "iq_consumer_step (q, KCount item) =
     (let m = iq_metrics q in (q\<lparr>iq_metrics := m\<lparr>total_consumed := total_consumed m + 1\<rparr>\<rparr>, KIdle))"

text \<open>Run alone, the steps of a thread are the whole operation.\<close>

fun iq_run_push :: "nat \<Rightarrow> 'a \<times> SaturationDropPolicy \<Rightarrow> 'a IsolatedConsumerQueue \<times> 'a iq_ppc \<Rightarrow> 'a IsolatedConsumerQueue \<times> PushResult option" where
  "iq_run_push 0 _ (q, _) = (q, None)"
| "iq_run_push (Suc k) arg (q, pc) =
     (case iq_producer_step arg (q, pc) of
        (q', QIdle) \<Rightarrow> (q', Some (case pc of QCountDropped _ \<Rightarrow> DroppedNewest | QCountEvicted \<Rightarrow> EvictedOldest | _ \<Rightarrow> Enqueued))
      | (q', pc') \<Rightarrow> iq_run_push k arg (q', pc'))"

lemma iq_run_push_Suc:
  "iq_run_push (Suc k) arg (q, pc) = (let t = iq_producer_step arg (q, pc) in
     if snd t = QIdle
     then (fst t, Some (case pc of QCountDropped _ \<Rightarrow> DroppedNewest | QCountEvicted \<Rightarrow> EvictedOldest | _ \<Rightarrow> Enqueued))
     else iq_run_push k arg (fst t, snd t))"
  by (cases "iq_producer_step arg (q, pc)"; cases "snd (iq_producer_step arg (q, pc))") simp_all

lemma iq_run_push_whole: "iq_run_push 7 (x, policy) (q, QIdle) = apsnd Some (push_with_policy q x policy)"
proof -
  let ?r = "iq_ring q"
  have seven: "7 = Suc (Suc (Suc (Suc (Suc (Suc (Suc 0))))))" by simp
  note run = push_with_policy_def iq_write_def slot_index_def Let_def iq_run_push_Suc
  show ?thesis
  proof (cases "producer_cursor ?r < cached_consumer_cursor ?r + of_nat (ring_n ?r)")
    case True
    then show ?thesis unfolding seven by (simp add: run del: iq_run_push.simps(2))
  next
    case empty: False
    show ?thesis
    proof (cases "producer_cursor ?r < consumer_cursor ?r + of_nat (ring_n ?r)")
      case True
      then show ?thesis using empty unfolding seven by (simp add: run del: iq_run_push.simps(2))
    next
      case False
      then show ?thesis using empty unfolding seven by (cases policy) (simp_all add: run del: iq_run_push.simps(2))
    qed
  qed
qed

fun iq_run_pop :: "nat \<Rightarrow> 'a IsolatedConsumerQueue \<times> 'a iq_cpc \<Rightarrow> 'a IsolatedConsumerQueue \<times> 'a option" where
  "iq_run_pop 0 (q, _) = (q, None)"
| "iq_run_pop (Suc k) (q, pc) =
     (case iq_consumer_step (q, pc) of
        (q', KIdle) \<Rightarrow> (q', case pc of KCount x \<Rightarrow> Some x | _ \<Rightarrow> None)
      | (q', pc') \<Rightarrow> iq_run_pop k (q', pc'))"

lemma iq_run_pop_whole: "iq_run_pop 5 (q, KIdle) = iq_try_pop q"
  by (simp add: iq_try_pop_def iq_pop_begin_def iq_pop_end_def slot_index_def Let_def eval_nat_numeral)

section \<open>The threads\<close>

text \<open>With the items published, refused and taken so far; an item counts as taken when the consumer's cursor moves.\<close>

record 'a iq_sys =
  iqs_queue :: "'a IsolatedConsumerQueue"
  iqs_ppc :: "'a iq_ppc"
  iqs_cpc :: "'a iq_cpc"
  iqs_pushed :: "'a list"
  iqs_refused :: "'a list"
  iqs_popped :: "'a list"

definition iqs_init :: "'a IsolatedConsumerQueue \<Rightarrow> 'a iq_sys" where
  "iqs_init q = \<lparr>iqs_queue = q, iqs_ppc = QIdle, iqs_cpc = KIdle, iqs_pushed = [], iqs_refused = [], iqs_popped = []\<rparr>"

definition producer_turn :: "'a \<times> SaturationDropPolicy \<Rightarrow> 'a iq_sys \<Rightarrow> 'a iq_sys" where
  "producer_turn arg s = (case iq_producer_step arg (iqs_queue s, iqs_ppc s) of (q, pc) \<Rightarrow>
     s\<lparr>iqs_queue := q, iqs_ppc := pc,
       iqs_pushed := (case iqs_ppc s of QPublish x _ _ \<Rightarrow> iqs_pushed s @ [x] | _ \<Rightarrow> iqs_pushed s),
       iqs_refused := (case iqs_ppc s of QCountDropped x \<Rightarrow> iqs_refused s @ [x] | _ \<Rightarrow> iqs_refused s)\<rparr>)"

definition consumer_turn :: "'a iq_sys \<Rightarrow> 'a iq_sys" where
  "consumer_turn s = (case iq_consumer_step (iqs_queue s, iqs_cpc s) of (q, pc) \<Rightarrow>
     s\<lparr>iqs_queue := q, iqs_cpc := pc,
       iqs_popped := (case iqs_cpc s of KPublish x _ \<Rightarrow> iqs_popped s @ [x] | _ \<Rightarrow> iqs_popped s)\<rparr>)"

text \<open>All pushes use the policy \<open>p\<close>.\<close>

inductive iq_reachable :: "SaturationDropPolicy \<Rightarrow> nat \<Rightarrow> 'a \<Rightarrow> 'a iq_sys \<Rightarrow> bool" for p n dflt where
  iq_start: "iq_new n dflt = Ret q \<Longrightarrow> iq_reachable p n dflt (iqs_init q)"
| iq_producer: "iq_reachable p n dflt s \<Longrightarrow> iq_reachable p n dflt (producer_turn (item, p) s)"
| iq_consumer: "iq_reachable p n dflt s \<Longrightarrow> iq_reachable p n dflt (consumer_turn s)"

section \<open>Simulation of the SPSC system\<close>

fun abs_ppc :: "'a iq_ppc \<Rightarrow> 'a producer_pc" where
  "abs_ppc (QLoadTail x p h) = PLoadTail x h"
| "abs_ppc (QWrite x h res) = PWrite x h"
| "abs_ppc (QPublish x h res) = PPublish x h"
| "abs_ppc _ = PIdle"

fun abs_cpc :: "'a iq_cpc \<Rightarrow> 'a consumer_pc" where
  "abs_cpc (KLoadHead t) = CLoadHead t"
| "abs_cpc (KRead t) = CRead t"
| "abs_cpc (KPublish x t) = CPublish x t"
| "abs_cpc _ = CIdle"

definition abs_sys :: "'a iq_sys \<Rightarrow> 'a spsc_sys" where
  "abs_sys s = \<lparr>sys_ring = iq_ring (iqs_queue s), sys_ppc = abs_ppc (iqs_ppc s), sys_cpc = abs_cpc (iqs_cpc s),
     sys_pushed = iqs_pushed s, sys_popped = iqs_popped s\<rparr>"

text \<open>The places of the eviction are never entered.\<close>

fun newest_only :: "'a iq_ppc \<Rightarrow> bool" where
  "newest_only (QLoadTail x p h) = (p = DropNewest)"
| "newest_only (QSaturated x p h t) = (p = DropNewest)"
| "newest_only (QEvict x h t) = False"
| "newest_only (QWrite x h res) = (res = Enqueued)"
| "newest_only (QPublish x h res) = (res = Enqueued)"
| "newest_only QCountEvicted = False"
| "newest_only _ = True"

lemma newest_only_step: "newest_only pc \<Longrightarrow> newest_only (snd (iq_producer_step (item, DropNewest) (q, pc)))"
  by (cases pc) (auto simp: Let_def)

lemma spsc_producer_record:
  "spsc_step \<lparr>sys_ring = r, sys_ppc = pc, sys_cpc = c, sys_pushed = ps, sys_popped = qs\<rparr>
     \<lparr>sys_ring = fst (producer_step item (r, pc)), sys_ppc = snd (producer_step item (r, pc)), sys_cpc = c,
      sys_pushed = (case pc of PPublish x _ \<Rightarrow> ps @ [x] | _ \<Rightarrow> ps), sys_popped = qs\<rparr>"
  using by_producer [of item "\<lparr>sys_ring = r, sys_ppc = pc, sys_cpc = c, sys_pushed = ps, sys_popped = qs\<rparr>"
      "fst (producer_step item (r, pc))" "snd (producer_step item (r, pc))"] by (cases pc) simp_all

lemma spsc_consumer_record:
  "spsc_step \<lparr>sys_ring = r, sys_ppc = pc, sys_cpc = c, sys_pushed = ps, sys_popped = qs\<rparr>
     \<lparr>sys_ring = fst (consumer_step (r, c)), sys_ppc = pc, sys_cpc = snd (consumer_step (r, c)),
      sys_pushed = ps, sys_popped = (case c of CPublish x _ \<Rightarrow> qs @ [x] | _ \<Rightarrow> qs)\<rparr>"
  using by_consumer [of "\<lparr>sys_ring = r, sys_ppc = pc, sys_cpc = c, sys_pushed = ps, sys_popped = qs\<rparr>"
      "fst (consumer_step (r, c))" "snd (consumer_step (r, c))"] by (cases c) simp_all

lemma producer_simulates:
  assumes "newest_only (iqs_ppc s)"
  shows "spsc_step (abs_sys s) (abs_sys (producer_turn (item, DropNewest) s)) \<or>
    abs_sys (producer_turn (item, DropNewest) s) = abs_sys s"
proof -
  note step = spsc_producer_record [of "iq_ring (iqs_queue s)" "abs_ppc (iqs_ppc s)" "abs_cpc (iqs_cpc s)" "iqs_pushed s" "iqs_popped s" item]
  show ?thesis
  proof (cases "iqs_ppc s")
    case QIdle
    let ?full = "cached_consumer_cursor (iq_ring (iqs_queue s)) + of_nat (iq_n (iqs_queue s)) \<le> producer_cursor (iq_ring (iqs_queue s))"
    have "(producer_cursor (iq_ring (iqs_queue s)) < cached_consumer_cursor (iq_ring (iqs_queue s)) + of_nat (iq_n (iqs_queue s))) = (\<not> ?full)"
      by (simp add: not_le)
    then show ?thesis using step QIdle by (cases ?full) (simp_all add: abs_sys_def producer_turn_def Let_def)
  next
    case (QLoadTail x p h)
    let ?full = "consumer_cursor (iq_ring (iqs_queue s)) + of_nat (iq_n (iqs_queue s)) \<le> h"
    have "(h < consumer_cursor (iq_ring (iqs_queue s)) + of_nat (iq_n (iqs_queue s))) = (\<not> ?full)" by (simp add: not_le)
    then show ?thesis using step QLoadTail by (cases ?full) (simp_all add: abs_sys_def producer_turn_def Let_def)
  qed (use step assms in \<open>simp_all add: abs_sys_def producer_turn_def Let_def\<close>)
qed

lemma consumer_simulates:
  "spsc_step (abs_sys s) (abs_sys (consumer_turn s)) \<or> abs_sys (consumer_turn s) = abs_sys s"
  using spsc_consumer_record [of "iq_ring (iqs_queue s)" "abs_ppc (iqs_ppc s)" "abs_cpc (iqs_cpc s)" "iqs_pushed s" "iqs_popped s"]
  by (cases "iqs_cpc s") (auto simp: abs_sys_def consumer_turn_def Let_def)

lemma iq_reachable_spsc:
  "iq_reachable p n dflt s \<Longrightarrow> p = DropNewest \<Longrightarrow> newest_only (iqs_ppc s) \<and> spsc_reachable n dflt (abs_sys s)"
proof (induction rule: iq_reachable.induct)
  case (iq_start q)
  have "spsc_reachable n dflt (sys_init (iq_ring q))"
    using iq_start by (intro spsc_start) (auto simp: iq_new_def spsc_new_def split: if_splits)
  moreover have "abs_sys (iqs_init q) = sys_init (iq_ring q)" by (simp add: abs_sys_def iqs_init_def sys_init_def)
  ultimately show ?case by (simp add: iqs_init_def)
next
  case (iq_producer s item)
  have "newest_only (iqs_ppc (producer_turn (item, DropNewest) s))"
    using newest_only_step [of "iqs_ppc s" item "iqs_queue s"] iq_producer by (simp add: producer_turn_def case_prod_beta)
  then show ?case using iq_producer producer_simulates [of s item] by (metis spsc_more)
next
  case (iq_consumer s)
  have "iqs_ppc (consumer_turn s) = iqs_ppc s" by (simp add: consumer_turn_def case_prod_beta)
  then show ?case using iq_consumer consumer_simulates [of s] by (metis spsc_more)
qed

section \<open>The counters\<close>

text \<open>What is still to be counted for an item that has been published, refused or taken.\<close>

definition counts_ok :: "'a iq_sys \<Rightarrow> bool" where
  "counts_ok s \<longleftrightarrow> (let m = iq_metrics (iqs_queue s) in
     total_enqueued m + (if iqs_ppc s = QCountEnqueued then 1 else 0) = of_nat (length (iqs_pushed s)) \<and>
     total_dropped m = of_nat (length (iqs_refused s)) \<and>
     saturation_events m = of_nat (length (iqs_refused s)) + (case iqs_ppc s of QCountDropped _ \<Rightarrow> 1 | _ \<Rightarrow> 0) \<and>
     total_evicted m = 0 \<and>
     total_consumed m + (case iqs_cpc s of KCount _ \<Rightarrow> 1 | _ \<Rightarrow> 0) = of_nat (length (iqs_popped s)))"

lemma counts_producer: "counts_ok s \<Longrightarrow> newest_only (iqs_ppc s) \<Longrightarrow> counts_ok (producer_turn (item, DropNewest) s)"
  by (cases "iqs_ppc s") (auto simp: counts_ok_def producer_turn_def Let_def)

lemma counts_consumer: "counts_ok s \<Longrightarrow> counts_ok (consumer_turn s)"
  by (cases "iqs_cpc s") (auto simp: counts_ok_def consumer_turn_def Let_def)

lemma iq_reachable_counts: "iq_reachable p n dflt s \<Longrightarrow> p = DropNewest \<Longrightarrow> counts_ok s"
proof (induction rule: iq_reachable.induct)
  case (iq_start q)
  then show ?case by (auto simp: counts_ok_def iqs_init_def iq_new_def queue_metrics_new_def split: if_splits)
next
  case (iq_producer s item)
  then show ?case using iq_reachable_spsc [OF iq_producer.hyps] by (simp add: counts_producer)
qed (simp add: counts_consumer)

section \<open>Properties\<close>

text \<open>C31: With the policy that drops the newest item the queue is safe under every interleaving of the accesses of
  its two threads: the consumer takes the published items in order, without loss or duplication, at most
  \<open>N\<close> items are in flight, the producer never writes the slot the consumer is about to read, and whenever
  both threads are between operations the counters are the numbers of items published, refused and taken.\<close>

theorem isolated_newest_interleaving_safe:
  assumes "iq_reachable DropNewest n dflt s" and "length (iqs_pushed s) + 1 + n < 2 ^ 64"
  shows "iqs_popped s = take (length (iqs_popped s)) (iqs_pushed s) \<and>
    length (iqs_pushed s) \<le> length (iqs_popped s) + n \<and>
    (\<forall>x head res tail. iqs_ppc s = QWrite x head res \<and> iqs_cpc s = KRead tail \<longrightarrow>
       slot_index (iq_ring (iqs_queue s)) head \<noteq> slot_index (iq_ring (iqs_queue s)) tail) \<and>
    (iqs_ppc s = QIdle \<and> iqs_cpc s = KIdle \<longrightarrow>
       iq_metrics (iqs_queue s) = \<lparr>total_enqueued = of_nat (length (iqs_pushed s)), total_dropped = of_nat (length (iqs_refused s)),
         total_evicted = 0, total_consumed = of_nat (length (iqs_popped s)), saturation_events = of_nat (length (iqs_refused s))\<rparr>)"
proof -
  have r: "spsc_reachable n dflt (abs_sys s)" using iq_reachable_spsc [OF assms(1)] by simp
  have c: "counts_ok s" using iq_reachable_counts [OF assms(1)] by simp
  have "iqs_popped s = take (length (iqs_popped s)) (iqs_pushed s) \<and> length (iqs_pushed s) \<le> length (iqs_popped s) + n \<and>
      (\<forall>x head tail. abs_ppc (iqs_ppc s) = PWrite x head \<and> abs_cpc (iqs_cpc s) = CRead tail \<longrightarrow>
         slot_index (iq_ring (iqs_queue s)) head \<noteq> slot_index (iq_ring (iqs_queue s)) tail)"
    using spsc_reachable_safe [OF r] assms(2) by (simp add: abs_sys_def)
  moreover have "iq_metrics (iqs_queue s) = \<lparr>total_enqueued = of_nat (length (iqs_pushed s)),
      total_dropped = of_nat (length (iqs_refused s)), total_evicted = 0, total_consumed = of_nat (length (iqs_popped s)),
      saturation_events = of_nat (length (iqs_refused s))\<rparr>" if "iqs_ppc s = QIdle" "iqs_cpc s = KIdle"
    using c that by (cases "iq_metrics (iqs_queue s)") (simp add: counts_ok_def)
  ultimately show ?thesis by simp
qed

text \<open>A schedule: \<open>Some x\<close> is a step of the producer, whose next push is of \<open>x\<close>, \<open>None\<close> a step of the consumer.\<close>

definition iq_run :: "SaturationDropPolicy \<Rightarrow> 'a option list \<Rightarrow> 'a iq_sys \<Rightarrow> 'a iq_sys" where
  "iq_run p = fold (\<lambda>turn s. case turn of Some x \<Rightarrow> producer_turn (x, p) s | None \<Rightarrow> consumer_turn s)"

lemma iq_run_reachable: "iq_reachable p n dflt s \<Longrightarrow> iq_reachable p n dflt (iq_run p turns s)"
  by (induction turns arbitrary: s) (auto simp: iq_run_def iq_producer iq_consumer split: option.split)

theorem isolated_newest_interleaving_safe_witness:
  "\<exists>q s. iq_new 2 (0 :: nat) = Ret q \<and> s = iq_run DropNewest (replicate 4 (Some 7) @ [None, None, None, None, None]) (iqs_init q) \<and>
     iqs_pushed s = [7] \<and> iqs_popped s = [7] \<and> iqs_popped s = take (length (iqs_popped s)) (iqs_pushed s)"
proof -
  have "case iq_new 2 (0 :: nat) of Panic \<Rightarrow> False | Ret q \<Rightarrow>
      (let s = iq_run DropNewest (replicate 4 (Some 7) @ [None, None, None, None, None]) (iqs_init q)
       in iqs_pushed s = [7] \<and> iqs_popped s = [7])" by code_simp
  then obtain q :: "nat IsolatedConsumerQueue" where q: "iq_new 2 0 = Ret q" and
      v: "let s = iq_run DropNewest (replicate 4 (Some 7) @ [None, None, None, None, None]) (iqs_init q)
       in iqs_pushed s = [7] \<and> iqs_popped s = [7]" by (cases "iq_new 2 (0 :: nat)") simp_all
  let ?s = "iq_run DropNewest (replicate 4 (Some 7) @ [None, None, None, None, None]) (iqs_init q)"
  have reach: "iq_reachable DropNewest 2 0 ?s" by (rule iq_run_reachable [OF iq_start [OF q]])
  have "iqs_pushed ?s = [7]" "iqs_popped ?s = [7]" using v by (simp_all add: Let_def)
  moreover from this have "iqs_popped ?s = take (length (iqs_popped ?s)) (iqs_pushed ?s)"
    using isolated_newest_interleaving_safe [OF reach] by simp
  ultimately show ?thesis using q by blast
qed

text \<open>With the policy that evicts the oldest item the order is lost. The producer may evict while the consumer is
  between its check and its read of the slot; the consumer then reads the item that has just overwritten
  the slot and stores the cursor the producer had already stored. On a queue of two items, in which 10 and
  11 are queued and the push of 12 falls into that window, the consumer takes 12, then 11, then 12 again.\<close>

definition race_turns :: "nat option list" where
  "race_turns = replicate 4 (Some 10) @ replicate 4 (Some 11) @ [None, None] @ replicate 7 (Some 12) @ replicate 12 None"

theorem isolated_oldest_interleaving_race:
  "\<exists>s. iq_reachable DropOldest 2 0 s \<and> iqs_pushed s = [10, 11, 12 :: nat] \<and> iqs_popped s = [12, 11, 12]"
proof -
  have "case iq_new 2 (0 :: nat) of Panic \<Rightarrow> False | Ret q \<Rightarrow>
      (let s = iq_run DropOldest race_turns (iqs_init q) in iqs_pushed s = [10, 11, 12] \<and> iqs_popped s = [12, 11, 12])" by code_simp
  then obtain q where q: "iq_new 2 (0 :: nat) = Ret q" and
      v: "let s = iq_run DropOldest race_turns (iqs_init q) in iqs_pushed s = [10, 11, 12] \<and> iqs_popped s = [12, 11, 12]"
    by (cases "iq_new 2 (0 :: nat)") simp_all
  show ?thesis using iq_run_reachable [OF iq_start [OF q], of DropOldest race_turns] v by (auto simp: Let_def)
qed

end
