(* ===== verification/Feed_Simulator.thy ===== *)
theory Feed_Simulator
  imports Ingest_Models
begin

text \<open>
  The mock exchange feed of \<open>src/crates/core-engine/src/simulator.rs\<close>: its xorshift generator, the
  tagged events and the generation of a burst. The generator is state that every draw updates; a draw
  from a range of width zero divides by zero.
\<close>

section \<open>The generator\<close>

record FastPrng =
  prng_state :: u64

definition prng_new :: "u64 \<Rightarrow> FastPrng" where
  "prng_new seed = \<lparr>prng_state = (if seed = 0 then 0xdeadbeefcafebabe else seed)\<rparr>"

definition next_u64 :: "FastPrng \<Rightarrow> FastPrng \<times> u64" where
  "next_u64 p =
     (let x = prng_state p;
          x = x XOR drop_bit 12 x;
          x = x XOR push_bit 25 x;
          x = x XOR drop_bit 27 x
      in (p\<lparr>prng_state := x\<rparr>, x * 0x2545f4914f6cdd1d))"

definition gen_range :: "FastPrng \<Rightarrow> u64 \<Rightarrow> u64 \<Rightarrow> (FastPrng \<times> u64) outcome" where
  "gen_range p lo hi =
     (if lo \<ge> hi then Ret (p, lo)
      else let (p, r) = next_u64 p
           in if hi - lo + 1 = 0 then Panic else Ret (p, lo + r mod (hi - lo + 1)))"

definition gen_price_delta :: "FastPrng \<Rightarrow> i64 \<Rightarrow> (FastPrng \<times> i64) outcome" where
  "gen_price_delta p max_tick_jump =
     (let (p, r) = next_u64 p
      in if max_tick_jump * 2 + 1 = 0 then Panic
         else let raw = r mod (max_tick_jump * 2 + 1) in Ret (p, raw - max_tick_jump))"

section \<open>Events\<close>

datatype SimulatedVenue = BinanceCeFi | OkxCeFi | UniswapV3DeFi

datatype FeedEventKind = BboEvent | TradeEvent

record SimulatedFeedEvent =
  ev_kind :: FeedEventKind
  ev_venue_id :: u16
  ev_market_id :: u32
  ev_bbo :: NormalizedBbo
  ev_trade :: UnifiedTrade

definition event_default :: SimulatedFeedEvent where
  "event_default = \<lparr>ev_kind = BboEvent, ev_venue_id = 0, ev_market_id = 0, ev_bbo = bbo_default,
     ev_trade = trade_default\<rparr>"

definition from_bbo :: "NormalizedBbo \<Rightarrow> SimulatedFeedEvent" where
  "from_bbo bbo = \<lparr>ev_kind = BboEvent, ev_venue_id = bbo_venue bbo, ev_market_id = bbo_market_id bbo,
     ev_bbo = bbo, ev_trade = trade_default\<rparr>"

definition from_trade :: "UnifiedTrade \<Rightarrow> SimulatedFeedEvent" where
  "from_trade trade = \<lparr>ev_kind = TradeEvent, ev_venue_id = trade_venue trade,
     ev_market_id = trade_market_id trade, ev_bbo = bbo_default, ev_trade = trade\<rparr>"

section \<open>The simulator\<close>

record FeedBurstConfig =
  target_msg_rate_per_sec :: u64
  burst_size :: nat
  burst_interval_micros :: u64
  jitter_min_ns :: u64
  jitter_max_ns :: u64
  base_btc_price :: i64
  base_eth_price :: i64
  base_sol_price :: i64

definition burst_config_default :: FeedBurstConfig where
  "burst_config_default = \<lparr>target_msg_rate_per_sec = 250000, burst_size = 1000,
     burst_interval_micros = 4000, jitter_min_ns = 200, jitter_max_ns = 3500,
     base_btc_price = 6500000000000, base_eth_price = 350000000000, base_sol_price = 15000000000\<rparr>"

record MockExchangeFeedSimulator =
  sim_prng :: FastPrng
  btc_cur_price :: i64
  eth_cur_price :: i64
  sol_cur_price :: i64
  binance_seq :: u64
  okx_seq :: u64
  uniswap_seq :: u64
  trade_id_counter :: u64

definition simulator_new :: "u64 \<Rightarrow> FeedBurstConfig \<Rightarrow> MockExchangeFeedSimulator" where
  "simulator_new seed config = \<lparr>sim_prng = prng_new seed,
     btc_cur_price = base_btc_price config, eth_cur_price = base_eth_price config,
     sol_cur_price = base_sol_price config, binance_seq = 100000000, okx_seq = 200000000,
     uniswap_seq = 1000000, trade_id_counter = 50000000\<rparr>"

text \<open>The market, its price and its tick for a draw below 100.\<close>

definition choose_asset :: "MockExchangeFeedSimulator \<Rightarrow> u64 \<Rightarrow> u32 \<times> i64 \<times> i64" where
  "choose_asset sim asset_choice =
     (if asset_choice < 50 then (1001, btc_cur_price sim, 500000)
      else if asset_choice < 85 then (1002, eth_cur_price sim, 100000)
      else (1003, sol_cur_price sim, 10000))"

definition smax :: "i64 \<Rightarrow> i64 \<Rightarrow> i64" where
  "smax a b = (if sint a \<le> sint b then b else a)"

definition walk_price :: "MockExchangeFeedSimulator \<Rightarrow> u64 \<Rightarrow> (MockExchangeFeedSimulator \<times> u32 \<times> i64) outcome" where
  "walk_price sim asset_choice =
     (case choose_asset sim asset_choice of (market_id, base_price, tick_jump) \<Rightarrow>
      and_ret (gen_price_delta (sim_prng sim) tick_jump) (\<lambda>(p, delta).
      let base_price = smax (base_price + delta) 100000000;
          sim = sim\<lparr>sim_prng := p\<rparr>;
          sim = (if market_id = 1001 then sim\<lparr>btc_cur_price := base_price\<rparr>
                 else if market_id = 1002 then sim\<lparr>eth_cur_price := base_price\<rparr>
                 else sim\<lparr>sol_cur_price := base_price\<rparr>)
      in Ret (sim, market_id, base_price)))"

definition gen_telemetry ::
  "FeedBurstConfig \<Rightarrow> FastPrng \<Rightarrow> u64 \<Rightarrow> nat \<Rightarrow> (FastPrng \<times> TelemetryTimestamps) outcome" where
  "gen_telemetry config p base_timestamp_ns i =
     and_ret (gen_range p (jitter_min_ns config) (jitter_max_ns config)) (\<lambda>(p, jitter_ns).
     let t0_exchange = base_timestamp_ns + of_nat i * 10;
         t1_nic = t0_exchange + jitter_ns
     in and_ret (gen_range p 500 1500) (\<lambda>(p, engine).
        let t2_engine = t1_nic + engine
        in and_ret (gen_range p 200 800) (\<lambda>(p, egress).
           let t3_egress = t2_engine + egress
           in Ret (p, \<lparr>t0_exchange_ns = t0_exchange, t1_ingest_nic_ns = t1_nic,
                       t2_engine_proc_ns = t2_engine, t3_egress_ns = t3_egress\<rparr>))))"

text \<open>The two halves of the spread around the price.\<close>

definition half_spread :: "i64 \<Rightarrow> u16 \<Rightarrow> i64" where
  "half_spread base_price bps = sdivide (base_price * ucast bps) 20000"

text \<open>The trade and quote branches are written twice in the source, for Binance and for OKX, with
  different ranges; the ranges are the arguments.\<close>

definition gen_cefi_trade ::
  "FastPrng \<Rightarrow> TelemetryTimestamps \<Rightarrow> u32 \<Rightarrow> i64 \<Rightarrow> VenueId \<Rightarrow> u64 \<Rightarrow> u64 \<Rightarrow> u64 \<Rightarrow> u64 \<Rightarrow>
   (FastPrng \<times> SimulatedFeedEvent) outcome" where
  "gen_cefi_trade p telemetry market_id base_price venue seq tid size_lo size_hi =
     (let (p, r) = next_u64 p;
          side = (if r AND 1 = 0 then 1 else 2)
      in and_ret (gen_range p size_lo size_hi) (\<lambda>(p, size).
         Ret (p, from_trade \<lparr>trade_telemetry = telemetry, trade_market_id = market_id,
                   trade_venue = venue_code venue, trade_chain = chain_code OffChain,
                   trade_sequence = seq, trade_id = tid, trade_price = base_price, trade_size = size,
                   trade_side = side, is_liquidation = False\<rparr>)))"

definition gen_cefi_quote ::
  "FastPrng \<Rightarrow> TelemetryTimestamps \<Rightarrow> u32 \<Rightarrow> i64 \<Rightarrow> VenueId \<Rightarrow> u64 \<Rightarrow> u64 \<Rightarrow> u64 \<Rightarrow> u64 \<Rightarrow> u64 \<Rightarrow>
   (FastPrng \<times> SimulatedFeedEvent) outcome" where
  "gen_cefi_quote p telemetry market_id base_price venue seq bps_lo bps_hi qty_lo qty_hi =
     and_ret (gen_range p bps_lo bps_hi) (\<lambda>(p, bps).
     let bps = ucast bps;
         half = half_spread base_price bps
     in and_ret (gen_range p qty_lo qty_hi) (\<lambda>(p, bq).
        and_ret (gen_range p qty_lo qty_hi) (\<lambda>(p, aq).
        Ret (p, from_bbo \<lparr>bbo_telemetry = telemetry, bbo_market_id = market_id,
                  bbo_venue = venue_code venue, bbo_chain = chain_code OffChain, bbo_sequence = seq,
                  bid_price = base_price - half, bid_qty = bq, ask_price = base_price + half, ask_qty = aq,
                  spread_bps = bps, bbo_flags = 0\<rparr>))))"

definition gen_uniswap_quote ::
  "FastPrng \<Rightarrow> TelemetryTimestamps \<Rightarrow> u32 \<Rightarrow> i64 \<Rightarrow> u64 \<Rightarrow> (FastPrng \<times> SimulatedFeedEvent) outcome" where
  "gen_uniswap_quote p telemetry market_id base_price seq =
     and_ret (gen_range p 5 15) (\<lambda>(p, bps).
     let bps = ucast bps;
         half = half_spread base_price bps
     in and_ret (gen_range p 5000000000 20000000000) (\<lambda>(p, pool_liquidity).
        Ret (p, from_bbo \<lparr>bbo_telemetry = telemetry, bbo_market_id = market_id,
                  bbo_venue = venue_code UniswapV3, bbo_chain = chain_code Ethereum, bbo_sequence = seq,
                  bid_price = base_price - half, bid_qty = pool_liquidity, ask_price = base_price + half,
                  ask_qty = pool_liquidity, spread_bps = bps, bbo_flags = 1\<rparr>)))"

definition gen_venue_event ::
  "MockExchangeFeedSimulator \<Rightarrow> u64 \<Rightarrow> bool \<Rightarrow> TelemetryTimestamps \<Rightarrow> u32 \<Rightarrow> i64 \<Rightarrow>
   (MockExchangeFeedSimulator \<times> SimulatedFeedEvent) outcome" where
  "gen_venue_event sim venue_choice is_trade telemetry market_id base_price =
     (if venue_choice < 5
      then let sim = sim\<lparr>binance_seq := binance_seq sim + 1\<rparr>
           in if is_trade
              then let sim = sim\<lparr>trade_id_counter := trade_id_counter sim + 1\<rparr>
                   in and_ret (gen_cefi_trade (sim_prng sim) telemetry market_id base_price Binance
                                 (binance_seq sim) (trade_id_counter sim) 100000000 2500000000)
                        (\<lambda>(p, ev). Ret (sim\<lparr>sim_prng := p\<rparr>, ev))
              else and_ret (gen_cefi_quote (sim_prng sim) telemetry market_id base_price Binance
                              (binance_seq sim) 1 3 500000000 5000000000)
                     (\<lambda>(p, ev). Ret (sim\<lparr>sim_prng := p\<rparr>, ev))
      else if venue_choice < 8
      then let sim = sim\<lparr>okx_seq := okx_seq sim + 1\<rparr>
           in if is_trade
              then let sim = sim\<lparr>trade_id_counter := trade_id_counter sim + 1\<rparr>
                   in and_ret (gen_cefi_trade (sim_prng sim) telemetry market_id base_price Okx
                                 (okx_seq sim) (trade_id_counter sim) 50000000 1500000000)
                        (\<lambda>(p, ev). Ret (sim\<lparr>sim_prng := p\<rparr>, ev))
              else and_ret (gen_cefi_quote (sim_prng sim) telemetry market_id base_price Okx
                              (okx_seq sim) 2 5 200000000 3000000000)
                     (\<lambda>(p, ev). Ret (sim\<lparr>sim_prng := p\<rparr>, ev))
      else let sim = sim\<lparr>uniswap_seq := uniswap_seq sim + 1\<rparr>
           in and_ret (gen_uniswap_quote (sim_prng sim) telemetry market_id base_price (uniswap_seq sim))
                (\<lambda>(p, ev). Ret (sim\<lparr>sim_prng := p\<rparr>, ev)))"

definition gen_event ::
  "FeedBurstConfig \<Rightarrow> u64 \<Rightarrow> MockExchangeFeedSimulator \<Rightarrow> nat \<Rightarrow>
   (MockExchangeFeedSimulator \<times> SimulatedFeedEvent) outcome" where
  "gen_event config base_timestamp_ns sim i =
     (let (p, v) = next_u64 (sim_prng sim); venue_choice = v mod 10;
          (p, a) = next_u64 p; asset_choice = a mod 100;
          (p, t) = next_u64 p; is_trade = (t mod 100 < 15)
      in and_ret (walk_price (sim\<lparr>sim_prng := p\<rparr>) asset_choice) (\<lambda>(sim, market_id, base_price).
         and_ret (gen_telemetry config (sim_prng sim) base_timestamp_ns i) (\<lambda>(p, telemetry).
         gen_venue_event (sim\<lparr>sim_prng := p\<rparr>) venue_choice is_trade telemetry market_id base_price)))"

definition generate_burst ::
  "FeedBurstConfig \<Rightarrow> u64 \<Rightarrow> MockExchangeFeedSimulator \<Rightarrow> SimulatedFeedEvent list \<Rightarrow>
   (MockExchangeFeedSimulator \<times> SimulatedFeedEvent list \<times> nat) outcome" where
  "generate_burst config base_timestamp_ns sim out_buffer =
     (let count = min (burst_size config) (length out_buffer)
      in and_ret (foldl_ret (\<lambda>(sim, out) i.
             and_ret (gen_event config base_timestamp_ns sim i) (\<lambda>(sim, ev). Ret (sim, out[i := ev])))
           (sim, out_buffer) [0..<count])
         (\<lambda>(sim, out). Ret (sim, out, count)))"

section \<open>Draws\<close>

lemma drop_bit_fixpoint: "0 < n \<Longrightarrow> drop_bit n x = x \<Longrightarrow> x = 0" for x :: "'a::len word"
proof -
  assume "0 < n" "drop_bit n x = x"
  then have "unat x div 2 ^ n = unat x" by (metis unat_drop_bit)
  moreover have "unat x div 2 ^ n < unat x" if "0 < unat x" using that \<open>0 < n\<close>
    by (intro div_less_dividend one_less_power) simp_all
  ultimately show "x = 0" by (metis less_irrefl unat_gt_0)
qed

lemma push_bit_fixpoint:
  assumes "0 < n" "push_bit n x = x"
  shows "x = (0 :: 'a::len word)"
proof -
  have "push_bit (n * k) x = x" for k
    by (induction k) (simp_all, metis assms(2) push_bit_push_bit)
  from this [of "LENGTH('a)"] have "x = push_bit (n * LENGTH('a)) x" by simp
  also have "\<dots> = 0" using assms(1) by (intro bit_word_eqI) (simp add: bit_push_bit_iff)
  finally show ?thesis .
qed

lemma xor_eq_zero: "x XOR y = 0 \<Longrightarrow> y = x" for x y :: "'a::len word"
  by (metis xor.assoc xor.right_neutral xor_self_eq)

lemma next_u64_nonzero: "prng_state p \<noteq> 0 \<Longrightarrow> prng_state (fst (next_u64 p)) \<noteq> 0"
proof -
  assume nz: "prng_state p \<noteq> 0"
  have right: "x XOR drop_bit n x \<noteq> 0" if "x \<noteq> 0" "0 < n" for x :: u64 and n
    using xor_eq_zero [of x "drop_bit n x"] drop_bit_fixpoint [of n x] that by blast
  have left: "x XOR push_bit n x \<noteq> 0" if "x \<noteq> 0" "0 < n" for x :: u64 and n
    using xor_eq_zero [of x "push_bit n x"] push_bit_fixpoint [of n x] that by blast
  have sel: "prng_state (p\<lparr>prng_state := x\<rparr>) = x" for x by simp
  show ?thesis
    unfolding next_u64_def Let_def fst_conv sel by (intro right left nz) simp_all
qed

lemma gen_range_Ret:
  assumes "\<not> (lo = 0 \<and> hi = - 1)"
  obtains p' v where "gen_range p lo hi = Ret (p', v)" "lo \<le> v" "lo \<le> hi \<longrightarrow> v \<le> hi"
proof (cases "lo \<ge> hi")
  case True
  then show ?thesis using that by (simp add: gen_range_def)
next
  case False
  let ?w = "hi - lo + 1"
  obtain p' r where r: "next_u64 p = (p', r)" by (cases "next_u64 p")
  have "unat hi - unat lo + 1 < 2 ^ 64"
  proof (cases "lo = 0")
    case True
    then have "hi \<noteq> - 1" using assms by blast
    moreover have "unat (- 1 :: u64) = 2 ^ 64 - 1" by (simp add: unsigned_minus_1_eq_mask mask_eq_exp_minus_1)
    ultimately have "unat hi \<noteq> 2 ^ 64 - 1" by (metis word_unat_eq_iff)
    then show ?thesis using unat_less_power [of hi] True by simp
  next
    case False
    then have "0 < unat lo" by (simp add: unat_gt_0)
    then show ?thesis using unat_less_power [of hi] by simp
  qed
  then have w: "unat ?w = unat hi - unat lo + 1"
    using False by (simp add: unat_Suc_nowrap unat_sub_nowrap)
  then have "?w \<noteq> 0" by (metis unat_0 add_is_0 one_neq_zero)
  have v: "unat (r mod ?w) \<le> unat hi - unat lo" using w by (simp add: unat_mod_distrib less_Suc_eq_le flip: Suc_eq_plus1)
  have "unat (lo + r mod ?w) = unat lo + unat (r mod ?w)"
    using v False unat_less_power [of hi] by (intro unat_add_nowrap) (simp add: not_le word_less_nat_alt)
  moreover have "gen_range p lo hi = Ret (p', lo + r mod ?w)" using False \<open>?w \<noteq> 0\<close> by (simp add: gen_range_def r)
  ultimately show ?thesis using that v False by (simp add: word_le_nat_alt)
qed

lemma gen_price_delta_Ret:
  assumes "0 \<le> sint jump" "sint jump < 2 ^ 62"
  obtains p' d where "gen_price_delta p jump = Ret (p', d)" "- sint jump \<le> sint d" "sint d \<le> sint jump"
proof -
  obtain p' r where r: "next_u64 p = (p', r)" by (cases "next_u64 p")
  let ?w = "jump * 2 + 1"
  have j: "int (unat jump) = sint jump" using assms(1) unat_of_sint_nonneg by fastforce
  then have "int (unat jump) < int (2 ^ 62)" using assms(2) by simp
  then have small: "unat jump < 2 ^ 62" by (simp only: of_nat_less_iff)
  then have "unat (jump * 2) = unat jump * 2" by (subst unat_mult_nowrap) simp_all
  then have w: "unat ?w = unat jump * 2 + 1" using small by (subst unat_Suc_nowrap) simp_all
  then have nz: "?w \<noteq> 0" by (metis unat_0 add_is_0 one_neq_zero)
  let ?raw = "r mod ?w"
  have raw: "unat ?raw \<le> unat jump * 2" using w by (simp add: unat_mod_distrib less_Suc_eq_le flip: Suc_eq_plus1)
  let ?z = "int (unat ?raw) - int (unat jump)"
  have z: "- sint jump \<le> ?z" "?z \<le> sint jump" using raw j by linarith+
  have "?raw - jump = of_int ?z" by simp
  moreover have "sint (of_int ?z :: u64) = ?z"
    by (rule sint_of_int_range) (use z assms(2) in simp_all)
  ultimately have "sint (?raw - jump) = ?z" by simp
  moreover have "gen_price_delta p jump = Ret (p', ?raw - jump)" using nz by (simp add: gen_price_delta_def r Let_def)
  ultimately show ?thesis using that z by simp
qed

section \<open>One event\<close>

text \<open>No price is negative or above \<open>m\<close>.\<close>

definition prices_within :: "int \<Rightarrow> MockExchangeFeedSimulator \<Rightarrow> bool" where
  "prices_within m sim \<longleftrightarrow> (\<forall>x \<in> {btc_cur_price sim, eth_cur_price sim, sol_cur_price sim}. 0 \<le> sint x \<and> sint x \<le> m)"

text \<open>The counter of a venue, and the counters a step leaves alone.\<close>

definition venue_seq :: "MockExchangeFeedSimulator \<Rightarrow> VenueId \<Rightarrow> u64" where
  "venue_seq sim v = (case v of Binance \<Rightarrow> binance_seq sim | Okx \<Rightarrow> okx_seq sim | _ \<Rightarrow> uniswap_seq sim)"

definition same_counters :: "MockExchangeFeedSimulator \<Rightarrow> MockExchangeFeedSimulator \<Rightarrow> bool" where
  "same_counters sim sim' \<longleftrightarrow> binance_seq sim' = binance_seq sim \<and> okx_seq sim' = okx_seq sim \<and>
     uniswap_seq sim' = uniswap_seq sim \<and> trade_id_counter sim' = trade_id_counter sim"

definition same_prices :: "MockExchangeFeedSimulator \<Rightarrow> MockExchangeFeedSimulator \<Rightarrow> bool" where
  "same_prices sim sim' \<longleftrightarrow> btc_cur_price sim' = btc_cur_price sim \<and> eth_cur_price sim' = eth_cur_price sim \<and>
     sol_cur_price sim' = sol_cur_price sim"

lemma sint_add_range:
  "- (2 ^ 63) \<le> sint a + sint b \<Longrightarrow> sint a + sint b < 2 ^ 63 \<Longrightarrow> sint (a + b) = sint a + sint b" for a b :: i64
  using sint_of_int_range [of "sint a + sint b", where 'a = 64] by simp

lemma sint_sub_range:
  "- (2 ^ 63) \<le> sint a - sint b \<Longrightarrow> sint a - sint b < 2 ^ 63 \<Longrightarrow> sint (a - b) = sint a - sint b" for a b :: i64
  using sint_of_int_range [of "sint a - sint b", where 'a = 64] by simp

lemma walk_price_Ret:
  assumes "prices_within m sim" "100000000 \<le> m" "m < 2 ^ 58"
  obtains sim' mid price where "walk_price sim a = Ret (sim', mid, price)"
    "100000000 \<le> sint price" "sint price \<le> m + 500000" "prices_within (m + 500000) sim'"
    "mid \<in> {1001, 1002, 1003}" "same_counters sim sim'"
proof -
  obtain mid base jump where c: "choose_asset sim a = (mid, base, jump)" by (cases "choose_asset sim a")
  then have base: "0 \<le> sint base" "sint base \<le> m" and jump: "0 \<le> sint jump" "sint jump \<le> 500000"
    and mid: "mid \<in> {1001, 1002, 1003}"
    using assms(1) by (auto simp: choose_asset_def prices_within_def split: if_splits)
  have "sint jump < 2 ^ 62" using jump by simp
  from gen_price_delta_Ret [OF jump(1) this] obtain p d
    where d: "gen_price_delta (sim_prng sim) jump = Ret (p, d)" "- sint jump \<le> sint d" "sint d \<le> sint jump" .
  have "sint (base + d) = sint base + sint d" using base jump d assms(3) by (intro sint_add_range) simp_all
  then have new: "100000000 \<le> sint (smax (base + d) 100000000)" "sint (smax (base + d) 100000000) \<le> m + 500000"
    using base jump d assms(2) by (auto simp: smax_def)
  let ?price = "smax (base + d) 100000000"
  let ?sim = "if mid = 1001 then sim\<lparr>sim_prng := p, btc_cur_price := ?price\<rparr>
    else if mid = 1002 then sim\<lparr>sim_prng := p, eth_cur_price := ?price\<rparr>
    else sim\<lparr>sim_prng := p, sol_cur_price := ?price\<rparr>"
  show ?thesis
  proof (rule that)
    show "walk_price sim a = Ret (?sim, mid, ?price)" by (simp add: walk_price_def c d Let_def)
    show "prices_within (m + 500000) ?sim" using new assms(1) by (auto simp: prices_within_def)
    show "same_counters sim ?sim" by (simp add: same_counters_def)
  qed (use new mid in simp_all)
qed

definition telemetry_ok :: "FeedBurstConfig \<Rightarrow> u64 \<Rightarrow> nat \<Rightarrow> TelemetryTimestamps \<Rightarrow> bool" where
  "telemetry_ok config ts i t \<longleftrightarrow> (\<exists>j e g. t = \<lparr>t0_exchange_ns = ts + of_nat i * 10,
       t1_ingest_nic_ns = ts + of_nat i * 10 + j, t2_engine_proc_ns = ts + of_nat i * 10 + j + e,
       t3_egress_ns = ts + of_nat i * 10 + j + e + g\<rparr> \<and>
     jitter_min_ns config \<le> j \<and> (jitter_min_ns config \<le> jitter_max_ns config \<longrightarrow> j \<le> jitter_max_ns config) \<and>
     500 \<le> e \<and> e \<le> 1500 \<and> 200 \<le> g \<and> g \<le> 800)"

lemma gen_telemetry_Ret:
  assumes "\<not> (jitter_min_ns config = 0 \<and> jitter_max_ns config = - 1)"
  obtains p' t where "gen_telemetry config p ts i = Ret (p', t)" "telemetry_ok config ts i t"
proof -
  from gen_range_Ret [OF assms, of p] obtain p1 j where j: "gen_range p (jitter_min_ns config) (jitter_max_ns config) = Ret (p1, j)"
    "jitter_min_ns config \<le> j" "jitter_min_ns config \<le> jitter_max_ns config \<longrightarrow> j \<le> jitter_max_ns config" .
  obtain p2 e where e: "gen_range p1 500 1500 = Ret (p2, e)" "500 \<le> e" "e \<le> 1500"
    by (rule gen_range_Ret [of 500 1500 p1]) simp_all
  obtain p3 g where g: "gen_range p2 200 800 = Ret (p3, g)" "200 \<le> g" "g \<le> 800"
    by (rule gen_range_Ret [of 200 800 p2]) simp_all
  show ?thesis
    by (rule that) (simp add: gen_telemetry_def j(1) e(1) g(1) Let_def, use j e g in \<open>auto simp: telemetry_ok_def\<close>)
qed

lemma half_spread_bounds:
  assumes "0 \<le> sint price" "sint price < 2 ^ 59" "unat bps \<le> 15"
  shows "0 \<le> sint (half_spread price bps)" "1000 * sint (half_spread price bps) \<le> sint price"
proof -
  let ?z = "sint price * int (unat bps)"
  have b: "int (unat bps) \<le> 15" using assms(3) by linarith
  have z: "0 \<le> ?z" "?z \<le> sint price * 15"
    by (intro mult_nonneg_nonneg assms(1) of_nat_0_le_iff) (rule mult_left_mono [OF b assms(1)])
  have "price * ucast bps = of_int ?z" by simp
  moreover have "sint (of_int ?z :: i64) = ?z" by (rule sint_of_int_range) (use z assms(2) in simp_all)
  ultimately have "sint (price * ucast bps) = ?z" by simp
  then have "half_spread price bps = of_int (?z div 20000)"
    using z(1) by (simp add: half_spread_def sdivide_def signed_divide_int_def sgn_if)
  moreover have "sint (of_int (?z div 20000) :: i64) = ?z div 20000"
    by (rule sint_of_int_range) (use z assms(2) in \<open>auto intro: order_trans [of _ 0]\<close>)
  ultimately have h: "sint (half_spread price bps) = ?z div 20000" by simp
  show "0 \<le> sint (half_spread price bps)" using h z(1) by simp
  show "1000 * sint (half_spread price bps) \<le> sint price" using h z(2) assms(1) by linarith
qed

definition ev_sequence :: "SimulatedFeedEvent \<Rightarrow> u64" where
  "ev_sequence ev = (case ev_kind ev of BboEvent \<Rightarrow> bbo_sequence (ev_bbo ev) | TradeEvent \<Rightarrow> trade_sequence (ev_trade ev))"

definition ev_telemetry :: "SimulatedFeedEvent \<Rightarrow> TelemetryTimestamps" where
  "ev_telemetry ev = (case ev_kind ev of BboEvent \<Rightarrow> bbo_telemetry (ev_bbo ev) | TradeEvent \<Rightarrow> trade_telemetry (ev_trade ev))"

abbreviation sim_venues :: "VenueId set" where
  "sim_venues \<equiv> {Binance, Okx, UniswapV3}"

text \<open>A quote straddles the price and has quantities; a trade is at the price, has a side and a size.\<close>

definition event_ok :: "u32 \<Rightarrow> i64 \<Rightarrow> SimulatedFeedEvent \<Rightarrow> bool" where
  "event_ok mid price ev \<longleftrightarrow> ev_market_id ev = mid \<and>
     (case ev_kind ev of
        BboEvent \<Rightarrow> 0 < sint (bid_price (ev_bbo ev)) \<and> sint (bid_price (ev_bbo ev)) \<le> sint price \<and>
          sint price \<le> sint (ask_price (ev_bbo ev)) \<and> 0 < bid_qty (ev_bbo ev) \<and> 0 < ask_qty (ev_bbo ev)
      | TradeEvent \<Rightarrow> trade_price (ev_trade ev) = price \<and> trade_side (ev_trade ev) \<in> {1, 2} \<and>
          0 < trade_size (ev_trade ev))"

text \<open>One event advances the counter of its venue, and the trade counter if it is a trade.\<close>

definition counted :: "MockExchangeFeedSimulator \<Rightarrow> MockExchangeFeedSimulator \<Rightarrow> SimulatedFeedEvent \<Rightarrow> bool" where
  "counted sim sim' ev \<longleftrightarrow>
     (\<exists>v \<in> sim_venues. ev_venue_id ev = venue_code v \<and> ev_sequence ev = venue_seq sim v + 1 \<and>
        (\<forall>w \<in> sim_venues. venue_seq sim' w = venue_seq sim w + (if w = v then 1 else 0))) \<and>
     trade_id_counter sim' = trade_id_counter sim + (if ev_kind ev = TradeEvent then 1 else 0) \<and>
     (ev_kind ev = TradeEvent \<longrightarrow> trade_id (ev_trade ev) = trade_id_counter sim + 1)"

lemma quote_straddles:
  assumes "100000000 \<le> sint price" "sint price < 2 ^ 59" "bps \<le> 15" "0 < bps"
  shows "0 < sint (price - half_spread price (ucast (bps :: u64)))" "sint (price - half_spread price (ucast bps)) \<le> sint price"
    "sint price \<le> sint (price + half_spread price (ucast bps))"
proof -
  have "unat bps \<le> 15" using assms(3) by (simp add: word_le_nat_alt)
  then have "unat (ucast bps :: u16) \<le> 15" by (simp add: unat_ucast_mod)
  note h = half_spread_bounds [OF _ assms(2) this]
  let ?h = "sint (half_spread price (ucast bps))"
  have b: "0 \<le> ?h" "1000 * ?h \<le> sint price" using h assms(1) by simp_all
  have "sint (price - half_spread price (ucast bps)) = sint price - ?h"
    using b assms by (intro sint_sub_range) simp_all
  moreover have "sint (price + half_spread price (ucast bps)) = sint price + ?h"
    using b assms by (intro sint_add_range) simp_all
  ultimately show "0 < sint (price - half_spread price (ucast bps))" "sint (price - half_spread price (ucast bps)) \<le> sint price"
    "sint price \<le> sint (price + half_spread price (ucast bps))"
    using b assms(1) by simp_all
qed

lemma gen_range_pos:
  assumes "0 < lo" "lo \<le> hi"
  obtains p' v where "gen_range p lo hi = Ret (p', v)" "0 < v" "v \<le> hi"
proof -
  have "\<not> (lo = 0 \<and> hi = - 1)" using assms(1) by auto
  from gen_range_Ret [OF this, of p] assms that show ?thesis by (metis order_less_le_trans)
qed

lemma gen_cefi_trade_Ret:
  assumes "0 < lo" "lo \<le> hi"
  obtains p' ev where "gen_cefi_trade p t mid price v seq tid lo hi = Ret (p', ev)" "event_ok mid price ev"
    "ev_telemetry ev = t" "ev_venue_id ev = venue_code v" "ev_sequence ev = seq" "ev_kind ev = TradeEvent"
    "trade_id (ev_trade ev) = tid"
proof -
  obtain p1 r where r: "next_u64 p = (p1, r)" by (cases "next_u64 p")
  obtain p2 sz where sz: "gen_range p1 lo hi = Ret (p2, sz)" "0 < sz" by (rule gen_range_pos [OF assms])
  show ?thesis
    using that by (simp add: gen_cefi_trade_def r sz Let_def from_trade_def event_ok_def ev_telemetry_def ev_sequence_def)
qed

lemma gen_cefi_quote_Ret:
  assumes "100000000 \<le> sint price" "sint price < 2 ^ 59" "0 < bps_lo" "bps_lo \<le> bps_hi" "bps_hi \<le> 15" "0 < lo" "lo \<le> hi"
  obtains p' ev where "gen_cefi_quote p t mid price v seq bps_lo bps_hi lo hi = Ret (p', ev)" "event_ok mid price ev"
    "ev_telemetry ev = t" "ev_venue_id ev = venue_code v" "ev_sequence ev = seq" "ev_kind ev = BboEvent"
proof -
  obtain p1 bps where bps: "gen_range p bps_lo bps_hi = Ret (p1, bps)" "0 < bps" "bps \<le> bps_hi"
    by (rule gen_range_pos [OF assms(3,4)])
  obtain p2 bq where bq: "gen_range p1 lo hi = Ret (p2, bq)" "0 < bq" by (rule gen_range_pos [OF assms(6,7)])
  obtain p3 aq where aq: "gen_range p2 lo hi = Ret (p3, aq)" "0 < aq" by (rule gen_range_pos [OF assms(6,7)])
  have "bps \<le> 15" using bps(3) assms(5) by simp
  note s = quote_straddles [OF assms(1,2) this bps(2)]
  show ?thesis
    using that by (simp add: gen_cefi_quote_def bps bq aq s Let_def from_bbo_def event_ok_def ev_telemetry_def ev_sequence_def)
qed

lemma gen_uniswap_quote_Ret:
  assumes "100000000 \<le> sint price" "sint price < 2 ^ 59"
  obtains p' ev where "gen_uniswap_quote p t mid price seq = Ret (p', ev)" "event_ok mid price ev"
    "ev_telemetry ev = t" "ev_venue_id ev = venue_code UniswapV3" "ev_sequence ev = seq" "ev_kind ev = BboEvent"
proof -
  obtain p1 bps where bps: "gen_range p 5 15 = Ret (p1, bps)" "0 < bps" "bps \<le> 15"
    by (rule gen_range_pos [of 5 15 p]) simp_all
  obtain p2 q where q: "gen_range p1 5000000000 20000000000 = Ret (p2, q)" "0 < q"
    by (rule gen_range_pos [of 5000000000 20000000000 p1]) simp_all
  note s = quote_straddles [OF assms bps(3,2)]
  show ?thesis
    using that by (simp add: gen_uniswap_quote_def bps q s Let_def from_bbo_def event_ok_def ev_telemetry_def ev_sequence_def)
qed

lemma gen_venue_event_Ret:
  assumes "100000000 \<le> sint price" "sint price < 2 ^ 59"
  obtains sim' ev where "gen_venue_event sim c is_trade t mid price = Ret (sim', ev)" "event_ok mid price ev"
    "ev_telemetry ev = t" "counted sim sim' ev" "same_prices sim sim'"
proof -
  let ?bin = "sim\<lparr>binance_seq := binance_seq sim + 1\<rparr>" and ?okx = "sim\<lparr>okx_seq := okx_seq sim + 1\<rparr>"
    and ?uni = "sim\<lparr>uniswap_seq := uniswap_seq sim + 1\<rparr>" and ?p = "sim_prng sim" and ?tid = "trade_id_counter sim + 1"
  note defs = gen_venue_event_def Let_def counted_def same_prices_def venue_seq_def
  consider "c < 5" is_trade | "c < 5" "\<not> is_trade" | "\<not> c < 5" "c < 8" is_trade
    | "\<not> c < 5" "c < 8" "\<not> is_trade" | "\<not> c < 5" "\<not> c < 8" by blast
  then show ?thesis
  proof cases
    case 1
    obtain p' ev where e: "gen_cefi_trade ?p t mid price Binance (binance_seq sim + 1) ?tid 100000000 2500000000 = Ret (p', ev)"
      "event_ok mid price ev" "ev_telemetry ev = t" "ev_venue_id ev = venue_code Binance"
      "ev_sequence ev = binance_seq sim + 1" "ev_kind ev = TradeEvent" "trade_id (ev_trade ev) = ?tid"
      by (rule gen_cefi_trade_Ret [of 100000000 2500000000 ?p t mid price Binance "binance_seq sim + 1" ?tid]) simp_all
    show ?thesis
      by (rule that [of "?bin\<lparr>trade_id_counter := ?tid, sim_prng := p'\<rparr>" ev]) (use 1 e in \<open>simp_all add: defs\<close>)
  next
    case 2
    obtain p' ev where e: "gen_cefi_quote ?p t mid price Binance (binance_seq sim + 1) 1 3 500000000 5000000000 = Ret (p', ev)"
      "event_ok mid price ev" "ev_telemetry ev = t" "ev_venue_id ev = venue_code Binance"
      "ev_sequence ev = binance_seq sim + 1" "ev_kind ev = BboEvent"
      by (rule gen_cefi_quote_Ret [OF assms, of 1 3 500000000 5000000000 ?p t mid Binance "binance_seq sim + 1"]) simp_all
    show ?thesis by (rule that [of "?bin\<lparr>sim_prng := p'\<rparr>" ev]) (use 2 e in \<open>simp_all add: defs\<close>)
  next
    case 3
    obtain p' ev where e: "gen_cefi_trade ?p t mid price Okx (okx_seq sim + 1) ?tid 50000000 1500000000 = Ret (p', ev)"
      "event_ok mid price ev" "ev_telemetry ev = t" "ev_venue_id ev = venue_code Okx"
      "ev_sequence ev = okx_seq sim + 1" "ev_kind ev = TradeEvent" "trade_id (ev_trade ev) = ?tid"
      by (rule gen_cefi_trade_Ret [of 50000000 1500000000 ?p t mid price Okx "okx_seq sim + 1" ?tid]) simp_all
    show ?thesis
      by (rule that [of "?okx\<lparr>trade_id_counter := ?tid, sim_prng := p'\<rparr>" ev]) (use 3 e in \<open>simp_all add: defs\<close>)
  next
    case 4
    obtain p' ev where e: "gen_cefi_quote ?p t mid price Okx (okx_seq sim + 1) 2 5 200000000 3000000000 = Ret (p', ev)"
      "event_ok mid price ev" "ev_telemetry ev = t" "ev_venue_id ev = venue_code Okx"
      "ev_sequence ev = okx_seq sim + 1" "ev_kind ev = BboEvent"
      by (rule gen_cefi_quote_Ret [OF assms, of 2 5 200000000 3000000000 ?p t mid Okx "okx_seq sim + 1"]) simp_all
    show ?thesis by (rule that [of "?okx\<lparr>sim_prng := p'\<rparr>" ev]) (use 4 e in \<open>simp_all add: defs\<close>)
  next
    case 5
    obtain p' ev where e: "gen_uniswap_quote ?p t mid price (uniswap_seq sim + 1) = Ret (p', ev)"
      "event_ok mid price ev" "ev_telemetry ev = t" "ev_venue_id ev = venue_code UniswapV3"
      "ev_sequence ev = uniswap_seq sim + 1" "ev_kind ev = BboEvent"
      by (rule gen_uniswap_quote_Ret [OF assms])
    show ?thesis by (rule that [of "?uni\<lparr>sim_prng := p'\<rparr>" ev]) (use 5 e in \<open>simp_all add: defs\<close>)
  qed
qed

definition burst_event_ok :: "FeedBurstConfig \<Rightarrow> u64 \<Rightarrow> nat \<Rightarrow> SimulatedFeedEvent \<Rightarrow> bool" where
  "burst_event_ok config ts i ev \<longleftrightarrow>
     telemetry_ok config ts i (ev_telemetry ev) \<and>
     (\<exists>mid \<in> {1001, 1002, 1003}. \<exists>price. 100000000 \<le> sint price \<and> event_ok mid price ev)"

lemma gen_event_Ret:
  assumes "\<not> (jitter_min_ns config = 0 \<and> jitter_max_ns config = - 1)"
    and "prices_within m sim" "100000000 \<le> m" "m < 2 ^ 58"
  obtains sim' ev where "gen_event config ts sim i = Ret (sim', ev)" "burst_event_ok config ts i ev"
    "counted sim sim' ev" "prices_within (m + 500000) sim'"
proof -
  obtain p1 v where v: "next_u64 (sim_prng sim) = (p1, v)" by (cases "next_u64 (sim_prng sim)")
  obtain p2 a where a: "next_u64 p1 = (p2, a)" by (cases "next_u64 p1")
  obtain p3 k where k: "next_u64 p2 = (p3, k)" by (cases "next_u64 p2")
  have "prices_within m (sim\<lparr>sim_prng := p3\<rparr>)" using assms(2) by (simp add: prices_within_def)
  from walk_price_Ret [OF this assms(3,4), of "a mod 100"] obtain s1 mid price where
    w: "walk_price (sim\<lparr>sim_prng := p3\<rparr>) (a mod 100) = Ret (s1, mid, price)" "100000000 \<le> sint price"
      "sint price \<le> m + 500000" "prices_within (m + 500000) s1" "mid \<in> {1001, 1002, 1003}"
      "same_counters (sim\<lparr>sim_prng := p3\<rparr>) s1" .
  from gen_telemetry_Ret [OF assms(1), of "sim_prng s1" ts i] obtain p4 t where
    t: "gen_telemetry config (sim_prng s1) ts i = Ret (p4, t)" "telemetry_ok config ts i t" .
  have "sint price < 2 ^ 59" using w(3) assms(4) by simp
  from gen_venue_event_Ret [OF w(2) this, of "s1\<lparr>sim_prng := p4\<rparr>" "v mod 10" "k mod 100 < 15" t mid] obtain s2 ev where
    e: "gen_venue_event (s1\<lparr>sim_prng := p4\<rparr>) (v mod 10) (k mod 100 < 15) t mid price = Ret (s2, ev)" "event_ok mid price ev"
      "ev_telemetry ev = t" "counted (s1\<lparr>sim_prng := p4\<rparr>) s2 ev" "same_prices (s1\<lparr>sim_prng := p4\<rparr>) s2" .
  show ?thesis
  proof (rule that)
    show "gen_event config ts sim i = Ret (s2, ev)" by (simp add: gen_event_def v a k w(1) t(1) e(1))
    show "burst_event_ok config ts i ev" unfolding burst_event_ok_def using t(2) e(2,3) w(2,5) by auto
    show "counted sim s2 ev" using e(4) w(6) by (simp add: counted_def same_counters_def venue_seq_def)
    show "prices_within (m + 500000) s2" using e(5) w(4) by (simp add: same_prices_def prices_within_def)
  qed
qed

section \<open>Bursts\<close>

text \<open>The sequence numbers a venue hands out, one after the other.\<close>

definition consecutive :: "u64 \<Rightarrow> u64 list \<Rightarrow> bool" where
  "consecutive start xs \<longleftrightarrow> xs = map (\<lambda>j. start + of_nat (Suc j)) [0..<length xs]"

lemma consecutive_snoc: "consecutive start xs \<Longrightarrow> consecutive start (xs @ [start + of_nat (length xs) + 1])"
  by (simp add: consecutive_def add.commute add.left_commute)

abbreviation of_venue :: "VenueId \<Rightarrow> SimulatedFeedEvent \<Rightarrow> bool" where
  "of_venue v ev \<equiv> ev_venue_id ev = venue_code v"

abbreviation is_trade_event :: "SimulatedFeedEvent \<Rightarrow> bool" where
  "is_trade_event ev \<equiv> ev_kind ev = TradeEvent"

definition numbered :: "MockExchangeFeedSimulator \<Rightarrow> MockExchangeFeedSimulator \<Rightarrow> SimulatedFeedEvent list \<Rightarrow> bool" where
  "numbered sim sim' evs \<longleftrightarrow>
     (\<forall>v \<in> sim_venues. consecutive (venue_seq sim v) (map ev_sequence (filter (of_venue v) evs)) \<and>
        venue_seq sim' v = venue_seq sim v + of_nat (length (filter (of_venue v) evs))) \<and>
     consecutive (trade_id_counter sim) (map (trade_id \<circ> ev_trade) (filter is_trade_event evs)) \<and>
     trade_id_counter sim' = trade_id_counter sim + of_nat (length (filter is_trade_event evs))"

lemma numbered_snoc:
  assumes n: "numbered sim s1 evs" and c: "counted s1 s2 ev"
  shows "numbered sim s2 (evs @ [ev])"
proof -
  obtain v where v: "v \<in> sim_venues" "of_venue v ev" "ev_sequence ev = venue_seq s1 v + 1"
      "\<forall>w \<in> sim_venues. venue_seq s2 w = venue_seq s1 w + (if w = v then 1 else 0)"
    using c unfolding counted_def by blast
  have venue: "consecutive (venue_seq sim w) (map ev_sequence (filter (of_venue w) (evs @ [ev]))) \<and>
      venue_seq s2 w = venue_seq sim w + of_nat (length (filter (of_venue w) (evs @ [ev])))" if w: "w \<in> sim_venues" for w
  proof -
    have old: "consecutive (venue_seq sim w) (map ev_sequence (filter (of_venue w) evs))"
      "venue_seq s1 w = venue_seq sim w + of_nat (length (filter (of_venue w) evs))"
      using n w unfolding numbered_def by blast+
    have new: "venue_seq s2 w = venue_seq s1 w + (if w = v then 1 else 0)" using v(4) w by blast
    show ?thesis
    proof (cases "w = v")
      case True
      then show ?thesis using old(2) new v(2,3) consecutive_snoc [OF old(1)] by (simp add: add.commute add.left_commute)
    next
      case False
      then have "\<not> of_venue w ev" using v(2) by simp
      then show ?thesis using old new False by simp
    qed
  qed
  have old: "consecutive (trade_id_counter sim) (map (trade_id \<circ> ev_trade) (filter is_trade_event evs))"
    "trade_id_counter s1 = trade_id_counter sim + of_nat (length (filter is_trade_event evs))"
    using n unfolding numbered_def by blast+
  have new: "trade_id_counter s2 = trade_id_counter s1 + (if is_trade_event ev then 1 else 0)"
    "is_trade_event ev \<longrightarrow> trade_id (ev_trade ev) = trade_id_counter s1 + 1"
    using c unfolding counted_def by blast+
  have trade: "consecutive (trade_id_counter sim) (map (trade_id \<circ> ev_trade) (filter is_trade_event (evs @ [ev]))) \<and>
      trade_id_counter s2 = trade_id_counter sim + of_nat (length (filter is_trade_event (evs @ [ev])))"
    using old(2) new consecutive_snoc [OF old(1)] old(1) by (simp add: add.commute add.left_commute)
  show ?thesis unfolding numbered_def using venue trade by blast
qed

definition burst_body ::
  "FeedBurstConfig \<Rightarrow> u64 \<Rightarrow> MockExchangeFeedSimulator \<times> SimulatedFeedEvent list \<Rightarrow> nat \<Rightarrow>
   (MockExchangeFeedSimulator \<times> SimulatedFeedEvent list) outcome" where
  "burst_body config ts = (\<lambda>(sim, out) i. and_ret (gen_event config ts sim i) (\<lambda>(sim, ev). Ret (sim, out[i := ev])))"

lemma burst_loop:
  assumes jitter: "\<not> (jitter_min_ns config = 0 \<and> jitter_max_ns config = - 1)"
    and "prices_within m sim" "100000000 \<le> m" and "m + 500000 * int n < 2 ^ 58" "n \<le> length buf"
  shows "\<exists>sim' out. foldl_ret (burst_body config ts) (sim, buf) [0..<n] = Ret (sim', out) \<and>
    length out = length buf \<and> drop n out = drop n buf \<and> (\<forall>i < n. burst_event_ok config ts i (out ! i)) \<and>
    numbered sim sim' (take n out) \<and> prices_within (m + 500000 * int n) sim'"
  using assms(4,5)
proof (induction n)
  case 0
  then show ?case using assms(2) by (simp add: numbered_def consecutive_def)
next
  case (Suc n)
  then obtain s1 out where IH: "foldl_ret (burst_body config ts) (sim, buf) [0..<n] = Ret (s1, out)"
    "length out = length buf" "drop n out = drop n buf" "\<forall>i < n. burst_event_ok config ts i (out ! i)"
    "numbered sim s1 (take n out)" "prices_within (m + 500000 * int n) s1" by auto
  have "100000000 \<le> m + 500000 * int n" "m + 500000 * int n < 2 ^ 58" using assms(3) Suc.prems by simp_all
  from gen_event_Ret [OF jitter IH(6) this, of ts n] obtain s2 ev where
    e: "gen_event config ts s1 n = Ret (s2, ev)" "burst_event_ok config ts n ev" "counted s1 s2 ev"
      "prices_within (m + 500000 * int n + 500000) s2" .
  have n: "n < length out" using Suc.prems IH(2) by simp
  show ?case
  proof (intro exI conjI)
    show "foldl_ret (burst_body config ts) (sim, buf) [0..<Suc n] = Ret (s2, out[n := ev])"
      by (simp add: foldl_ret_append IH(1)) (simp add: burst_body_def e(1))
    show "length (out[n := ev]) = length buf" using IH(2) by simp
    show "drop (Suc n) (out[n := ev]) = drop (Suc n) buf"
      using IH(3) by (simp add: drop_update_cancel) (metis drop_Suc drop_tl)
    show "\<forall>i < Suc n. burst_event_ok config ts i (out[n := ev] ! i)" using IH(4) e(2) n by (simp add: nth_list_update less_Suc_eq)
    show "numbered sim s2 (take (Suc n) (out[n := ev]))"
      using numbered_snoc [OF IH(5) e(3)] n by (simp add: take_Suc_conv_app_nth)
    show "prices_within (m + 500000 * int (Suc n)) s2" using e(4) by (simp add: algebra_simps)
  qed
qed

section \<open>Properties\<close>

text \<open>What a consumer of the burst may rely on of its \<open>i\<close>-th event: the four timestamps are ordered and
  the engine and egress times are within the announced bounds, and the payload is that of one of the
  three markets, a positive quote that is not crossed or a trade with a side and a size.\<close>

definition event_valid :: "u64 \<Rightarrow> nat \<Rightarrow> SimulatedFeedEvent \<Rightarrow> bool" where
  "event_valid ts i ev \<longleftrightarrow>
     (let t = ev_telemetry ev in
        unat (t0_exchange_ns t) = unat ts + 10 * i \<and>
        t0_exchange_ns t \<le> t1_ingest_nic_ns t \<and> t1_ingest_nic_ns t < t2_engine_proc_ns t \<and>
        t2_engine_proc_ns t < t3_egress_ns t \<and>
        500 \<le> internal_processing_latency_ns t \<and> internal_processing_latency_ns t \<le> 1500 \<and>
        wire_to_egress_latency_ns t \<le> 2300) \<and>
     ev_market_id ev \<in> {1001, 1002, 1003} \<and>
     (case ev_kind ev of
        BboEvent \<Rightarrow> 0 < sint (bid_price (ev_bbo ev)) \<and> sint (bid_price (ev_bbo ev)) \<le> sint (ask_price (ev_bbo ev)) \<and>
          0 < bid_qty (ev_bbo ev) \<and> 0 < ask_qty (ev_bbo ev)
      | TradeEvent \<Rightarrow> 100000000 \<le> sint (trade_price (ev_trade ev)) \<and> trade_side (ev_trade ev) \<in> {1, 2} \<and>
          0 < trade_size (ev_trade ev))"

lemma telemetry_ordered:
  assumes t: "telemetry_ok config ts i t" and jit: "jitter_min_ns config \<le> jitter_max_ns config"
    and room: "unat ts + 10 * n + unat (jitter_max_ns config) + 2300 < 2 ^ 64" "i < n"
  shows "unat (t0_exchange_ns t) = unat ts + 10 * i" "t0_exchange_ns t \<le> t1_ingest_nic_ns t"
    "t1_ingest_nic_ns t < t2_engine_proc_ns t" "t2_engine_proc_ns t < t3_egress_ns t"
    "500 \<le> internal_processing_latency_ns t" "internal_processing_latency_ns t \<le> 1500"
    "wire_to_egress_latency_ns t \<le> 2300"
proof -
  obtain j e g where eq: "t = \<lparr>t0_exchange_ns = ts + of_nat i * 10, t1_ingest_nic_ns = ts + of_nat i * 10 + j,
      t2_engine_proc_ns = ts + of_nat i * 10 + j + e, t3_egress_ns = ts + of_nat i * 10 + j + e + g\<rparr>"
    and b: "j \<le> jitter_max_ns config" "500 \<le> e" "e \<le> 1500" "200 \<le> g" "g \<le> 800"
    using t jit unfolding telemetry_ok_def by blast
  have nb: "unat j \<le> unat (jitter_max_ns config)" "500 \<le> unat e" "unat e \<le> 1500" "200 \<le> unat g" "unat g \<le> 800"
    using b by (simp_all add: word_le_nat_alt)
  have i10: "unat (of_nat i * 10 :: u64) = i * 10"
    using room by (subst unat_mult_nowrap) (simp_all add: unat_of_nat_small)
  have u0: "unat (ts + of_nat i * 10) = unat ts + 10 * i" using room by (subst unat_add_nowrap) (simp_all add: i10)
  have u1: "unat (ts + of_nat i * 10 + j) = unat ts + 10 * i + unat j"
    using room nb by (subst unat_add_nowrap) (simp_all add: u0)
  have u2: "unat (ts + of_nat i * 10 + j + e) = unat ts + 10 * i + unat j + unat e"
    using room nb by (subst unat_add_nowrap) (simp_all add: u1)
  have u3: "unat (ts + of_nat i * 10 + j + e + g) = unat ts + 10 * i + unat j + unat e + unat g"
    using room nb by (subst unat_add_nowrap) (simp_all add: u2)
  show "unat (t0_exchange_ns t) = unat ts + 10 * i" "t0_exchange_ns t \<le> t1_ingest_nic_ns t"
    "t1_ingest_nic_ns t < t2_engine_proc_ns t" "t2_engine_proc_ns t < t3_egress_ns t"
    "500 \<le> internal_processing_latency_ns t" "internal_processing_latency_ns t \<le> 1500"
    "wire_to_egress_latency_ns t \<le> 2300"
    using nb by (simp_all add: eq u0 u1 u2 u3 word_le_nat_alt word_less_nat_alt internal_processing_latency_ns_def
        wire_to_egress_latency_ns_def unat_saturating_sub)
qed

lemma burst_event_valid:
  assumes "burst_event_ok config ts i ev" "jitter_min_ns config \<le> jitter_max_ns config"
    and "unat ts + 10 * n + unat (jitter_max_ns config) + 2300 < 2 ^ 64" "i < n"
  shows "event_valid ts i ev"
proof -
  from assms(1) obtain mid price where e: "telemetry_ok config ts i (ev_telemetry ev)" "mid \<in> {1001, 1002, 1003}"
    "100000000 \<le> sint price" "event_ok mid price ev" unfolding burst_event_ok_def by blast
  note t = telemetry_ordered [OF e(1) assms(2-4)]
  show ?thesis
    unfolding event_valid_def Let_def using t e(2-4)
    by (cases "ev_kind ev") (simp_all add: event_ok_def)
qed

text \<open>C34: A burst always completes: unless the jitter range is all of \<open>u64\<close> no draw divides by zero. It
  fills exactly the first \<open>min burst_size (len out_buffer)\<close> entries of the buffer and leaves the rest.
  As long as the timestamps stay below \<open>2 ^ 64\<close> and the prices below \<open>2 ^ 58\<close>, every entry written is a
  valid event, and the sequence numbers of each venue and the trade identifiers are consecutive, going
  on from the simulator's counters, which end at the last number handed out.\<close>

theorem feed_burst_valid:
  fixes config ts sim buf
  defines "n \<equiv> min (burst_size config) (length buf)"
  assumes "jitter_min_ns config \<le> jitter_max_ns config"
    and "unat ts + 10 * n + unat (jitter_max_ns config) + 2300 < 2 ^ 64"
    and "prices_within m sim" "100000000 \<le> m" "m + 500000 * int n < 2 ^ 58"
  shows "\<exists>sim' out. generate_burst config ts sim buf = Ret (sim', out, n) \<and>
    length out = length buf \<and> drop n out = drop n buf \<and> (\<forall>i < n. event_valid ts i (out ! i)) \<and>
    numbered sim sim' (take n out)"
proof -
  have "jitter_max_ns config \<noteq> - 1"
  proof
    assume "jitter_max_ns config = - 1"
    then have "unat (jitter_max_ns config) = 2 ^ 64 - 1"
      by (simp add: unsigned_minus_1_eq_mask mask_eq_exp_minus_1)
    then show False using assms(3) by simp
  qed
  then have "\<not> (jitter_min_ns config = 0 \<and> jitter_max_ns config = - 1)" by simp
  from burst_loop [OF this assms(4-6), of buf ts] obtain sim' out where
    l: "foldl_ret (burst_body config ts) (sim, buf) [0..<n] = Ret (sim', out)" "length out = length buf"
      "drop n out = drop n buf" "\<forall>i < n. burst_event_ok config ts i (out ! i)" "numbered sim sim' (take n out)"
    by (auto simp: n_def)
  have "generate_burst config ts sim buf = Ret (sim', out, n)"
    using l(1) by (simp add: generate_burst_def burst_body_def flip: n_def)
  with l burst_event_valid assms(2,3) show ?thesis by blast
qed

theorem feed_burst_valid_witness:
  "\<exists>sim' out. generate_burst (burst_config_default\<lparr>burst_size := 2\<rparr>) 7
     (simulator_new 42 burst_config_default) (replicate 3 event_default) = Ret (sim', out, 2) \<and>
     length out = 3 \<and> out ! 2 = event_default \<and> event_valid 7 1 (out ! 1)"
proof -
  let ?c = "burst_config_default\<lparr>burst_size := 2\<rparr>" and ?s = "simulator_new 42 burst_config_default"
  let ?buf = "replicate 3 event_default"
  have n: "min (burst_size ?c) (length ?buf) = 2" by simp
  have "prices_within 6500000000000 ?s"
    by (simp add: prices_within_def simulator_new_def burst_config_default_def)
  then have "\<exists>sim' out. generate_burst ?c 7 ?s ?buf = Ret (sim', out, 2) \<and>
    length out = length ?buf \<and> drop 2 out = drop 2 ?buf \<and> (\<forall>i < 2. event_valid 7 i (out ! i)) \<and>
    numbered ?s sim' (take 2 out)"
    using feed_burst_valid [of ?c 7 ?buf 6500000000000 ?s, unfolded n] by (simp add: burst_config_default_def)
  then obtain sim' out where o: "generate_burst ?c 7 ?s ?buf = Ret (sim', out, 2)" "length out = length ?buf"
    "drop 2 out = drop 2 ?buf" "event_valid 7 1 (out ! 1)" by auto
  have "out ! 2 = drop 2 out ! 0" using o(2) by simp
  also have "\<dots> = event_default" unfolding o(3) by simp
  finally show ?thesis using o by auto
qed

text \<open>The one configuration that panics.\<close>

theorem gen_range_full_width_panics: "gen_range p 0 (- 1) = Panic"
  by (simp add: gen_range_def split: prod.splits)

end
