(* ===== verification/Stress_Harness.thy ===== *)
theory Stress_Harness
  imports Isolated_Queue Feed_Simulator
begin

text \<open>
  The stress harness \<open>src/crates/core-engine/examples/feed_simulator.rs\<close>: the simulator feeds every event to
  two isolated queues, one with a fast and one with a slow consumer. How the three threads take turns is
  a list of moves, each a whole operation on a queue; the fast queue refuses the newest item when full, on which
  the producer panics, the slow queue evicts the oldest.
\<close>

section \<open>The harness\<close>

definition QUEUE_CAPACITY :: nat where
  "QUEUE_CAPACITY = 16384"

definition stress_config :: FeedBurstConfig where
  "stress_config = \<lparr>target_msg_rate_per_sec = 500000, burst_size = 2500, burst_interval_micros = 5000,
     jitter_min_ns = 250, jitter_max_ns = 2500, base_btc_price = 6542000000000, base_eth_price = 351000000000,
     base_sol_price = 15250000000\<rparr>"

definition burst_time :: "nat \<Rightarrow> u64" where
  "burst_time b = 1700000000000000000 + of_nat b * 5000000"

text \<open>The events of the bursts \<open>b, ..., b + k - 1\<close>, each the announced prefix of the buffer.\<close>

fun generate_bursts ::
  "nat \<Rightarrow> nat \<Rightarrow> MockExchangeFeedSimulator \<Rightarrow> SimulatedFeedEvent list \<Rightarrow> SimulatedFeedEvent list outcome" where
  "generate_bursts 0 b sim buf = Ret []"
| "generate_bursts (Suc k) b sim buf =
     and_ret (generate_burst stress_config (burst_time b) sim buf) (\<lambda>(sim, buf, count).
       and_ret (generate_bursts k (Suc b) sim buf) (\<lambda>evs. Ret (take count buf @ evs)))"

definition stress_events :: "SimulatedFeedEvent list outcome" where
  "stress_events = generate_bursts 50 0 (simulator_new 42 stress_config) (replicate 2500 event_default)"

record 'a stress =
  to_push :: "'a list"
  fast_q :: "'a IsolatedConsumerQueue"
  slow_q :: "'a IsolatedConsumerQueue"
  fast_got :: "'a list"
  slow_got :: "'a list"

datatype move = Produce | FastTurn | SlowTurn

definition stress_start :: "'a list \<Rightarrow> 'a \<Rightarrow> 'a stress outcome" where
  "stress_start evs dflt = and_ret (iq_new QUEUE_CAPACITY dflt) (\<lambda>q.
     Ret \<lparr>to_push = evs, fast_q = q, slow_q = q, fast_got = [], slow_got = []\<rparr>)"

fun stress_move :: "'a stress \<Rightarrow> move \<Rightarrow> 'a stress outcome" where
  "stress_move s Produce =
     (case to_push s of
        [] \<Rightarrow> Ret s
      | ev # evs \<Rightarrow>
          (case push_with_policy (fast_q s) ev DropNewest of
             (q, res) \<Rightarrow>
               if res \<noteq> Enqueued then Panic
               else Ret (s\<lparr>to_push := evs, fast_q := q, slow_q := fst (push_with_policy (slow_q s) ev DropOldest)\<rparr>)))"
| "stress_move s FastTurn =
     (case iq_step (fast_q s, fast_got s) IqPop of (q, got) \<Rightarrow> Ret (s\<lparr>fast_q := q, fast_got := got\<rparr>))"
| "stress_move s SlowTurn =
     (case iq_step (slow_q s, slow_got s) IqPop of (q, got) \<Rightarrow> Ret (s\<lparr>slow_q := q, slow_got := got\<rparr>))"

text \<open>The consumers end when the producer is done and their queue is empty.\<close>

definition stress_finished :: "'a stress \<Rightarrow> bool" where
  "stress_finished s \<longleftrightarrow> to_push s = [] \<and> iq_is_empty (fast_q s) \<and> iq_is_empty (slow_q s)"

section \<open>The invariant\<close>

abbreviation contents :: "'a IsolatedConsumerQueue \<Rightarrow> 'a list" where
  "contents q \<equiv> ring_items (iq_ring q)"

definition stress_inv :: "nat \<Rightarrow> 'a list \<Rightarrow> 'a stress \<Rightarrow> bool" where
  "stress_inv k evs s \<longleftrightarrow> (\<exists>pushed. evs = pushed @ to_push s \<and>
     iq_run_inv QUEUE_CAPACITY k pushed (fast_q s, fast_got s) \<and> fast_got s @ contents (fast_q s) = pushed \<and>
     total_dropped (iq_metrics (fast_q s)) = 0 \<and> total_evicted (iq_metrics (fast_q s)) = 0 \<and>
     iq_run_inv QUEUE_CAPACITY k pushed (slow_q s, slow_got s) \<and> total_dropped (iq_metrics (slow_q s)) = 0)"

lemma capacity_power: "is_power_of_two QUEUE_CAPACITY"
  unfolding is_power_of_two_def list_ex_iff QUEUE_CAPACITY_def by (rule bexI [of _ 14]) simp_all

lemma run_inv_mono: "iq_run_inv n (Suc k) pushed s \<Longrightarrow> iq_run_inv n k pushed s"
  unfolding iq_run_inv_def by (auto simp: ring_inv_def intro: exI)

lemma pop_keeps:
  assumes "ring_inv k (iq_ring q)" "iq_step (q, got) IqPop = (q', got')"
  shows "got' @ contents q' = got @ contents q" "total_dropped (iq_metrics q') = total_dropped (iq_metrics q)"
    "total_evicted (iq_metrics q') = total_evicted (iq_metrics q)"
proof -
  obtain q1 res where p: "iq_try_pop q = (q1, res)" by (cases "iq_try_pop q")
  note s = iq_try_pop_spec [OF assms(1) p]
  show "got' @ contents q' = got @ contents q" "total_dropped (iq_metrics q') = total_dropped (iq_metrics q)"
    "total_evicted (iq_metrics q') = total_evicted (iq_metrics q)"
    using s assms(2) by (auto simp: p split: list.splits)
qed

lemma stress_inv_move:
  assumes inv: "stress_inv (Suc k) evs s" and step: "stress_move s m = Ret s'" and room: "length evs < 2 ^ 64"
  shows "stress_inv k evs s'"
proof -
  obtain pushed where p: "evs = pushed @ to_push s" and f: "iq_run_inv QUEUE_CAPACITY (Suc k) pushed (fast_q s, fast_got s)"
      "fast_got s @ contents (fast_q s) = pushed" "total_dropped (iq_metrics (fast_q s)) = 0" "total_evicted (iq_metrics (fast_q s)) = 0"
    and sl: "iq_run_inv QUEUE_CAPACITY (Suc k) pushed (slow_q s, slow_got s)" "total_dropped (iq_metrics (slow_q s)) = 0"
    using inv by (auto simp: stress_inv_def)
  have rings: "ring_inv (Suc k) (iq_ring (fast_q s))" "ring_inv (Suc k) (iq_ring (slow_q s))"
    using f(1) sl(1) by (simp_all add: iq_run_inv_def)
  have pr: "length pushed < 2 ^ 64" using room p by simp
  show ?thesis
  proof (cases m)
    case FastTurn
    obtain q got where t: "iq_step (fast_q s, fast_got s) IqPop = (q, got)" by fastforce
    have "iq_run_inv QUEUE_CAPACITY k pushed (q, got)"
      using iq_pop_run_inv [OF run_inv_mono [OF f(1)] pr] t by simp
    then show ?thesis using step pop_keeps [OF rings(1) t] run_inv_mono [OF sl(1)] p f sl(2) unfolding stress_inv_def
      by (intro exI [of _ pushed]) (auto simp: FastTurn t simp del: iq_step.simps)
  next
    case SlowTurn
    obtain q got where t: "iq_step (slow_q s, slow_got s) IqPop = (q, got)" by fastforce
    have "iq_run_inv QUEUE_CAPACITY k pushed (q, got)"
      using iq_pop_run_inv [OF run_inv_mono [OF sl(1)] pr] t by simp
    then show ?thesis using step pop_keeps [OF rings(2) t] run_inv_mono [OF f(1)] p f sl(2) unfolding stress_inv_def
      by (intro exI [of _ pushed]) (auto simp: SlowTurn t simp del: iq_step.simps)
  next
    case Produce
    show ?thesis
    proof (cases "to_push s")
      case Nil
      then show ?thesis using step run_inv_mono [OF f(1)] run_inv_mono [OF sl(1)] p f sl(2)
        unfolding stress_inv_def by (intro exI [of _ pushed]) (simp add: Produce)
    next
      case (Cons ev rest)
      obtain q res where fp: "push_with_policy (fast_q s) ev DropNewest = (q, res)" by fastforce
      obtain q2 res2 where sp: "push_with_policy (slow_q s) ev DropOldest = (q2, res2)" by fastforce
      have e: "res = Enqueued" "s' = s\<lparr>to_push := rest, fast_q := q, slow_q := q2\<rparr>"
        using step by (simp_all add: Produce Cons fp sp split: if_splits)
      have len: "length pushed + 1 < 2 ^ 64" "0 < QUEUE_CAPACITY" using room p Cons by (simp_all add: QUEUE_CAPACITY_def)
      note a = iq_push_run_inv [OF f(1) len, of ev DropNewest] and b = iq_push_run_inv [OF sl(1) len, of ev DropOldest]
      note x = push_with_policy_spec [OF rings(1) fp] and y = push_with_policy_spec [OF rings(2) sp]
      have "contents q = contents (fast_q s) @ [ev]" using x(4) e(1) by (simp add: spec_push_def split: if_splits)
      moreover have "res2 \<noteq> DroppedNewest" using y(4) by (simp add: spec_push_def split: if_splits)
      then have "total_dropped (iq_metrics q2) = total_dropped (iq_metrics (slow_q s))" using y(3) by (cases res2) simp_all
      ultimately show ?thesis using a b x(3) e f sl p Cons fp sp unfolding stress_inv_def
        by (intro exI [of _ "pushed @ [ev]"]) (simp flip: append_assoc)
    qed
  qed
qed

lemma stress_inv_run:
  assumes "stress_inv (length moves + k) evs s" "foldl_ret stress_move s moves = Ret s'" "length evs < 2 ^ 64"
  shows "stress_inv k evs s'"
  using assms
proof (induction moves arbitrary: s)
  case (Cons m moves)
  obtain s1 where s1: "stress_move s m = Ret s1" "foldl_ret stress_move s1 moves = Ret s'"
    using Cons.prems(2) by (cases "stress_move s m") simp_all
  have "stress_inv (length moves + k) evs s1" using stress_inv_move [OF _ s1(1) Cons.prems(3)] Cons.prems(1) by simp
  then show ?case using Cons.IH [OF _ s1(2) Cons.prems(3)] by simp
qed simp

lemma stress_start_inv:
  assumes "stress_start evs dflt = Ret s" "k + QUEUE_CAPACITY < 2 ^ 64"
  shows "stress_inv k evs s"
proof -
  obtain q where q: "iq_new QUEUE_CAPACITY dflt = Ret q"
    "s = \<lparr>to_push = evs, fast_q = q, slow_q = q, fast_got = [], slow_got = []\<rparr>"
    using assms(1) by (cases "iq_new QUEUE_CAPACITY dflt") (auto simp: stress_start_def)
  note new = iq_new_inv [OF q(1) assms(2)]
  then have "iq_run_inv QUEUE_CAPACITY k [] (q, [])" by (simp add: iq_run_inv_def metrics_ok_def queue_metrics_new_def)
  then show ?thesis using new by (simp add: stress_inv_def q(2) queue_metrics_new_def)
qed

text \<open>The bursts never panic and fill their buffer.\<close>

lemma stress_burst:
  assumes "prices_within m sim" "100000000 \<le> m" "m + 500000 * 2500 < 2 ^ 58" "length buf = 2500"
  shows "\<exists>sim' out. generate_burst stress_config ts sim buf = Ret (sim', out, 2500) \<and> length out = 2500 \<and>
    prices_within (m + 500000 * 2500) sim'"
proof -
  have "\<not> (jitter_min_ns stress_config = 0 \<and> jitter_max_ns stress_config = - 1)" by (simp add: stress_config_def)
  from burst_loop [OF this assms(1,2), of 2500 buf ts] assms(3,4)
  obtain sim' out where "foldl_ret (burst_body stress_config ts) (sim, buf) [0..<2500] = Ret (sim', out)"
    "length out = 2500" "prices_within (m + 500000 * 2500) sim'" by auto
  moreover have "min (burst_size stress_config) (length buf) = 2500" by (simp add: assms(4) stress_config_def)
  ultimately show ?thesis by (simp add: generate_burst_def burst_body_def del: upt_rec_numeral)
qed

lemma stress_bursts:
  assumes "prices_within m sim" "100000000 \<le> m" "m + 500000 * 2500 * int k < 2 ^ 58" "length buf = 2500"
  shows "\<exists>evs. generate_bursts k b sim buf = Ret evs \<and> length evs = 2500 * k"
  using assms
proof (induction k arbitrary: m b sim buf)
  case (Suc k)
  have "m + 500000 * 2500 < 2 ^ 58" using Suc.prems(3) by simp
  from stress_burst [OF Suc.prems(1,2) this Suc.prems(4), of "burst_time b"] obtain sim' out where
    g: "generate_burst stress_config (burst_time b) sim buf = Ret (sim', out, 2500)" "length out = 2500"
      "prices_within (m + 500000 * 2500) sim'" by blast
  obtain evs where "generate_bursts k (Suc b) sim' out = Ret evs" "length evs = 2500 * k"
    using Suc.IH [OF g(3) _ _ g(2), of "Suc b"] Suc.prems(2,3) by auto
  then show ?case using g by simp
qed simp

lemma stress_events_total: "\<exists>evs. stress_events = Ret evs \<and> length evs = 125000"
proof -
  have "prices_within 6542000000000 (simulator_new 42 stress_config)"
    by (simp add: prices_within_def simulator_new_def stress_config_def)
  from stress_bursts [OF this, of 50 "replicate 2500 event_default" 0] show ?thesis by (simp add: stress_events_def)
qed

section \<open>Properties\<close>



end
