(* ===== verification/Wait_Strategy.thy ===== *)
theory Wait_Strategy
  imports Topology
begin

text \<open>
  The waiting strategies of \<open>src/crates/core-engine/src/sync/wait_strategy.rs\<close>. What a call does to the
  processor is a value, \<open>wait_action\<close>; the clock reading of a call that takes one is an argument, in
  nanoseconds, and so are durations. The trait is the locale \<open>wait_strategy\<close>, with the contract that a
  reset forgets every idle call before it and that a single wait is bounded.
\<close>

section \<open>Strategies\<close>

datatype wait_action = SpinLoop | YieldNow | Sleep nat  \<comment> \<open>nanoseconds\<close>

definition from_micros :: "u64 \<Rightarrow> nat" where
  "from_micros us = 1000 * unat us"

fun wait_ns :: "wait_action \<Rightarrow> nat" where
  "wait_ns SpinLoop = 0"
| "wait_ns YieldNow = 0"
| "wait_ns (Sleep d) = d"

datatype WaitStrategyKind = BusySpin | HybridAdaptive | PowerEfficient | BurstMode

datatype BusySpinStrategy = BusySpinStrategy

definition busy_reset :: "nat \<Rightarrow> BusySpinStrategy \<Rightarrow> BusySpinStrategy" where
  "busy_reset now s = s"

definition busy_idle :: "nat \<Rightarrow> BusySpinStrategy \<Rightarrow> BusySpinStrategy \<times> wait_action" where
  "busy_idle now s = (s, SpinLoop)"

definition busy_park_timeout :: "nat \<Rightarrow> nat \<Rightarrow> BusySpinStrategy \<Rightarrow> wait_action" where
  "busy_park_timeout now timeout s = SpinLoop"

definition busy_kind :: "nat \<Rightarrow> BusySpinStrategy \<Rightarrow> WaitStrategyKind" where
  "busy_kind now s = BusySpin"

record HybridAdaptiveStrategy =
  h_counter :: u32
  h_spin_limit :: u32
  h_yield_limit :: u32
  h_current_sleep_us :: u32
  h_max_sleep_us :: u32

definition hybrid_new :: "u32 \<Rightarrow> u32 \<Rightarrow> u32 \<Rightarrow> HybridAdaptiveStrategy" where
  "hybrid_new spin_limit yield_limit max_sleep_us = \<lparr>h_counter = 0, h_spin_limit = spin_limit,
     h_yield_limit = yield_limit, h_current_sleep_us = 1, h_max_sleep_us = max max_sleep_us 1\<rparr>"

definition hybrid_default :: HybridAdaptiveStrategy where
  "hybrid_default = hybrid_new 256 1024 50"

definition hybrid_reset :: "nat \<Rightarrow> HybridAdaptiveStrategy \<Rightarrow> HybridAdaptiveStrategy" where
  "hybrid_reset now s = s\<lparr>h_counter := 0, h_current_sleep_us := 1\<rparr>"

definition hybrid_idle :: "nat \<Rightarrow> HybridAdaptiveStrategy \<Rightarrow> HybridAdaptiveStrategy \<times> wait_action" where
  "hybrid_idle now s =
     (let s = s\<lparr>h_counter := saturating_add (h_counter s) 1\<rparr>
      in if h_counter s \<le> h_spin_limit s then (s, SpinLoop)
         else if h_counter s \<le> h_spin_limit s + h_yield_limit s then (s, YieldNow)
         else (s\<lparr>h_current_sleep_us := min (h_current_sleep_us s * 2) (h_max_sleep_us s)\<rparr>,
               Sleep (from_micros (ucast (h_current_sleep_us s)))))"

definition hybrid_park_timeout :: "nat \<Rightarrow> nat \<Rightarrow> HybridAdaptiveStrategy \<Rightarrow> wait_action" where
  "hybrid_park_timeout now timeout s = Sleep timeout"

definition hybrid_kind :: "nat \<Rightarrow> HybridAdaptiveStrategy \<Rightarrow> WaitStrategyKind" where
  "hybrid_kind now s = HybridAdaptive"

record PowerEfficientStrategy =
  p_counter :: u32
  p_spin_limit :: u32
  p_min_sleep_us :: u64
  p_max_sleep_us :: u64
  p_current_sleep_us :: u64

definition power_new :: "u32 \<Rightarrow> u64 \<Rightarrow> u64 \<Rightarrow> PowerEfficientStrategy" where
  "power_new spin_limit min_sleep_us max_sleep_us = \<lparr>p_counter = 0, p_spin_limit = spin_limit,
     p_min_sleep_us = min_sleep_us, p_max_sleep_us = max max_sleep_us min_sleep_us,
     p_current_sleep_us = min_sleep_us\<rparr>"

definition power_default :: PowerEfficientStrategy where
  "power_default = power_new 32 10 1000"

definition power_reset :: "nat \<Rightarrow> PowerEfficientStrategy \<Rightarrow> PowerEfficientStrategy" where
  "power_reset now s = s\<lparr>p_counter := 0, p_current_sleep_us := p_min_sleep_us s\<rparr>"

definition power_idle :: "nat \<Rightarrow> PowerEfficientStrategy \<Rightarrow> PowerEfficientStrategy \<times> wait_action" where
  "power_idle now s =
     (let s = s\<lparr>p_counter := saturating_add (p_counter s) 1\<rparr>
      in if p_counter s \<le> p_spin_limit s then (s, SpinLoop)
         else (s\<lparr>p_current_sleep_us := min (p_current_sleep_us s * 2) (p_max_sleep_us s)\<rparr>,
               Sleep (from_micros (p_current_sleep_us s))))"

definition power_park_timeout :: "nat \<Rightarrow> nat \<Rightarrow> PowerEfficientStrategy \<Rightarrow> wait_action" where
  "power_park_timeout now timeout s = Sleep timeout"

definition power_kind :: "nat \<Rightarrow> PowerEfficientStrategy \<Rightarrow> WaitStrategyKind" where
  "power_kind now s = PowerEfficient"

text \<open>The wrapper is generic in the inner strategy, whose operations are arguments.\<close>

record 's AdaptiveBurstWaitStrategy =
  ab_inner :: 's
  burst_threshold_ticks :: u32
  window_duration :: nat
  burst_decay_duration :: nat
  window_start :: nat
  ticks_in_window :: u32
  burst_until :: "nat option"

definition burst_new :: "nat \<Rightarrow> 's \<Rightarrow> u32 \<Rightarrow> nat \<Rightarrow> nat \<Rightarrow> 's AdaptiveBurstWaitStrategy" where
  "burst_new now inner threshold window decay = \<lparr>ab_inner = inner, burst_threshold_ticks = threshold,
     window_duration = window, burst_decay_duration = decay, window_start = now, ticks_in_window = 0,
     burst_until = None\<rparr>"

definition record_tick ::
  "(nat \<Rightarrow> 's \<Rightarrow> 's) \<Rightarrow> nat \<Rightarrow> 's AdaptiveBurstWaitStrategy \<Rightarrow> 's AdaptiveBurstWaitStrategy" where
  "record_tick reset now s =
     (let s = s\<lparr>ticks_in_window := saturating_add (ticks_in_window s) 1\<rparr>;
          s = (if now - window_start s \<ge> window_duration s
               then let s = (if ticks_in_window s \<ge> burst_threshold_ticks s
                             then s\<lparr>burst_until := Some (now + burst_decay_duration s)\<rparr> else s)
                    in s\<lparr>window_start := now, ticks_in_window := 0\<rparr>
               else s)
      in s\<lparr>ab_inner := reset now (ab_inner s)\<rparr>)"

definition is_in_burst_mode :: "nat \<Rightarrow> 's AdaptiveBurstWaitStrategy \<Rightarrow> bool" where
  "is_in_burst_mode now s = (case burst_until s of Some expiry \<Rightarrow> now < expiry | None \<Rightarrow> False)"

definition burst_idle ::
  "(nat \<Rightarrow> 's \<Rightarrow> 's \<times> wait_action) \<Rightarrow> nat \<Rightarrow> 's AdaptiveBurstWaitStrategy \<Rightarrow>
   's AdaptiveBurstWaitStrategy \<times> wait_action" where
  "burst_idle idle now s =
     (if is_in_burst_mode now s then (s, SpinLoop)
      else case idle now (ab_inner s) of (inner, act) \<Rightarrow> (s\<lparr>ab_inner := inner\<rparr>, act))"

definition burst_park_timeout ::
  "(nat \<Rightarrow> nat \<Rightarrow> 's \<Rightarrow> wait_action) \<Rightarrow> nat \<Rightarrow> nat \<Rightarrow> 's AdaptiveBurstWaitStrategy \<Rightarrow> wait_action" where
  "burst_park_timeout park now timeout s =
     (if is_in_burst_mode now s then SpinLoop else park now timeout (ab_inner s))"

definition burst_kind ::
  "(nat \<Rightarrow> 's \<Rightarrow> WaitStrategyKind) \<Rightarrow> nat \<Rightarrow> 's AdaptiveBurstWaitStrategy \<Rightarrow> WaitStrategyKind" where
  "burst_kind kind now s = (if is_in_burst_mode now s then BusySpin else kind now (ab_inner s))"

datatype DynamicWaitStrategy =
    Busy BusySpinStrategy
  | Hybrid HybridAdaptiveStrategy
  | Power PowerEfficientStrategy
  | Burst "HybridAdaptiveStrategy AdaptiveBurstWaitStrategy"

fun for_tier :: "nat \<Rightarrow> HardwareTier \<Rightarrow> DynamicWaitStrategy" where
  "for_tier now Tier3EnterpriseBareMetal = Busy BusySpinStrategy"
| "for_tier now Tier2CloudVirtualized = Burst (burst_new now hybrid_default 500 100000000 50000000)"
| "for_tier now Tier1MidRange = Power power_default"

fun dyn_reset :: "nat \<Rightarrow> DynamicWaitStrategy \<Rightarrow> DynamicWaitStrategy" where
  "dyn_reset now (Busy s) = Busy (busy_reset now s)"
| "dyn_reset now (Hybrid s) = Hybrid (hybrid_reset now s)"
| "dyn_reset now (Power s) = Power (power_reset now s)"
| "dyn_reset now (Burst s) = Burst (record_tick hybrid_reset now s)"

fun dyn_idle :: "nat \<Rightarrow> DynamicWaitStrategy \<Rightarrow> DynamicWaitStrategy \<times> wait_action" where
  "dyn_idle now (Busy s) = apfst Busy (busy_idle now s)"
| "dyn_idle now (Hybrid s) = apfst Hybrid (hybrid_idle now s)"
| "dyn_idle now (Power s) = apfst Power (power_idle now s)"
| "dyn_idle now (Burst s) = apfst Burst (burst_idle hybrid_idle now s)"

fun dyn_park_timeout :: "nat \<Rightarrow> nat \<Rightarrow> DynamicWaitStrategy \<Rightarrow> wait_action" where
  "dyn_park_timeout now d (Busy s) = busy_park_timeout now d s"
| "dyn_park_timeout now d (Hybrid s) = hybrid_park_timeout now d s"
| "dyn_park_timeout now d (Power s) = power_park_timeout now d s"
| "dyn_park_timeout now d (Burst s) = burst_park_timeout hybrid_park_timeout now d s"

fun dyn_kind :: "nat \<Rightarrow> DynamicWaitStrategy \<Rightarrow> WaitStrategyKind" where
  "dyn_kind now (Busy s) = busy_kind now s"
| "dyn_kind now (Hybrid s) = hybrid_kind now s"
| "dyn_kind now (Power s) = power_kind now s"
| "dyn_kind now (Burst s) = burst_kind hybrid_kind now s"

text \<open>A schedule of calls on the dispatcher, each with its time: \<open>True\<close> is a reset, \<open>False\<close> an idle call.\<close>

fun dyn_run :: "(nat \<times> bool) list \<Rightarrow> DynamicWaitStrategy \<Rightarrow> DynamicWaitStrategy \<times> wait_action list" where
  "dyn_run [] s = (s, [])"
| "dyn_run ((now, True) # cs) s = dyn_run cs (dyn_reset now s)"
| "dyn_run ((now, False) # cs) s = (case dyn_idle now s of (s', act) \<Rightarrow> apsnd ((#) act) (dyn_run cs s'))"

section \<open>The contract of a strategy\<close>

locale wait_strategy =
  fixes reset :: "nat \<Rightarrow> 's \<Rightarrow> 's"
    and idle :: "nat \<Rightarrow> 's \<Rightarrow> 's \<times> wait_action"
    and ok :: "nat \<Rightarrow> 's \<Rightarrow> bool"  \<comment> \<open>no wait exceeds that many nanoseconds\<close>
  assumes reset_forgets: "reset now (fst (idle t s)) = reset now s"
    and reset_ok: "ok b s \<Longrightarrow> ok b (reset now s)"
    and idle_ok: "ok b s \<Longrightarrow> idle now s = (s', act) \<Longrightarrow> ok b s' \<and> wait_ns act \<le> b"
begin

text \<open>A schedule of calls, each with its time: \<open>True\<close> is a reset, \<open>False\<close> an idle call.\<close>

fun run :: "(nat \<times> bool) list \<Rightarrow> 's \<Rightarrow> 's \<times> wait_action list" where
  "run [] s = (s, [])"
| "run ((now, True) # cs) s = run cs (reset now s)"
| "run ((now, False) # cs) s = (case idle now s of (s', act) \<Rightarrow> apsnd ((#) act) (run cs s'))"

lemma run_ok: "ok b s \<Longrightarrow> run cs s = (s', acts) \<Longrightarrow> ok b s' \<and> (\<forall>act \<in> set acts. wait_ns act \<le> b)"
proof (induction cs s arbitrary: s' acts rule: run.induct)
  case (2 now cs s)
  then show ?case using reset_ok by simp
next
  case (3 now cs s)
  obtain s1 act where i: "idle now s = (s1, act)" by (cases "idle now s")
  obtain acts' where r: "run cs s1 = (s', acts')" "acts = act # acts'"
    using 3(3) by (cases "run cs s1") (simp add: i)
  show ?case using 3(1) [OF i [symmetric], of s' acts'] idle_ok [OF 3(2) i] r by simp
qed simp

lemma run_idles_forgotten: "reset now (fst (run (map (\<lambda>t. (t, False)) ts) s)) = reset now s"
proof (induction ts arbitrary: s)
  case (Cons t ts)
  obtain s1 act where i: "idle t s = (s1, act)" by (cases "idle t s")
  then show ?case using Cons [of s1] reset_forgets [of now t s] by (simp add: i)
qed simp

text \<open>The contract carries over to the burst wrapper.\<close>

lemma burst_wait_strategy: "wait_strategy (record_tick reset) (burst_idle idle) (\<lambda>b s. ok b (ab_inner s))"
proof
  fix now t :: nat and s :: "'s AdaptiveBurstWaitStrategy"
  obtain inner act where i: "idle t (ab_inner s) = (inner, act)" by (cases "idle t (ab_inner s)")
  then have "reset now inner = reset now (ab_inner s)" using reset_forgets [of now t "ab_inner s"] by simp
  then show "record_tick reset now (fst (burst_idle idle t s)) = record_tick reset now s"
    by (simp add: burst_idle_def record_tick_def Let_def i)
next
  fix b now :: nat and s :: "'s AdaptiveBurstWaitStrategy"
  assume "ok b (ab_inner s)"
  then show "ok b (ab_inner (record_tick reset now s))" using reset_ok by (simp add: record_tick_def Let_def)
next
  fix b now :: nat and s s' :: "'s AdaptiveBurstWaitStrategy" and act
  assume "ok b (ab_inner s)" "burst_idle idle now s = (s', act)"
  then show "ok b (ab_inner s') \<and> wait_ns act \<le> b"
    using idle_ok by (auto simp: burst_idle_def split: if_splits prod.splits)
qed

end

definition hybrid_ok :: "nat \<Rightarrow> HybridAdaptiveStrategy \<Rightarrow> bool" where
  "hybrid_ok b s \<longleftrightarrow> 1 \<le> h_max_sleep_us s \<and> h_current_sleep_us s \<le> h_max_sleep_us s \<and> 1000 * unat (h_max_sleep_us s) \<le> b"

definition power_ok :: "nat \<Rightarrow> PowerEfficientStrategy \<Rightarrow> bool" where
  "power_ok b s \<longleftrightarrow> p_min_sleep_us s \<le> p_max_sleep_us s \<and> p_current_sleep_us s \<le> p_max_sleep_us s \<and>
     1000 * unat (p_max_sleep_us s) \<le> b"

fun dyn_ok :: "nat \<Rightarrow> DynamicWaitStrategy \<Rightarrow> bool" where
  "dyn_ok b (Busy s) = True"
| "dyn_ok b (Hybrid s) = hybrid_ok b s"
| "dyn_ok b (Power s) = power_ok b s"
| "dyn_ok b (Burst s) = hybrid_ok b (ab_inner s)"

lemma unat_min_le [simp]: "unat (min a c) \<le> unat (c :: 'a::len word)"
  by (simp add: min_def word_le_nat_alt)

lemma apfst_eq_iff: "apfst f p = (a, b) \<longleftrightarrow> (\<exists>x. p = (x, b) \<and> a = f x)"
  by (cases p) auto

interpretation busy: wait_strategy busy_reset busy_idle "\<lambda>_ _. True"
  by unfold_locales (auto simp: busy_reset_def busy_idle_def)

interpretation hybrid: wait_strategy hybrid_reset hybrid_idle hybrid_ok
proof
  fix b now s s' act
  assume "hybrid_ok b s" "hybrid_idle now s = (s', act)"
  then show "hybrid_ok b s' \<and> wait_ns act \<le> b"
    by (auto simp: hybrid_ok_def hybrid_idle_def Let_def from_micros_def word_le_nat_alt split: if_splits)
qed (auto simp: hybrid_reset_def hybrid_idle_def hybrid_ok_def Let_def)

interpretation power: wait_strategy power_reset power_idle power_ok
proof
  fix b now s s' act
  assume "power_ok b s" "power_idle now s = (s', act)"
  then show "power_ok b s' \<and> wait_ns act \<le> b"
    by (auto simp: power_ok_def power_idle_def Let_def from_micros_def word_le_nat_alt split: if_splits)
qed (auto simp: power_reset_def power_idle_def power_ok_def Let_def)

interpretation burst_hybrid: wait_strategy "record_tick hybrid_reset" "burst_idle hybrid_idle" "\<lambda>b s. hybrid_ok b (ab_inner s)"
  by (rule hybrid.burst_wait_strategy)

interpretation dyn: wait_strategy dyn_reset dyn_idle dyn_ok
proof
  fix now t s
  show "dyn_reset now (fst (dyn_idle t s)) = dyn_reset now s"
    by (cases s) (simp_all add: busy.reset_forgets hybrid.reset_forgets power.reset_forgets burst_hybrid.reset_forgets)
next
  fix b now s
  assume "dyn_ok b s"
  then show "dyn_ok b (dyn_reset now s)"
    by (cases s) (simp_all add: hybrid.reset_ok power.reset_ok burst_hybrid.reset_ok)
next
  fix b now s s' act
  assume "dyn_ok b s" "dyn_idle now s = (s', act)"
  then show "dyn_ok b s' \<and> wait_ns act \<le> b"
    by (cases s) (auto simp: busy_idle_def apfst_eq_iff dest: hybrid.idle_ok power.idle_ok burst_hybrid.idle_ok)
qed

lemma dyn_run_eq: "dyn_run cs s = dyn.run cs s"
  by (induction cs s rule: dyn_run.induct) (auto split: prod.splits)

lemma dyn_run_ok: "dyn_ok b s \<Longrightarrow> dyn_run cs s = (s', acts) \<Longrightarrow> dyn_ok b s' \<and> (\<forall>act \<in> set acts. wait_ns act \<le> b)"
  unfolding dyn_run_eq by (rule dyn.run_ok)

section \<open>The backoff schedule\<close>

text \<open>The state after \<open>k\<close> idle calls.\<close>

definition hybrid_idles :: "nat \<Rightarrow> HybridAdaptiveStrategy \<Rightarrow> HybridAdaptiveStrategy" where
  "hybrid_idles k s = ((\<lambda>s. fst (hybrid_idle 0 s)) ^^ k) s"

lemma hybrid_idle_now: "hybrid_idle now s = hybrid_idle 0 s"
  by (simp add: hybrid_idle_def)

lemma unat_saturating_Suc: "unat (saturating_add c (1 :: u32)) = min (unat c + 1) (2 ^ 32 - 1)"
  using unat_less_power [of c] by (auto simp: saturating_add_def unat_Suc_nowrap unsigned_minus_1_eq_mask mask_eq_exp_minus_1)

lemma unat_min: "unat (min a c) = min (unat a) (unat (c :: 'a::len word))"
  by (simp add: min_def word_le_nat_alt)

lemma double_capped: "min (2 * min (2 ^ j) m) m = min (2 ^ Suc j) (m :: nat)"
  by (simp add: min_def)

fun backoff_action :: "nat \<Rightarrow> nat \<Rightarrow> nat \<Rightarrow> nat \<Rightarrow> wait_action" where
  "backoff_action spin yield cap k =
     (if k < spin then SpinLoop
      else if k < spin + yield then YieldNow
      else Sleep (1000 * min (2 ^ (k - (spin + yield))) cap))"

definition backoff_state :: "nat \<Rightarrow> nat \<Rightarrow> nat \<Rightarrow> nat \<Rightarrow> HybridAdaptiveStrategy \<Rightarrow> bool" where
  "backoff_state spin yield cap k s \<longleftrightarrow>
     unat (h_spin_limit s) = spin \<and> unat (h_yield_limit s) = yield \<and> unat (h_max_sleep_us s) = cap \<and>
     spin + yield < 2 ^ 32 - 1 \<and> 0 < cap \<and> cap < 2 ^ 31 \<and>
     unat (h_counter s) = min k (2 ^ 32 - 1) \<and> unat (h_current_sleep_us s) = min (2 ^ (k - (spin + yield))) cap"

lemma hybrid_idle_step:
  assumes "backoff_state spin yield cap k s" and "hybrid_idle now s = (s', act)"
  shows "backoff_state spin yield cap (Suc k) s' \<and> act = backoff_action spin yield cap k"
proof -
  note b = assms(1) [unfolded backoff_state_def]
  let ?c = "saturating_add (h_counter s) 1"
  have c: "unat ?c = min (Suc k) (2 ^ 32 - 1)" using b by (simp add: unat_saturating_Suc)
  have sum: "unat (h_spin_limit s + h_yield_limit s) = spin + yield"
    using b by (subst unat_add_nowrap) simp_all
  have spin: "?c \<le> h_spin_limit s \<longleftrightarrow> k < spin" using b c by (auto simp: word_le_nat_alt)
  have yield: "?c \<le> h_spin_limit s + h_yield_limit s \<longleftrightarrow> k < spin + yield" using b c sum by (auto simp: word_le_nat_alt)
  have "unat (h_current_sleep_us s) \<le> cap" "cap < 2 ^ 31" using b by simp_all
  then have "unat (h_current_sleep_us s * 2) = 2 * unat (h_current_sleep_us s)"
    by (subst unat_mult_nowrap) simp_all
  then have dbl: "unat (min (h_current_sleep_us s * 2) (h_max_sleep_us s)) = min (2 ^ Suc (k - (spin + yield))) cap"
    using b by (simp only: unat_min double_capped)
  consider (spin) "k < spin" | (yield) "\<not> k < spin" "k < spin + yield" | (sleep) "\<not> k < spin" "\<not> k < spin + yield" by blast
  then show ?thesis
  proof cases
    case spin
    then show ?thesis using assms(2) b c \<open>?c \<le> h_spin_limit s \<longleftrightarrow> k < spin\<close>
      by (auto simp: hybrid_idle_def Let_def backoff_state_def)
  next
    case yield
    then show ?thesis using assms(2) b c spin \<open>?c \<le> h_spin_limit s + h_yield_limit s \<longleftrightarrow> k < spin + yield\<close>
      by (auto simp: hybrid_idle_def Let_def backoff_state_def)
  next
    case sleep
    have "Suc k - (spin + yield) = Suc (k - (spin + yield))" using sleep by simp
    moreover have "s' = s\<lparr>h_counter := ?c, h_current_sleep_us := min (h_current_sleep_us s * 2) (h_max_sleep_us s)\<rparr>"
      "act = Sleep (from_micros (ucast (h_current_sleep_us s)))"
      using assms(2) sleep spin yield by (simp_all add: hybrid_idle_def Let_def)
    ultimately show ?thesis using b c dbl sleep by (simp add: backoff_state_def from_micros_def)
  qed
qed

lemma hybrid_idles_state: "backoff_state spin yield cap 0 s \<Longrightarrow> backoff_state spin yield cap k (hybrid_idles k s)"
proof (induction k)
  case (Suc k)
  obtain s' act where "hybrid_idle 0 (hybrid_idles k s) = (s', act)" by (cases "hybrid_idle 0 (hybrid_idles k s)")
  with hybrid_idle_step [OF Suc.IH [OF Suc.prems] this] show ?case by (simp add: hybrid_idles_def)
qed (simp add: hybrid_idles_def)

section \<open>Bursts\<close>

abbreviation ticks_within :: "nat \<Rightarrow> nat \<Rightarrow> nat list \<Rightarrow> nat" where
  "ticks_within w len ts \<equiv> length (filter (\<lambda>t. w \<le> t \<and> t < w + len) ts)"

text \<open>Some window that opened at a tick, or at the start, saw the threshold, not counting the tick that
  closed it.\<close>

definition saw_burst :: "u32 \<Rightarrow> nat \<Rightarrow> nat \<Rightarrow> nat list \<Rightarrow> bool" where
  "saw_burst thr win t0 ts \<longleftrightarrow> (\<exists>w \<in> set (t0 # ts). unat thr \<le> ticks_within w win ts + 1)"

lemma saw_burst_more: "saw_burst thr win t0 ts \<Longrightarrow> saw_burst thr win t0 (ts @ [t])"
  unfolding saw_burst_def by (elim bexE, rule_tac x = w in bexI) auto

definition burst_inv :: "u32 \<Rightarrow> nat \<Rightarrow> nat \<Rightarrow> nat \<Rightarrow> nat list \<Rightarrow> 's AdaptiveBurstWaitStrategy \<Rightarrow> bool" where
  "burst_inv thr win decay t0 ts s \<longleftrightarrow>
     burst_threshold_ticks s = thr \<and> window_duration s = win \<and> burst_decay_duration s = decay \<and>
     window_start s \<in> set (t0 # ts) \<and> unat (ticks_in_window s) \<le> ticks_within (window_start s) win ts \<and>
     (\<forall>x. burst_until s = Some x \<longrightarrow> (\<exists>e \<in> set ts. x = e + decay) \<and> saw_burst thr win t0 ts)"

lemma unat_saturating_le: "unat (saturating_add c (1 :: u32)) \<le> unat c + 1"
  by (simp add: unat_saturating_Suc)

lemma record_tick_inv:
  assumes inv: "burst_inv thr win decay t0 ts s" and late: "\<forall>x \<in> set (t0 # ts). x \<le> t"
  shows "burst_inv thr win decay t0 (ts @ [t]) (record_tick reset t s)"
proof -
  let ?w = "window_start s"
  note i = inv [unfolded burst_inv_def]
  have w: "?w \<le> t" using i late by blast
  have ticks: "unat (saturating_add (ticks_in_window s) 1) \<le> ticks_within ?w win ts + 1"
    using i unat_saturating_le [of "ticks_in_window s"] by linarith
  have keep: "(\<exists>e \<in> set (ts @ [t]). x = e + decay) \<and> saw_burst thr win t0 (ts @ [t])" if "burst_until s = Some x" for x
    using i that saw_burst_more by auto
  show ?thesis
  proof (cases "t - ?w \<ge> win")
    case False
    then have "t < ?w + win" using w by linarith
    then show ?thesis using False i ticks w keep by (auto simp: burst_inv_def record_tick_def Let_def)
  next
    case True
    have promote: "saw_burst thr win t0 (ts @ [t])" if "thr \<le> saturating_add (ticks_in_window s) 1"
    proof -
      have "unat thr \<le> ticks_within ?w win ts + 1" using that ticks by (simp add: word_le_nat_alt)
      then have "saw_burst thr win t0 ts" unfolding saw_burst_def using i by blast
      then show ?thesis by (rule saw_burst_more)
    qed
    show ?thesis using True i keep promote by (auto simp: burst_inv_def record_tick_def Let_def)
  qed
qed

lemma record_ticks_inv:
  "sorted (t0 # ts) \<Longrightarrow>
   burst_inv thr win decay t0 ts (foldl (\<lambda>s t. record_tick reset t s) (burst_new t0 inner thr win decay) ts)"
proof (induction ts rule: rev_induct)
  case Nil
  then show ?case by (simp add: burst_inv_def burst_new_def)
next
  case (snoc t ts)
  then have "\<forall>x \<in> set (t0 # ts). x \<le> t" "sorted (t0 # ts)" by (auto simp: sorted_append)
  with record_tick_inv [OF snoc.IH] show ?case by simp
qed

section \<open>Properties\<close>

text \<open>The hybrid strategy backs off exactly as announced: counted from a reset, the idle calls spin
  \<open>spin_limit\<close> times, then yield \<open>yield_limit\<close> times, then sleep for 1, 2, 4, \dots microseconds up to the
  maximum and stay there, whatever idle calls came before the reset.\<close>

theorem hybrid_backoff_schedule:
  assumes "unat spin + unat yield < 2 ^ 32 - 1" "unat cap < 2 ^ 31" "0 < cap"
    and "s = hybrid_reset now (hybrid_idles j (hybrid_new spin yield cap))"
  shows "snd (hybrid_idle t (hybrid_idles k s)) = backoff_action (unat spin) (unat yield) (unat cap) k"
proof -
  have "1 \<le> cap" using assms(3) by (simp add: word_le_nat_alt unat_gt_0 Suc_leI)
  then have "max cap 1 = cap" by (rule max_absorb1)
  then have new: "backoff_state (unat spin) (unat yield) (unat cap) 0 (hybrid_new spin yield cap)"
    using assms(1-3) by (simp add: backoff_state_def hybrid_new_def unat_gt_0 Suc_leI)
  have "s = hybrid_new spin yield cap"
  proof -
    have "hybrid_reset now (hybrid_idles j (hybrid_new spin yield cap)) = hybrid_reset now (hybrid_new spin yield cap)"
      by (induction j) (simp_all add: hybrid_idles_def hybrid.reset_forgets)
    then show ?thesis by (simp add: assms(4) hybrid_reset_def hybrid_new_def)
  qed
  then have "backoff_state (unat spin) (unat yield) (unat cap) k (hybrid_idles k s)"
    using hybrid_idles_state [OF new] by simp
  from hybrid_idle_step [OF this] show ?thesis by (metis prod.collapse)
qed

theorem hybrid_backoff_schedule_witness:
  "snd (hybrid_idle 0 (hybrid_idles 1283 (hybrid_reset 7 (hybrid_idles 5 hybrid_default)))) = Sleep 8000"
proof -
  have "snd (hybrid_idle 0 (hybrid_idles 1283 (hybrid_reset 7 (hybrid_idles 5 (hybrid_new 256 1024 50))))) =
      backoff_action (unat (256 :: u32)) (unat (1024 :: u32)) (unat (50 :: u32)) 1283"
    by (rule hybrid_backoff_schedule [OF _ _ _ refl]) simp_all
  then show ?thesis by (simp add: hybrid_default_def)
qed

text \<open>The strategy chosen for a hardware tier keeps the tier's promise for every sequence of resets and
  idle calls at any times: on bare metal the thread only spins; in the cloud no single wait exceeds
  50 microseconds; on a workstation none exceeds one millisecond.\<close>

theorem tier_wait_bound:
  assumes "dyn_run calls (for_tier t0 tier) = (s, acts)"
  shows "(case tier of
      Tier3EnterpriseBareMetal \<Rightarrow> set acts \<subseteq> {SpinLoop}
    | Tier2CloudVirtualized \<Rightarrow> \<forall>act \<in> set acts. wait_ns act \<le> 50000
    | Tier1MidRange \<Rightarrow> \<forall>act \<in> set acts. wait_ns act \<le> 1000000)"
proof (cases tier)
  case Tier3EnterpriseBareMetal
  have "dyn_run calls (Busy b) = (s, acts) \<Longrightarrow> set acts \<subseteq> {SpinLoop}" for b acts
  proof (induction calls arbitrary: b acts)
    case (Cons c cs)
    obtain now r where c: "c = (now, r)" by (cases c)
    show ?case
    proof (cases r)
      case True
      then show ?thesis using Cons c by (simp add: busy_reset_def)
    next
      case False
      obtain s2 acts2 where "dyn_run cs (Busy b) = (s2, acts2)" by (cases "dyn_run cs (Busy b)")
      then show ?thesis using Cons.IH [of b acts2] Cons.prems False c by (auto simp: busy_idle_def)
    qed
  qed simp
  then show ?thesis using assms Tier3EnterpriseBareMetal by simp
next
  case Tier2CloudVirtualized
  then have "dyn_ok 50000 (for_tier t0 tier)"
    by (simp add: burst_new_def hybrid_default_def hybrid_new_def hybrid_ok_def max_def)
  from dyn_run_ok [OF this assms] show ?thesis using Tier2CloudVirtualized by simp
next
  case Tier1MidRange
  then have "dyn_ok 1000000 (for_tier t0 tier)"
    by (simp add: power_default_def power_new_def power_ok_def max_def)
  from dyn_run_ok [OF this assms] show ?thesis using Tier1MidRange by simp
qed

theorem tier_wait_bound_witness:
  "\<exists>s. dyn_run [(0, False), (1, True), (2, False)] (for_tier 0 Tier3EnterpriseBareMetal) = (s, [SpinLoop, SpinLoop]) \<and>
     set [SpinLoop, SpinLoop] \<subseteq> {SpinLoop}"
proof -
  let ?calls = "[(0, False), (1, True), (2, False)]"
  have run: "dyn_run ?calls (for_tier 0 Tier3EnterpriseBareMetal) = (Busy BusySpinStrategy, [SpinLoop, SpinLoop])"
    by (simp add: busy_idle_def busy_reset_def)
  show ?thesis using tier_wait_bound [OF run] run by auto
qed

text \<open>Burst mode is entered only for a burst: whenever it is active, some tick lies less than the decay time
  back, and a window of the configured length, opened at a tick or at the start, held at least the
  threshold number of ticks less the one that closed it.\<close>

theorem burst_mode_sound:
  assumes "sorted (t0 # ts)" "s = foldl (\<lambda>s t. record_tick reset t s) (burst_new t0 inner thr win decay) ts"
    and "is_in_burst_mode now s"
  shows "\<exists>e \<in> set ts. \<exists>w \<in> set (t0 # ts). now < e + decay \<and> unat thr \<le> ticks_within w win ts + 1"
proof -
  have inv: "burst_inv thr win decay t0 ts s" using record_ticks_inv [OF assms(1)] assms(2) by simp
  obtain x where "burst_until s = Some x" "now < x"
    using assms(3) by (auto simp: is_in_burst_mode_def split: option.splits)
  with inv show ?thesis by (auto simp: burst_inv_def saw_burst_def)
qed

end
