(* ===== verification/Scheduler.thy ===== *)
theory Scheduler
  imports Complex_Main Wait_Strategy "HOL-Library.Multiset"
begin

text \<open>
  The elastic scheduler of \<open>src/crates/core-engine/src/scheduler/\<close>: the execution plan computed from the
  host, and the cooperative event loop. A pipeline stage is a trait object there; here its operations
  \<open>is_active\<close>, \<open>step\<close> and \<open>shutdown\<close> are arguments. The readings of the stop flag, one per round of the
  loop, are a list; a list that ends while the loop still runs gives \<open>None\<close>.
\<close>

section \<open>Plans\<close>

datatype WorkerRole = Ingestion | ParserNormalizer | SequencerOrderBook | ShmEgress | NetworkEgress | Telemetry

fun role_as_str :: "WorkerRole \<Rightarrow> string" where
  "role_as_str Ingestion = ''Ingestion''"
| "role_as_str ParserNormalizer = ''ParserNormalizer''"
| "role_as_str SequencerOrderBook = ''SequencerOrderBook''"
| "role_as_str ShmEgress = ''ShmEgress''"
| "role_as_str NetworkEgress = ''NetworkEgress''"
| "role_as_str Telemetry = ''Telemetry''"

record WorkerGroup =
  group_name :: string
  group_roles :: "WorkerRole list"
  assigned_core :: "nat option"
  real_time_priority :: "32 word option"

datatype ExecutionTopologyPlan =
    DedicatedPinned "(WorkerRole \<times> nat) list"
  | GroupedAffinity "WorkerGroup list"
  | CooperativeMultiplexed nat

fun thread_count :: "ExecutionTopologyPlan \<Rightarrow> nat" where
  "thread_count (DedicatedPinned core_mapping) = length core_mapping"
| "thread_count (GroupedAffinity groups) = length groups"
| "thread_count (CooperativeMultiplexed worker_threads) = worker_threads"

text \<open>A quota is a finite \<open>f64\<close>, hence a rational; a cast of a negative float to \<open>usize\<close> gives zero.\<close>

definition effective_cores :: "nat \<Rightarrow> rat option \<Rightarrow> nat" where
  "effective_cores available_cores cgroup_quota_cores =
     (case cgroup_quota_cores of
        Some quota \<Rightarrow> let clamped = max (nat \<lfloor>quota\<rfloor>) 1 in min clamped available_cores
      | None \<Rightarrow> available_cores)"

definition compute_plan :: "nat \<Rightarrow> bool \<Rightarrow> bool \<Rightarrow> rat option \<Rightarrow> ExecutionTopologyPlan" where
  "compute_plan available_cores is_bare_metal has_affinity_cap cgroup_quota_cores =
     (let cores = effective_cores available_cores cgroup_quota_cores
      in if is_bare_metal \<and> cores \<ge> 8 \<and> has_affinity_cap
         then DedicatedPinned [(Ingestion, 1), (ParserNormalizer, 2), (SequencerOrderBook, 3), (ShmEgress, 4),
                (NetworkEgress, 5), (Telemetry, 6)]
         else if cores \<ge> 4 \<and> has_affinity_cap
         then GroupedAffinity
                [\<lparr>group_name = ''ingress_worker'', group_roles = [Ingestion, ParserNormalizer],
                  assigned_core = Some 0, real_time_priority = None\<rparr>,
                 \<lparr>group_name = ''engine_worker'', group_roles = [SequencerOrderBook],
                  assigned_core = Some 1, real_time_priority = None\<rparr>,
                 \<lparr>group_name = ''distribution_worker'', group_roles = [ShmEgress, NetworkEgress, Telemetry],
                  assigned_core = Some 2, real_time_priority = None\<rparr>]
         else CooperativeMultiplexed (max 1 (min cores 2)))"

text \<open>The mask handed to \<open>sched_setaffinity\<close>; the result of the system call is ignored.\<close>

definition set_current_thread_affinity :: "nat \<Rightarrow> string + bytes" where
  "set_current_thread_affinity core_id =
     (let m = replicate 128 0; byte_idx = core_id div 8; bit_idx = core_id mod 8
      in if byte_idx < 128 then Inr (m[byte_idx := m ! byte_idx OR push_bit bit_idx 1])
         else Inl ''Core ID exceeds 1024-cpu mask capacity'')"

section \<open>The cooperative loop\<close>

datatype StepResult = Continue | Yield | Exhausted

record 'st ElasticScheduler =
  sched_plan :: ExecutionTopologyPlan
  sched_stages :: "'st list"

definition scheduler_new :: "ExecutionTopologyPlan \<Rightarrow> 'st ElasticScheduler" where
  "scheduler_new plan = \<lparr>sched_plan = plan, sched_stages = []\<rparr>"

definition add_stage :: "'st ElasticScheduler \<Rightarrow> 'st \<Rightarrow> 'st ElasticScheduler" where
  "add_stage s stage = s\<lparr>sched_stages := sched_stages s @ [stage]\<rparr>"

fun step_stages ::
  "('st \<Rightarrow> bool) \<Rightarrow> ('st \<Rightarrow> 'st \<times> StepResult) \<Rightarrow> 'st list \<Rightarrow> bool \<Rightarrow> bool \<Rightarrow> 'st list \<times> bool \<times> bool" where
  "step_stages is_active step [] work_done all_exhausted = ([], work_done, all_exhausted)"
| "step_stages is_active step (st # stages) work_done all_exhausted =
     (if is_active st
      then case step st of (st', r) \<Rightarrow>
             (case step_stages is_active step stages (case r of Continue \<Rightarrow> True | Yield \<Rightarrow> work_done | Exhausted \<Rightarrow> work_done) False of
                (stages', w, a) \<Rightarrow> (st' # stages', w, a))
      else case step_stages is_active step stages work_done all_exhausted of
             (stages', w, a) \<Rightarrow> (st # stages', w, a))"

definition step_cooperative :: "('st \<Rightarrow> bool) \<Rightarrow> ('st \<Rightarrow> 'st \<times> StepResult) \<Rightarrow> 'st list \<Rightarrow> 'st list \<times> StepResult" where
  "step_cooperative is_active step stages =
     (case step_stages is_active step stages False True of
        (stages, work_done, all_exhausted) \<Rightarrow>
          (stages, if all_exhausted then Exhausted else if work_done then Continue else Yield))"

definition idle_actions :: "32 word \<Rightarrow> wait_action list" where
  "idle_actions c = (if sint c > 64 then [YieldNow] else []) @ (if sint c > 256 then [Sleep (from_micros 200)] else [])"

fun cooperative_rounds ::
  "('st \<Rightarrow> bool) \<Rightarrow> ('st \<Rightarrow> 'st \<times> StepResult) \<Rightarrow> bool list \<Rightarrow> 32 word \<Rightarrow> 'st list \<Rightarrow> wait_action list \<Rightarrow>
   ('st list \<times> wait_action list) option" where
  "cooperative_rounds is_active step [] idle_counter stages acts = None"
| "cooperative_rounds is_active step (stop # stops) idle_counter stages acts =
     (if stop then Some (stages, acts)
      else case step_cooperative is_active step stages of
             (stages, Continue) \<Rightarrow> cooperative_rounds is_active step stops 0 stages acts
           | (stages, Yield) \<Rightarrow>
               let idle_counter = idle_counter + 1
               in cooperative_rounds is_active step stops idle_counter stages (acts @ idle_actions idle_counter)
           | (stages, Exhausted) \<Rightarrow> Some (stages, acts))"

definition run_cooperative_loop ::
  "('st \<Rightarrow> bool) \<Rightarrow> ('st \<Rightarrow> 'st \<times> StepResult) \<Rightarrow> ('st \<Rightarrow> 'st) \<Rightarrow> bool list \<Rightarrow> 'st list \<Rightarrow>
   ('st list \<times> wait_action list) option" where
  "run_cooperative_loop is_active step shutdown stops stages =
     map_option (apfst (map shutdown)) (cooperative_rounds is_active step stops 0 stages [])"

section \<open>Lemmas\<close>

lemma step_stages_eq:
  "step_stages is_active step stages w a =
     (map (\<lambda>s. if is_active s then fst (step s) else s) stages,
      w \<or> (\<exists>s \<in> set stages. is_active s \<and> snd (step s) = Continue),
      a \<and> (\<forall>s \<in> set stages. \<not> is_active s))"
proof (induction stages arbitrary: w a)
  case (Cons st stages)
  obtain st' r where r: "step st = (st', r)" by (cases "step st")
  show ?case using Cons r by (cases r) auto
qed simp

text \<open>A round steps every active stage exactly once and leaves the others alone; it reports exhaustion
  exactly when no stage was active, and progress exactly when some stage made some.\<close>

lemma step_cooperative_eq:
  "step_cooperative is_active step stages =
     (map (\<lambda>s. if is_active s then fst (step s) else s) stages,
      if \<forall>s \<in> set stages. \<not> is_active s then Exhausted
      else if \<exists>s \<in> set stages. is_active s \<and> snd (step s) = Continue then Continue else Yield)"
  by (simp add: step_cooperative_def step_stages_eq)

text \<open>A round with an active stage uses up work.\<close>

lemma work_decreases:
  assumes "\<And>s. is_active s \<Longrightarrow> work (fst (step s)) < (work s :: nat)" and "\<exists>s \<in> set stages. is_active s"
  shows "sum_list (map work (map (\<lambda>s. if is_active s then fst (step s) else s) stages)) < sum_list (map work stages)"
  using assms(2)
proof (induction stages)
  case (Cons st stages)
  have le: "sum_list (map work (map (\<lambda>s. if is_active s then fst (step s) else s) stages)) \<le> sum_list (map work stages)"
    unfolding map_map by (rule sum_list_mono) (use assms(1) in \<open>auto simp: less_imp_le\<close>)
  show ?case
  proof (cases "is_active st")
    case True
    then show ?thesis using assms(1) [of st] le by simp
  next
    case False
    then show ?thesis using Cons by simp
  qed
qed simp

lemma cooperative_rounds_return:
  assumes "\<And>s. is_active s \<Longrightarrow> work (fst (step s)) < (work s :: nat)"
    and "sum_list (map work stages) < length stops"
  shows "\<exists>stages' acts'. cooperative_rounds is_active step stops c stages acts = Some (stages', acts') \<and>
    length stages' = length stages \<and> (True \<in> set stops \<or> (\<forall>s \<in> set stages'. \<not> is_active s))"
  using assms(2)
proof (induction stops arbitrary: stages c acts)
  case (Cons stop stops)
  let ?next = "map (\<lambda>s. if is_active s then fst (step s) else s) stages"
  show ?case
  proof (cases "stop \<or> (\<forall>s \<in> set stages. \<not> is_active s)")
    case True
    have "?next = stages" if "\<forall>s \<in> set stages. \<not> is_active s" using that by (simp add: map_idI)
    then show ?thesis using True by (auto simp: step_cooperative_eq)
  next
    case False
    have "sum_list (map work ?next) < sum_list (map work stages)"
      by (rule work_decreases) (use assms(1) False in auto)
    then have less: "sum_list (map work ?next) < length stops" using Cons.prems by simp
    show ?thesis
      using Cons.IH [OF less, of 0 acts] Cons.IH [OF less, of "c + 1" "acts @ idle_actions (c + 1)"] False
      by (auto simp: step_cooperative_eq Let_def)
  qed
qed simp

section \<open>Properties\<close>



text \<open>C40: The plan always covers the whole pipeline within the host: every role is assigned exactly once, to
  a core below the effective number of cores where cores are assigned at all, no two dedicated threads
  share a core, and the number of threads is at least one and at most the effective number of cores
  (at least one). The cgroup quota never raises the number of cores.\<close>

theorem compute_plan_fits:
  "(case compute_plan available bare aff quota of
      DedicatedPinned m \<Rightarrow> mset (map fst m) = mset [Ingestion, ParserNormalizer, SequencerOrderBook, ShmEgress, NetworkEgress, Telemetry] \<and>
        distinct (map snd m) \<and> list_all (\<lambda>c. c < effective_cores available quota) (map snd m)
    | GroupedAffinity gs \<Rightarrow> mset (concat (map group_roles gs)) = mset [Ingestion, ParserNormalizer, SequencerOrderBook, ShmEgress, NetworkEgress, Telemetry] \<and>
        list_all (\<lambda>g. case assigned_core g of None \<Rightarrow> True | Some c \<Rightarrow> c < effective_cores available quota) gs
    | CooperativeMultiplexed k \<Rightarrow> k \<in> {1, 2}) \<and>
   1 \<le> thread_count (compute_plan available bare aff quota) \<and>
   thread_count (compute_plan available bare aff quota) \<le> max 1 (effective_cores available quota) \<and>
   effective_cores available quota \<le> available"
proof -
  have le: "effective_cores available quota \<le> available" by (simp add: effective_cores_def Let_def split: option.splits)
  consider (pinned) "bare" "aff" "8 \<le> effective_cores available quota"
    | (grouped) "\<not> (bare \<and> 8 \<le> effective_cores available quota \<and> aff)" "aff" "4 \<le> effective_cores available quota"
    | (cooperative) "\<not> (bare \<and> 8 \<le> effective_cores available quota \<and> aff)" "\<not> (4 \<le> effective_cores available quota \<and> aff)"
    by blast
  then show ?thesis
  proof cases
    case cooperative
    then have "compute_plan available bare aff quota = CooperativeMultiplexed (max 1 (min (effective_cores available quota) 2))"
      by (simp only: compute_plan_def Let_def if_False)
    then show ?thesis using le by auto
  qed (simp_all add: compute_plan_def Let_def le)
qed

end
