(* ===== verification/Host_Report.thy ===== *)
theory Host_Report
  imports Hardware_Probe Scheduler "HOL-Library.List_Lexorder"
begin

text \<open>
  The macOS side of the hardware probe, the request for real-time priority and the one-line reports of a runtime profile and of an execution plan
  (\<open>src/crates/core-engine/src/topology/mod.rs\<close>, \<open>scheduler\<close>). The answers of \<open>sysctl\<close> are the
  record \<open>darwin_host\<close>; they are ASCII texts.
\<close>

section \<open>The probe on macOS\<close>

record darwin_host =
  dw_path_exists :: "string \<Rightarrow> bool"
  sysctl :: "string \<Rightarrow> bytes option"

text \<open>The output of \<open>sysctl -n key\<close>, trimmed and parsed.\<close>

definition sysctl_number :: "darwin_host \<Rightarrow> string \<Rightarrow> nat option" where
  "sysctl_number h key = Option.bind (sysctl h key) (\<lambda>output. parse_unsigned (str_trim output))"

definition darwin_hypervisor :: "darwin_host \<Rightarrow> HypervisorKind" where
  "darwin_hypervisor h =
     (if dw_path_exists h ''/.dockerenv'' \<or> dw_path_exists h ''/run/.containerenv'' then DockerContainer
      else case sysctl h ''kern.hv_vmm_present'' of
             Some output \<Rightarrow> if str_trim output = bstr ''1'' then HvUnknown ''AppleHypervisorGuest'' else HvNone
           | None \<Rightarrow> HvNone)"

definition darwin_cpu_topology :: "darwin_host \<Rightarrow> CpuTopology" where
  "darwin_cpu_topology h =
     (let logical_cores = (case sysctl_number h ''hw.logicalcpu'' of Some val \<Rightarrow> val | None \<Rightarrow> 4);
          physical_cores = (case sysctl_number h ''hw.physicalcpu'' of Some val \<Rightarrow> val | None \<Rightarrow> logical_cores);
          p_count = (case sysctl_number h ''hw.perflevel0.physicalcpu'' of Some val \<Rightarrow> val | None \<Rightarrow> 0);
          e_count = (case sysctl_number h ''hw.perflevel1.physicalcpu'' of Some val \<Rightarrow> val | None \<Rightarrow> 0);
          hybrid = (p_count > 0 \<and> e_count > 0);
          perf_cores = (if hybrid then map (\<lambda>i. e_count + i) [0..<p_count] else []);
          eff_cores = (if hybrid then [0..<e_count] else []);
          perf_cores = (if perf_cores = [] then [0..<logical_cores] else perf_cores)
      in \<lparr>total_logical_cores = logical_cores, total_physical_cores = max physical_cores 1,
          numa_nodes = max 1 1, is_hybrid = hybrid, performance_cores = perf_cores,
          efficiency_cores = eff_cores, l1d_cache_bytes = 32 * 1024, l2_cache_bytes = 512 * 1024,
          l3_cache_bytes = 16 * 1024 * 1024, has_invariant_tsc = False\<rparr>)"

definition darwin_probe :: "darwin_host \<Rightarrow> MockHardwareProbe" where
  "darwin_probe h = \<lparr>mock_hypervisor = darwin_hypervisor h, mock_cpu = darwin_cpu_topology h, mock_caps = caps_default\<rparr>"

text \<open>The cores of a hybrid machine are numbered once each, the efficiency cores first; on any other all
  logical cores count as performance cores.\<close>

theorem darwin_cores_partition:
  "let cpu = darwin_cpu_topology h in
     distinct (efficiency_cores cpu @ performance_cores cpu) \<and>
     (if is_hybrid cpu then efficiency_cores cpu @ performance_cores cpu = [0..<length (efficiency_cores cpu) + length (performance_cores cpu)] \<and>
        efficiency_cores cpu \<noteq> [] \<and> performance_cores cpu \<noteq> []
      else efficiency_cores cpu = [] \<and> performance_cores cpu = [0..<total_logical_cores cpu])"
proof -
  have shift: "map ((+) e) [0..<p] = [e..<e + p]" for e p by (induction p) simp_all
  have "[0..<e] @ [e..<e + p] = [0..<e + p]" for e p using upt_add_eq_append [of 0 e p] by simp
  then show ?thesis by (auto simp: darwin_cpu_topology_def Let_def shift split: if_splits)
qed

section \<open>Real-time priority\<close>

text \<open>The scheduling class and priority requested of the system, whose answer is ignored, and the result.\<close>

definition set_realtime_priority :: "32 word \<Rightarrow> (nat \<times> 32 word) \<times> (string + unit)" where
  "set_realtime_priority priority = ((1, priority), Inr ())"

section \<open>Reports\<close>

definition bool_text :: "bool \<Rightarrow> bytes" where
  "bool_text b = (if b then bstr ''true'' else bstr ''false'')"

definition profile_summary :: "RuntimeProfile \<Rightarrow> bytes" where
  "profile_summary p =
     bstr ''Tier: '' @ bstr (tier_as_str (profile_tier p)) @
     bstr '' | Hypervisor: '' @ bstr (hypervisor_as_str (profile_hypervisor p)) @
     bstr '' | Cores: '' @ dec (total_physical_cores (profile_cpu p)) @ bstr ''P/'' @ dec (total_logical_cores (profile_cpu p)) @ bstr ''L'' @
     bstr '' | NUMA: '' @ dec (numa_nodes (profile_cpu p)) @
     bstr '' | InvariantTSC: '' @ bool_text (has_invariant_tsc (profile_cpu p)) @
     bstr '' | HugeTLB: '' @ bool_text (has_hugetlb (profile_caps p)) @
     bstr '' | FIFO: '' @ bool_text (has_sched_fifo (profile_caps p))"

text \<open>\<open>join\<close> and the \<open>Debug\<close> text of an optional number.\<close>

fun join_with :: "bytes \<Rightarrow> bytes list \<Rightarrow> bytes" where
  "join_with sep [] = []"
| "join_with sep [x] = x"
| "join_with sep (x # xs) = x @ sep @ join_with sep xs"

definition debug_option :: "nat option \<Rightarrow> bytes" where
  "debug_option x = (case x of None \<Rightarrow> bstr ''None'' | Some n \<Rightarrow> bstr ''Some('' @ dec n @ bstr '')'')"

text \<open>The mapping is enumerated in the order of the hash map, then sorted as texts.\<close>

fun plan_summary :: "ExecutionTopologyPlan \<Rightarrow> bytes" where
  "plan_summary (DedicatedPinned core_mapping) =
     (let mappings = sort (map (\<lambda>(role, core). bstr (role_as_str role) @ bstr '':Core'' @ dec core) core_mapping)
      in bstr ''DedicatedPinned ['' @ join_with (bstr '', '') mappings @ bstr '']'')"
| "plan_summary (GroupedAffinity groups) =
     bstr ''GroupedAffinity ['' @ dec (length groups) @ bstr '' groups: '' @
     join_with (bstr ''; '') (map (\<lambda>g. bstr (group_name g) @ bstr ''(core='' @ debug_option (assigned_core g) @ bstr ''): ['' @
        join_with (bstr ''+'') (map (\<lambda>r. bstr (role_as_str r)) (group_roles g)) @ bstr '']'') groups) @ bstr '']''"
| "plan_summary (CooperativeMultiplexed worker_threads) =
     bstr ''CooperativeMultiplexed [threads: '' @ dec worker_threads @ bstr '']''"

text \<open>The report of a pinned plan does not depend on the order in which the hash map is enumerated.\<close>

theorem plan_summary_order:
  assumes "mset m = mset m'"
  shows "plan_summary (DedicatedPinned m) = plan_summary (DedicatedPinned m')"
proof -
  let ?f = "\<lambda>(role, core). bstr (role_as_str role) @ bstr '':Core'' @ dec core"
  have "mset (map ?f m) = mset (map ?f m')" using assms by (metis mset_map)
  then have "sort (map ?f m) = sort (map ?f m')" by (intro properties_for_sort) simp_all
  then show ?thesis by simp
qed

end
