(* ===== verification/Health.thy ===== *)
theory Health
  imports Byte_Scan
begin

text \<open>
  The health probes of \<open>src/crates/core-engine/src/health.rs\<close>: the status counters, the dispatch of a
  request to its response, and the accept loop. Sockets are outside the model: a connection is what the
  single read returned, a response is the bytes written. The request is examined as bytes; the lossy
  decoding in the source maps ASCII to itself and every other byte to a character outside ASCII, so the
  ASCII prefixes it is compared with match the same requests.
\<close>

section \<open>Status\<close>

record HealthStatus =
  is_ready :: bool
  ticks_processed :: u64
  start_time :: nat  \<comment> \<open>nanoseconds\<close>
  tier_code :: u64

definition health_new :: "nat \<Rightarrow> HealthStatus" where
  "health_new now = \<lparr>is_ready = False, ticks_processed = 0, start_time = now, tier_code = 1\<rparr>"

definition mark_ready :: "HealthStatus \<Rightarrow> HealthStatus" where
  "mark_ready st = st\<lparr>is_ready := True\<rparr>"

definition set_tier :: "HealthStatus \<Rightarrow> u64 \<Rightarrow> HealthStatus" where
  "set_tier st tier = st\<lparr>tier_code := tier\<rparr>"

definition inc_ticks :: "HealthStatus \<Rightarrow> u64 \<Rightarrow> HealthStatus" where
  "inc_ticks st count = st\<lparr>ticks_processed := ticks_processed st + count\<rparr>"

section \<open>Requests\<close>

abbreviation crlf :: bytes where
  "crlf \<equiv> [13, 10]"

definition http_response :: "bytes \<Rightarrow> bytes \<Rightarrow> bytes \<Rightarrow> bytes" where
  "http_response status content_type body =
     bstr ''HTTP/1.1 '' @ status @ crlf @ bstr ''Content-Type: '' @ content_type @ crlf @
     bstr ''Content-Length: '' @ dec (length body) @ crlf @ bstr ''Connection: close'' @ crlf @ crlf @ body"

definition metrics_body :: "nat \<Rightarrow> u64 \<Rightarrow> u64 \<Rightarrow> bytes" where
  "metrics_body uptime ticks tier =
     bstr ''# HELP cmp_engine_uptime_seconds Engine uptime in seconds'' @ [10] @
     bstr ''# TYPE cmp_engine_uptime_seconds gauge'' @ [10] @
     bstr ''cmp_engine_uptime_seconds '' @ dec uptime @ [10] @
     bstr ''# HELP cmp_engine_ticks_processed_total Total market data ticks processed'' @ [10] @
     bstr ''# TYPE cmp_engine_ticks_processed_total counter'' @ [10] @
     bstr ''cmp_engine_ticks_processed_total '' @ dec (unat ticks) @ [10] @
     bstr ''# HELP cmp_engine_active_tier Negotiated operational hardware tier (1, 2, or 3)'' @ [10] @
     bstr ''# TYPE cmp_engine_active_tier gauge'' @ [10] @
     bstr ''cmp_engine_active_tier '' @ dec (unat tier) @ [10]"

definition handle_request :: "bytes \<Rightarrow> nat \<Rightarrow> HealthStatus \<Rightarrow> bytes" where
  "handle_request req now st =
     (let first_line = takeWhile (\<lambda>b. b \<noteq> 10) req
      in if starts_with first_line (bstr ''GET /healthz'')
         then http_response (bstr ''200 OK'') (bstr ''text/plain'') (bstr ''OK'' @ [10])
         else if starts_with first_line (bstr ''GET /readyz'')
         then if is_ready st
              then http_response (bstr ''200 OK'') (bstr ''text/plain'') (bstr ''READY'' @ [10])
              else http_response (bstr ''503 Service Unavailable'') (bstr ''text/plain'') (bstr ''INITIALIZING'' @ [10])
         else if starts_with first_line (bstr ''GET /metrics'')
         then http_response (bstr ''200 OK'') (bstr ''text/plain; version=0.0.4'')
                (metrics_body ((now - start_time st) div 1000000000) (ticks_processed st) (tier_code st))
         else http_response (bstr ''404 Not Found'') (bstr ''text/plain'') (bstr ''Not Found'' @ [10]))"

text \<open>One turn of the accept loop: a connection with the result of its read, nothing pending, or another
  error; the thread answers or sleeps.\<close>

datatype accept_event = Connection "bytes option" | WouldBlock | AcceptError

datatype server_action = Respond bytes | Ignore | SleepMillis nat

fun accept_turn :: "nat \<Rightarrow> HealthStatus \<Rightarrow> accept_event \<Rightarrow> server_action" where
  "accept_turn now st (Connection (Some req)) =
     (if length req > 0 then Respond (handle_request (take 1024 req) now st) else Ignore)"
| "accept_turn now st (Connection None) = Ignore"
| "accept_turn now st WouldBlock = SleepMillis 10"
| "accept_turn now st AcceptError = SleepMillis 20"

section \<open>Reading a response\<close>

text \<open>What a client does: the head up to the blank line, the announced length, the status code.\<close>

fun split_head :: "bytes \<Rightarrow> bytes \<Rightarrow> (bytes \<times> bytes) option" where
  "split_head acc [] = None"
| "split_head acc (b # rest) =
     (if b = 13 \<and> take 3 rest = [10, 13, 10] then Some (acc, drop 3 rest) else split_head (acc @ [b]) rest)"

definition content_length :: "bytes \<Rightarrow> bytes option" where
  "content_length head = map_option (takeWhile is_ascii_digit) (str_after (bstr ''Content-Length: '') head)"

definition status_code :: "bytes \<Rightarrow> bytes" where
  "status_code head = subslice head 9 3"

lemma split_head_skip: "13 \<notin> set xs \<Longrightarrow> split_head acc (xs @ rest) = split_head (acc @ xs) rest"
  by (induction xs arbitrary: acc) simp_all

lemma split_head_line:
  assumes "b \<noteq> 13" "13 \<notin> set xs"
  shows "split_head acc (crlf @ (b # xs) @ rest) = split_head (acc @ crlf @ b # xs) rest"
  using assms split_head_skip [of xs "acc @ crlf @ [b]" rest] by (simp add: take_Cons')

lemma split_head_blank: "split_head acc (crlf @ crlf @ rest) = Some (acc, rest)"
  by (simp add: take_Cons' drop_Cons')

lemma dec_no_cr: "13 \<notin> set (dec n)"
  using dec_bytes [of n] by (auto simp: list_all_iff dest!: bspec [of _ _ 13])

lemma bstr_Cons: "bstr (c # cs) = of_char c # bstr cs" "bstr [] = []"
  by (simp_all add: bstr_def)

definition response_head :: "bytes \<Rightarrow> bytes \<Rightarrow> nat \<Rightarrow> bytes" where
  "response_head status content_type len =
     bstr ''HTTP/1.1 '' @ status @ crlf @ bstr ''Content-Type: '' @ content_type @ crlf @
     bstr ''Content-Length: '' @ dec len @ crlf @ bstr ''Connection: close''"

lemma split_http_response:
  assumes "13 \<notin> set status" "13 \<notin> set ctype"
  shows "split_head [] (http_response status ctype body) = Some (response_head status ctype (length body), body)"
proof -
  have l1: "bstr ''Content-Type: '' @ ctype = 67 # bstr ''ontent-Type: '' @ ctype"
    and l2: "bstr ''Content-Length: '' @ dec n = 67 # bstr ''ontent-Length: '' @ dec n"
    and l3: "bstr ''Connection: close'' = 67 # bstr ''onnection: close''" for n
    by (simp_all add: bstr_Cons)
  have resp: "http_response status ctype body =
    (bstr ''HTTP/1.1 '' @ status) @ crlf @ (67 # bstr ''ontent-Type: '' @ ctype) @ crlf @
    (67 # bstr ''ontent-Length: '' @ dec (length body)) @ crlf @ (67 # bstr ''onnection: close'') @ crlf @ crlf @ body"
    unfolding http_response_def l1 [symmetric] l2 [symmetric] l3 [symmetric] by simp
  have no: "13 \<notin> set (bstr ''HTTP/1.1 '' @ status)" "13 \<notin> set (bstr ''ontent-Type: '' @ ctype)"
    "13 \<notin> set (bstr ''ontent-Length: '' @ dec (length body))" "13 \<notin> set (bstr ''onnection: close'')" "(67 :: u8) \<noteq> 13"
    using assms dec_no_cr by (simp_all add: bstr_Cons)
  show ?thesis
    unfolding resp split_head_skip [OF no(1)] split_head_line [OF no(5,2)] split_head_line [OF no(5,3)]
      split_head_line [OF no(5,4)] split_head_blank
    by (simp add: response_head_def bstr_Cons)
qed

lemma starts_with_iff: "starts_with s pre \<longleftrightarrow> (\<exists>rest. s = pre @ rest)"
  by (metis append_take_drop_id append_eq_conv_conj starts_with_def)

lemma starts_with_first_line:
  assumes "10 \<notin> set pre"
  shows "starts_with (takeWhile (\<lambda>b. b \<noteq> 10) req) pre = starts_with req pre"
proof
  assume "starts_with (takeWhile (\<lambda>b. b \<noteq> 10) req) pre"
  then obtain rest where "takeWhile (\<lambda>b. b \<noteq> 10) req = pre @ rest" by (auto simp: starts_with_iff)
  then have "req = pre @ rest @ dropWhile (\<lambda>b. b \<noteq> 10) req" by (metis append.assoc takeWhile_dropWhile_id)
  then show "starts_with req pre" by (auto simp: starts_with_iff)
next
  assume "starts_with req pre"
  then obtain rest where "req = pre @ rest" by (auto simp: starts_with_iff)
  moreover have "takeWhile (\<lambda>b. b \<noteq> 10) (pre @ rest) = pre @ takeWhile (\<lambda>b. b \<noteq> 10) rest"
    using assms by (intro takeWhile_append2) auto
  ultimately show "starts_with (takeWhile (\<lambda>b. b \<noteq> 10) req) pre" by (auto simp: starts_with_iff)
qed

lemma no_newline:
  "10 \<notin> set (bstr ''GET /healthz'')" "10 \<notin> set (bstr ''GET /readyz'')" "10 \<notin> set (bstr ''GET /metrics'')"
  by (simp_all add: bstr_Cons)

text \<open>Reading the heads that occur.\<close>

lemma content_length_head:
  assumes "str_after (bstr ''Content-Length: '') (response_head status ctype n) = Some (dec n @ crlf @ rest)"
  shows "content_length (response_head status ctype n) = Some (dec n)"
  using assms takeWhile_dec [of 13 n "10 # rest"] by (simp add: content_length_def is_ascii_digit_def)

lemma response_heads:
  "content_length (response_head (bstr ''200 OK'') (bstr ''text/plain'') n) = Some (dec n)"
  "content_length (response_head (bstr ''200 OK'') (bstr ''text/plain; version=0.0.4'') n) = Some (dec n)"
  "content_length (response_head (bstr ''503 Service Unavailable'') (bstr ''text/plain'') n) = Some (dec n)"
  "content_length (response_head (bstr ''404 Not Found'') (bstr ''text/plain'') n) = Some (dec n)"
  "status_code (response_head (bstr ''200 OK'') ctype n) = bstr ''200''"
  "status_code (response_head (bstr ''503 Service Unavailable'') ctype n) = bstr ''503''"
  "status_code (response_head (bstr ''404 Not Found'') ctype n) = bstr ''404''"
  by ((rule content_length_head [where rest = "bstr ''Connection: close''"],
        simp add: response_head_def str_after_def bstr_Cons)+,
      simp_all add: response_head_def status_code_def subslice_def bstr_Cons take_Cons' drop_Cons')

section \<open>Properties\<close>

text \<open>Every response of the health server is well framed: a client that reads up to the blank line
  finds the status and a \<open>Content-Length\<close> header equal to the length of the body that follows. Liveness
  probes get 200 always, readiness probes 200 exactly when the engine is ready and 503 before, metrics
  200 with the current counters, and anything else 404.\<close>

theorem health_responses:
  "\<exists>head body. split_head [] (handle_request req now st) = Some (head, body) \<and>
     content_length head = Some (dec (length body)) \<and>
     (status_code head, body) =
       (if starts_with req (bstr ''GET /healthz'') then (bstr ''200'', bstr ''OK'' @ [10])
        else if starts_with req (bstr ''GET /readyz'')
        then if is_ready st then (bstr ''200'', bstr ''READY'' @ [10]) else (bstr ''503'', bstr ''INITIALIZING'' @ [10])
        else if starts_with req (bstr ''GET /metrics'')
        then (bstr ''200'', metrics_body ((now - start_time st) div 1000000000) (ticks_processed st) (tier_code st))
        else (bstr ''404'', bstr ''Not Found'' @ [10]))"
proof -
  note first = starts_with_first_line [where req = req]
  have no: "13 \<notin> set (bstr ''200 OK'')" "13 \<notin> set (bstr ''503 Service Unavailable'')" "13 \<notin> set (bstr ''404 Not Found'')"
    "13 \<notin> set (bstr ''text/plain'')" "13 \<notin> set (bstr ''text/plain; version=0.0.4'')"
    by (simp_all add: bstr_Cons)
  show ?thesis
    unfolding handle_request_def Let_def first [OF no_newline(1)] first [OF no_newline(2)] first [OF no_newline(3)]
    by (simp add: split_http_response no response_heads)
qed

end
