(* ===== verification/Health_Server.thy ===== *)
theory Health_Server
  imports Health
begin

text \<open>
  The probe server of \<open>src/crates/core-engine/src/health.rs\<close> as two threads: the worker that \<open>HealthServer::bind\<close>
  spawns, cut at its test of the stop flag and at its accept, and the engine, which updates the shared status and,
  when the server is dropped, sets the flag and joins the worker. A run is a list of events in the order in
  which they take effect; every interleaving is such a list.
\<close>

section \<open>The server\<close>

datatype worker_pc = AtCheck | AtAccept | Exited

record HealthServer =
  hs_status :: HealthStatus
  stop_signal :: bool
  worker :: worker_pc
  served :: "(bytes \<times> bytes) list"  \<comment> \<open>requests and responses, the latest last\<close>

text \<open>The three calls of \<open>bind\<close> that can fail; the worker starts at its first test.\<close>

definition health_bind :: "string option \<Rightarrow> string option \<Rightarrow> string option \<Rightarrow> HealthStatus \<Rightarrow> string + HealthServer" where
  "health_bind bind_error nonblocking_error clone_error st =
     (case bind_error of Some e \<Rightarrow> Inl e | None \<Rightarrow>
      (case nonblocking_error of Some e \<Rightarrow> Inl e | None \<Rightarrow>
       (case clone_error of Some e \<Rightarrow> Inl e | None \<Rightarrow>
          Inr \<lparr>hs_status = st, stop_signal = False, worker = AtCheck, served = []\<rparr>)))"

datatype server_event =
    MarkReady | SetTier u64 | IncTicks u64  \<comment> \<open>of the engine\<close>
  | StoreStop  \<comment> \<open>the first half of \<open>drop\<close>\<close>
  | WorkerTurn accept_event nat  \<comment> \<open>of the worker: what accept would return, and the time\<close>

fun worker_turn :: "accept_event \<Rightarrow> nat \<Rightarrow> HealthServer \<Rightarrow> HealthServer" where
  "worker_turn ev now s =
     (case worker s of
        AtCheck \<Rightarrow> s\<lparr>worker := if stop_signal s then Exited else AtAccept\<rparr>
      | AtAccept \<Rightarrow>
          (case accept_turn now (hs_status s) ev of
             Respond resp \<Rightarrow> s\<lparr>worker := AtCheck,
               served := served s @ [(case ev of Connection (Some req) \<Rightarrow> take 1024 req | _ \<Rightarrow> [], resp)]\<rparr>
           | _ \<Rightarrow> s\<lparr>worker := AtCheck\<rparr>)
      | Exited \<Rightarrow> s)"

fun server_do :: "server_event \<Rightarrow> HealthServer \<Rightarrow> HealthServer" where
  "server_do MarkReady s = s\<lparr>hs_status := mark_ready (hs_status s)\<rparr>"
| "server_do (SetTier t) s = s\<lparr>hs_status := set_tier (hs_status s) t\<rparr>"
| "server_do (IncTicks n) s = s\<lparr>hs_status := inc_ticks (hs_status s) n\<rparr>"
| "server_do StoreStop s = s\<lparr>stop_signal := True\<rparr>"
| "server_do (WorkerTurn ev now) s = worker_turn ev now s"

text \<open>\<open>join\<close> returns once the worker has left its loop.\<close>

definition join_returns :: "HealthServer \<Rightarrow> bool" where
  "join_returns s \<longleftrightarrow> worker s = Exited"

section \<open>Lemmas\<close>

lemma ready_stays: "is_ready (hs_status s) \<Longrightarrow> is_ready (hs_status (fold server_do evs s))"
proof (induction evs arbitrary: s)
  case (Cons ev evs)
  have "is_ready (hs_status (server_do ev s))"
    using Cons.prems by (cases ev) (auto simp: mark_ready_def set_tier_def inc_ticks_def split: worker_pc.splits server_action.splits)
  then show ?case using Cons.IH by simp
qed simp

definition readyz :: "bytes \<Rightarrow> bool" where
  "readyz req \<longleftrightarrow> starts_with (takeWhile (\<lambda>b. b \<noteq> 10) req) (bstr ''GET /readyz'')"

definition ready_page :: bytes where
  "ready_page = http_response (bstr ''200 OK'') (bstr ''text/plain'') (bstr ''READY'' @ [10])"

definition initializing_page :: bytes where
  "initializing_page = http_response (bstr ''503 Service Unavailable'') (bstr ''text/plain'') (bstr ''INITIALIZING'' @ [10])"

lemma readyz_response:
  assumes "readyz req"
  shows "handle_request req now st = (if is_ready st then ready_page else initializing_page)"
proof -
  have "\<not> starts_with (takeWhile (\<lambda>b. b \<noteq> 10) req) (bstr ''GET /healthz'')"
    using assms by (auto simp: readyz_def starts_with_iff bstr_def)
  then show ?thesis using assms by (simp add: handle_request_def readyz_def ready_page_def initializing_page_def)
qed

text \<open>The pages served so far: the answers to readiness requests follow the flag, so none says ready before it is
  set and the last one tells its value when it was served.\<close>

definition served_ok :: "HealthServer \<Rightarrow> bool" where
  "served_ok s \<longleftrightarrow> (\<exists>early late. served s = early @ late \<and>
     (\<forall>(req, resp) \<in> set early. readyz req \<longrightarrow> resp = initializing_page) \<and>
     (\<forall>(req, resp) \<in> set late. readyz req \<longrightarrow> resp = ready_page) \<and> (late \<noteq> [] \<longrightarrow> is_ready (hs_status s)))"

lemma served_ok_step: "served_ok s \<Longrightarrow> served_ok (server_do ev s)"
proof -
  assume "served_ok s"
  then obtain early late where e: "served s = early @ late" "\<forall>(req, resp) \<in> set early. readyz req \<longrightarrow> resp = initializing_page"
    "\<forall>(req, resp) \<in> set late. readyz req \<longrightarrow> resp = ready_page" "late \<noteq> [] \<longrightarrow> is_ready (hs_status s)" by (auto simp: served_ok_def)
  have keep: "served_ok s'" if "served s' = served s" "is_ready (hs_status s) \<longrightarrow> is_ready (hs_status s')" for s'
    unfolding served_ok_def using e that by (intro exI [of _ early] exI [of _ late]) auto
  show "served_ok (server_do ev s)"
  proof (cases "\<exists>req now. ev = WorkerTurn (Connection (Some req)) now \<and> worker s = AtAccept \<and> req \<noteq> []")
    case True
    then obtain req now where ev: "ev = WorkerTurn (Connection (Some req)) now" "worker s = AtAccept" "req \<noteq> []" by blast
    let ?p = "(take 1024 req, handle_request (take 1024 req) now (hs_status s))"
    have s': "served (server_do ev s) = served s @ [?p]" "hs_status (server_do ev s) = hs_status s" using ev by simp_all
    show ?thesis
    proof (cases "is_ready (hs_status s)")
      case True
      then show ?thesis unfolding served_ok_def s' using e by (intro exI [of _ early] exI [of _ "late @ [?p]"]) (auto simp: readyz_response)
    next
      case False
      then show ?thesis unfolding served_ok_def s' using e by (intro exI [of _ "early @ [?p]"] exI [of _ "[]"]) (auto simp: readyz_response)
    qed
  next
    case False
    have "served (server_do ev s) = served s"
    proof (cases ev)
      case (WorkerTurn a now)
      show ?thesis
      proof (cases "worker s = AtAccept")
        case True
        then have "\<nexists>r. accept_turn now (hs_status s) a = Respond r"
          using False WorkerTurn by (cases "(now, hs_status s, a)" rule: accept_turn.cases) auto
        then show ?thesis using True WorkerTurn by (simp split: server_action.split)
      qed (simp add: WorkerTurn split: worker_pc.split)
    qed simp_all
    then show ?thesis using ready_stays [of s "[ev]"] by (intro keep) simp_all
  qed
qed

text \<open>Once the flag is set, the worker makes at most two more turns and serves at most one more request.\<close>

fun turns_left :: "worker_pc \<Rightarrow> nat" where
  "turns_left AtAccept = 2" | "turns_left AtCheck = 1" | "turns_left Exited = 0"

fun is_turn :: "server_event \<Rightarrow> bool" where
  "is_turn (WorkerTurn _ _) = True" | "is_turn _ = False"

lemma stopping:
  assumes "stop_signal s"
  shows "turns_left (worker (fold server_do evs s)) = turns_left (worker s) - length (filter is_turn evs)"
    and "length (served (fold server_do evs s)) \<le> length (served s) + turns_left (worker s) div 2"
  using assms
proof (induction evs arbitrary: s)
  case (Cons ev evs)
  { case 1
    have "stop_signal (server_do ev s)" "turns_left (worker (server_do ev s)) = turns_left (worker s) - (if is_turn ev then 1 else 0)"
      using 1 by (cases ev; cases "worker s"; simp split: server_action.splits)+
    then show ?case using Cons.IH(1) [of "server_do ev s"] by simp }
  { case 2
    have "stop_signal (server_do ev s)"
      "length (served (server_do ev s)) + turns_left (worker (server_do ev s)) div 2 \<le> length (served s) + turns_left (worker s) div 2"
      using 2 by (cases ev; cases "worker s"; simp split: server_action.splits)+
    then show ?case using Cons.IH(2) [of "server_do ev s"] by simp }
qed simp_all

section \<open>Properties\<close>

text \<open>The life of a probe server, for every interleaving of engine and worker: the readiness answers are 503 pages
  up to some point and 200 pages from then on, never ready before the engine said so and never back; and once the
  stop flag is set, two turns of the worker are enough for the join to return, with at most one request served
  in between.\<close>

theorem health_server_lifecycle:
  assumes "health_bind e1 e2 e3 st = Inr s0"
  shows "served_ok (fold server_do evs s0) \<and>
    (stop_signal (fold server_do evs s0) \<longrightarrow> 2 \<le> length (filter is_turn evs') \<longrightarrow>
       join_returns (fold server_do (evs @ evs') s0) \<and>
       length (served (fold server_do (evs @ evs') s0)) \<le> Suc (length (served (fold server_do evs s0))))"
proof -
  have "served_ok s0" using assms by (auto simp: health_bind_def served_ok_def split: option.splits)
  then have ok: "served_ok (fold server_do evs s0)" by (induction evs arbitrary: s0) (simp_all add: served_ok_step)
  have le: "turns_left w \<le> 2" for w by (cases w) simp_all
  have "join_returns (fold server_do (evs @ evs') s0) \<and> length (served (fold server_do (evs @ evs') s0)) \<le> Suc (length (served (fold server_do evs s0)))"
    if "stop_signal (fold server_do evs s0)" "2 \<le> length (filter is_turn evs')"
  proof -
    let ?s = "fold server_do evs s0"
    have "turns_left (worker (fold server_do evs' ?s)) = 0" using stopping(1) [OF that(1), of evs'] that(2) le [of "worker ?s"] by simp
    then have "worker (fold server_do evs' ?s) = Exited" by (cases "worker (fold server_do evs' ?s)") simp_all
    moreover have "turns_left (worker ?s) div 2 \<le> 1" using le [of "worker ?s"] by simp
    ultimately show ?thesis using stopping(2) [OF that(1), of evs'] by (simp add: join_returns_def)
  qed
  then show ?thesis using ok by blast
qed

theorem health_server_lifecycle_witness:
  "\<exists>s0. health_bind None None None (health_new 0) = Inr s0 \<and>
     join_returns (fold server_do ([WorkerTurn WouldBlock 1, MarkReady, StoreStop] @ [WorkerTurn WouldBlock 2, WorkerTurn WouldBlock 3]) s0)"
proof -
  obtain s0 where s0: "health_bind None None None (health_new 0) = Inr s0" by (simp add: health_bind_def)
  show ?thesis
    using health_server_lifecycle [OF s0, of "[WorkerTurn WouldBlock 1, MarkReady, StoreStop]" "[WorkerTurn WouldBlock 2, WorkerTurn WouldBlock 3]"] s0
    by (auto simp: health_bind_def)
qed

end
