(* ===== verification/Kernel_Bypass.thy ===== *)
theory Kernel_Bypass
  imports Rust_Prelude
begin

text \<open>
  The in-memory receive ring of \<open>src/crates/core-engine/src/kernel_bypass.rs\<close>: a pool of frame buffers
  with a stack of free indices, the array of posted descriptors with its two cursors, injection of a
  packet and burst polling. The packet handler of a poll is a callback; the model returns what it is
  called with, in order.
\<close>

section \<open>The buffer pool\<close>

definition MAX_FRAME_SIZE :: nat where
  "MAX_FRAME_SIZE = 2048"

definition DEFAULT_RING_CAPACITY :: nat where
  "DEFAULT_RING_CAPACITY = 2048"

datatype BypassBackendKind = SolarflareEfVi | DpdkPmd | PosixFallback

record PacketDescriptor =
  dma_address :: u64
  hw_timestamp_ns :: u64
  pd_length :: u32
  buffer_id :: u32
  pd_flags :: u32
  pd_reserved :: bytes

definition descriptor_default :: PacketDescriptor where
  "descriptor_default = \<lparr>dma_address = 0, hw_timestamp_ns = 0, pd_length = 0, buffer_id = 0, pd_flags = 0,
     pd_reserved = replicate 36 0\<rparr>"

record BypassConfig =
  backend :: BypassBackendKind
  bp_ring_capacity :: nat
  interface_id :: u16
  enable_hardware_timestamping :: bool
  promiscuous_mode :: bool

definition bypass_config_default :: BypassConfig where
  "bypass_config_default = \<lparr>backend = PosixFallback, bp_ring_capacity = DEFAULT_RING_CAPACITY, interface_id = 0,
     enable_hardware_timestamping = True, promiscuous_mode = False\<rparr>"

record BypassMetrics =
  packets_received :: u64
  bytes_received :: u64
  poll_cycles :: u64
  empty_polls :: u64
  ring_refills :: u64
  dma_errors :: u64

definition bypass_metrics_default :: BypassMetrics where
  "bypass_metrics_default = \<lparr>packets_received = 0, bytes_received = 0, poll_cycles = 0, empty_polls = 0,
     ring_refills = 0, dma_errors = 0\<rparr>"

record DmaBufferPool =
  dma_storage :: "bytes list"
  dma_descriptors :: "PacketDescriptor list"
  available_indices :: "u32 list"
  free_count :: nat

abbreviation pool_n :: "DmaBufferPool \<Rightarrow> nat" where
  "pool_n pool \<equiv> length (dma_storage pool)"

definition pool_new :: "nat \<Rightarrow> DmaBufferPool" where
  "pool_new n = \<lparr>dma_storage = replicate n (replicate MAX_FRAME_SIZE 0),
     dma_descriptors = map (\<lambda>i. \<lparr>dma_address = 0x10000000 + of_nat i * of_nat MAX_FRAME_SIZE,
       hw_timestamp_ns = 0, pd_length = 0, buffer_id = of_nat i, pd_flags = 0, pd_reserved = replicate 36 0\<rparr>) [0..<n],
     available_indices = map of_nat [0..<n], free_count = n\<rparr>"

text \<open>\<open>x & (N - 1)\<close> on \<open>usize\<close>.\<close>

definition mask_index :: "nat \<Rightarrow> nat \<Rightarrow> nat" where
  "mask_index n x = x AND (n - 1)"

definition get_buffer_slice :: "DmaBufferPool \<Rightarrow> u32 \<Rightarrow> nat \<Rightarrow> bytes" where
  "get_buffer_slice pool bid len =
     take (min len MAX_FRAME_SIZE) (dma_storage pool ! mask_index (pool_n pool) (unat bid))"

definition allocate_descriptor :: "DmaBufferPool \<Rightarrow> DmaBufferPool \<times> u32 option" where
  "allocate_descriptor pool =
     (if free_count pool = 0 then (pool, None)
      else let pool = pool\<lparr>free_count := free_count pool - 1\<rparr>
           in (pool, Some (available_indices pool ! free_count pool)))"

definition release_descriptor :: "DmaBufferPool \<Rightarrow> u32 \<Rightarrow> DmaBufferPool" where
  "release_descriptor pool bid =
     (if free_count pool < pool_n pool
      then pool\<lparr>available_indices := (available_indices pool)[free_count pool := bid],
                free_count := free_count pool + 1\<rparr>
      else pool)"

definition descriptor :: "DmaBufferPool \<Rightarrow> u32 \<Rightarrow> PacketDescriptor" where
  "descriptor pool bid = dma_descriptors pool ! mask_index (pool_n pool) (unat bid)"

section \<open>The bridge\<close>

record KernelBypassBridge =
  kb_config :: BypassConfig
  kb_metrics :: BypassMetrics
  buffer_pool :: DmaBufferPool
  rx_ring_head :: nat
  rx_ring_tail :: nat
  posted_descriptors :: "u32 list"
  kb_is_active :: bool

abbreviation kb_n :: "KernelBypassBridge \<Rightarrow> nat" where
  "kb_n b \<equiv> pool_n (buffer_pool b)"

function refill_loop :: "nat \<Rightarrow> nat \<Rightarrow> DmaBufferPool \<Rightarrow> u32 list \<Rightarrow> nat \<Rightarrow> nat \<Rightarrow> DmaBufferPool \<times> u32 list \<times> nat \<times> nat" where
  "refill_loop n head pool posted tail refilled =
     (if tail < head + n
      then case allocate_descriptor pool of
             (pool, Some buf_id) \<Rightarrow>
               refill_loop n head pool (posted[mask_index n tail := buf_id]) (tail + 1) (refilled + 1)
           | (pool, None) \<Rightarrow> (pool, posted, tail, refilled)
      else (pool, posted, tail, refilled))"
  by pat_completeness auto
termination by (relation "measure (\<lambda>(n, head, pool, posted, tail, refilled). head + n - tail)") auto

declare refill_loop.simps [simp del]

definition refill_rx_ring :: "KernelBypassBridge \<Rightarrow> KernelBypassBridge \<times> nat" where
  "refill_rx_ring b =
     (case refill_loop (kb_n b) (rx_ring_head b) (buffer_pool b) (posted_descriptors b) (rx_ring_tail b) 0 of
        (pool, posted, tail, refilled) \<Rightarrow>
          let b = b\<lparr>buffer_pool := pool, posted_descriptors := posted, rx_ring_tail := tail\<rparr>;
              b = (if refilled > 0
                   then b\<lparr>kb_metrics := (kb_metrics b)\<lparr>ring_refills := ring_refills (kb_metrics b) + of_nat refilled\<rparr>\<rparr>
                   else b)
          in (b, refilled))"

definition bridge_new :: "nat \<Rightarrow> BypassConfig \<Rightarrow> KernelBypassBridge outcome" where
  "bridge_new n config =
     (if is_power_of_two n
      then Ret (fst (refill_rx_ring \<lparr>kb_config = config, kb_metrics = bypass_metrics_default,
             buffer_pool = pool_new n, rx_ring_head = 0, rx_ring_tail = 0,
             posted_descriptors = replicate n 0, kb_is_active = True\<rparr>))
      else Panic)"

definition inject_packet :: "KernelBypassBridge \<Rightarrow> bytes \<Rightarrow> u64 \<Rightarrow> KernelBypassBridge \<times> (string + unit)" where
  "inject_packet b payload hw_ts_ns =
     (if rx_ring_head b \<ge> rx_ring_tail b
      then (b\<lparr>kb_metrics := (kb_metrics b)\<lparr>dma_errors := dma_errors (kb_metrics b) + 1\<rparr>\<rparr>,
            Inl ''RX ring exhausted - packet dropped at PHY layer'')
      else let head = rx_ring_head b;
               buf_id = posted_descriptors b ! mask_index (kb_n b) head;
               len = min (length payload) MAX_FRAME_SIZE;
               pool = buffer_pool b;
               k = mask_index (pool_n pool) (unat buf_id);
               dest = dma_storage pool ! k;
               pool = pool\<lparr>dma_storage := (dma_storage pool)[k := write_at dest 0 (take len payload)]\<rparr>;
               desc = dma_descriptors pool ! k;
               desc = desc\<lparr>pd_length := of_nat len, hw_timestamp_ns := hw_ts_ns, pd_flags := 1\<rparr>;
               pool = pool\<lparr>dma_descriptors := (dma_descriptors pool)[k := desc]\<rparr>
           in (b\<lparr>buffer_pool := pool, rx_ring_head := head + 1\<rparr>, Inr ()))"

function poll_loop ::
  "nat \<Rightarrow> nat \<Rightarrow> KernelBypassBridge \<Rightarrow> (bytes \<times> u64) list \<Rightarrow> KernelBypassBridge \<times> (bytes \<times> u64) list" where
  "poll_loop limit current b out =
     (if current < limit
      then let buf_id = posted_descriptors b ! mask_index (kb_n b) current;
               desc = descriptor (buffer_pool b) buf_id;
               len = unat (pd_length desc); hw_ts = hw_timestamp_ns desc;
               payload = get_buffer_slice (buffer_pool b) buf_id len;
               m = kb_metrics b;
               m = m\<lparr>packets_received := packets_received m + 1\<rparr>;
               m = m\<lparr>bytes_received := bytes_received m + of_nat len\<rparr>
           in poll_loop limit (current + 1)
                (b\<lparr>kb_metrics := m, buffer_pool := release_descriptor (buffer_pool b) buf_id\<rparr>)
                (out @ [(payload, hw_ts)])
      else (b, out))"
  by pat_completeness auto
termination by (relation "measure (\<lambda>(limit, current, b, out). limit - current)") auto

declare poll_loop.simps [simp del]

text \<open>\<open>for i in 0..remaining { posted[i] = posted[current + i] }\<close>.\<close>

definition shift_window :: "u32 list \<Rightarrow> nat \<Rightarrow> nat \<Rightarrow> u32 list" where
  "shift_window posted current remaining = foldl (\<lambda>p i. p[i := p ! (current + i)]) posted [0..<remaining]"

definition poll_rx_burst ::
  "KernelBypassBridge \<Rightarrow> nat \<Rightarrow> KernelBypassBridge \<times> (bytes \<times> u64) list \<times> nat" where
  "poll_rx_burst b max_packets =
     (let b = b\<lparr>kb_metrics := (kb_metrics b)\<lparr>poll_cycles := poll_cycles (kb_metrics b) + 1\<rparr>\<rparr>;
          head = rx_ring_head b;
          current = min max_packets head;
          (b, out) = poll_loop current 0 b []
      in if current = 0
         then (b\<lparr>kb_metrics := (kb_metrics b)\<lparr>empty_polls := empty_polls (kb_metrics b) + 1\<rparr>\<rparr>, out, current)
         else let remaining = head - current;
                  b = b\<lparr>posted_descriptors := shift_window (posted_descriptors b) current remaining,
                        rx_ring_head := remaining, rx_ring_tail := remaining\<rparr>
              in (fst (refill_rx_ring b), out, current))"

section \<open>The loops\<close>

lemma mask_index_mod: "is_power_of_two n \<Longrightarrow> mask_index n x = x mod n"
proof -
  assume "is_power_of_two n"
  then obtain k where k: "n = 2 ^ k" by (auto simp: is_power_of_two_def list_ex_iff)
  have "x AND (2 ^ k - 1) = x mod 2 ^ k" by (metis take_bit_eq_mask take_bit_eq_mod mask_eq_exp_minus_1)
  then show ?thesis by (simp add: mask_index_def k)
qed

lemma mask_index_id: "is_power_of_two n \<Longrightarrow> x < n \<Longrightarrow> mask_index n x = x"
  by (simp add: mask_index_mod)

lemma shift_window_eq:
  "current + remaining \<le> length posted \<Longrightarrow>
   shift_window posted current remaining = take remaining (drop current posted) @ drop remaining posted"
proof (induction remaining)
  case 0
  then show ?case by (simp add: shift_window_def)
next
  case (Suc r)
  let ?p = "take r (drop current posted) @ drop r posted"
  have len: "length (take r (drop current posted)) = r" using Suc.prems by simp
  have "shift_window posted current (Suc r) = ?p[r := ?p ! (current + r)]"
    using Suc by (simp add: shift_window_def)
  moreover have "?p ! (current + r) = posted ! (current + r)" using Suc.prems len by (simp add: nth_append add.commute)
  moreover have "?p[r := v] = take r (drop current posted) @ v # drop (Suc r) posted" for v
    using Suc.prems len by (simp add: list_update_append upd_conv_take_nth_drop)
  moreover have "take (Suc r) (drop current posted) = take r (drop current posted) @ [posted ! (current + r)]"
    using Suc.prems by (simp add: take_Suc_conv_app_nth)
  ultimately show ?case by simp
qed

text \<open>Refilling from a pool that has no more free buffers than there is room posts all of them, the one
  released last first.\<close>

lemma refill_loop_all:
  assumes "is_power_of_two n" "length posted = n" "tail + free_count pool \<le> n"
    and "free_count pool \<le> length (available_indices pool)" "tail + free_count pool \<le> head + n"
  shows "refill_loop n head pool posted tail refilled =
    (pool\<lparr>free_count := 0\<rparr>,
     take tail posted @ rev (take (free_count pool) (available_indices pool)) @ drop (tail + free_count pool) posted,
     tail + free_count pool, refilled + free_count pool)"
  using assms(2-5)
proof (induction "free_count pool" arbitrary: pool posted tail refilled)
  case 0
  then show ?case by (subst refill_loop.simps) (simp add: allocate_descriptor_def)
next
  case (Suc f)
  note f = Suc.hyps(2) [symmetric]
  let ?pool = "pool\<lparr>free_count := f\<rparr>" and ?id = "available_indices pool ! f"
  have step: "refill_loop n head pool posted tail refilled =
      refill_loop n head ?pool (posted[tail := ?id]) (tail + 1) (refilled + 1)"
    using Suc.prems mask_index_id [OF assms(1), of tail]
    by (subst refill_loop.simps) (simp add: allocate_descriptor_def f)
  have "refill_loop n head ?pool (posted[tail := ?id]) (tail + 1) (refilled + 1) =
    (?pool\<lparr>free_count := 0\<rparr>, take (tail + 1) (posted[tail := ?id]) @ rev (take f (available_indices pool))
       @ drop (tail + 1 + f) (posted[tail := ?id]), tail + 1 + f, refilled + 1 + f)"
    using Suc.hyps(1) [of ?pool "posted[tail := ?id]" "tail + 1" "refilled + 1"] Suc.prems by (simp add: f)
  moreover have "take (tail + 1) (posted[tail := ?id]) = take tail posted @ [?id]"
    using Suc.prems by (simp add: take_Suc_conv_app_nth f)
  moreover have "rev (take (Suc f) (available_indices pool)) = ?id # rev (take f (available_indices pool))"
    using Suc.prems by (simp add: take_Suc_conv_app_nth f)
  ultimately show ?case unfolding step by (simp add: f)
qed

text \<open>The packet in a buffer.\<close>

definition packet :: "DmaBufferPool \<Rightarrow> u32 \<Rightarrow> bytes \<times> u64" where
  "packet pool bid = (get_buffer_slice pool bid (unat (pd_length (descriptor pool bid))), hw_timestamp_ns (descriptor pool bid))"

definition packet_bytes :: "DmaBufferPool \<Rightarrow> u32 list \<Rightarrow> u64" where
  "packet_bytes pool ids = sum_list (map (\<lambda>bid. of_nat (unat (pd_length (descriptor pool bid)))) ids)"

lemma packet_stack [simp]:
  "packet (pool\<lparr>available_indices := av, free_count := f\<rparr>) = packet pool"
  "packet (pool\<lparr>free_count := f\<rparr>) = packet pool"
  "packet (pool\<lparr>available_indices := av\<rparr>) = packet pool"
  "descriptor (pool\<lparr>available_indices := av, free_count := f\<rparr>) = descriptor pool"
  by (simp_all add: packet_def get_buffer_slice_def descriptor_def fun_eq_iff)

lemma packet_bytes_stack [simp]:
  "packet_bytes (pool\<lparr>available_indices := av, free_count := f\<rparr>) ids = packet_bytes pool ids"
  by (simp add: packet_bytes_def)

lemma poll_loop_eq:
  assumes "is_power_of_two (kb_n b)" "length (posted_descriptors b) = kb_n b" "length (available_indices (buffer_pool b)) = kb_n b"
    and "current + k \<le> kb_n b" "free_count (buffer_pool b) = current"
  shows "poll_loop (current + k) current b out =
    (let ids = take k (drop current (posted_descriptors b)); pool = buffer_pool b; m = kb_metrics b
     in (b\<lparr>kb_metrics := m\<lparr>packets_received := packets_received m + of_nat k,
                           bytes_received := bytes_received m + packet_bytes pool ids\<rparr>,
          buffer_pool := pool\<lparr>available_indices := take current (available_indices pool) @ ids @ drop (current + k) (available_indices pool),
                             free_count := current + k\<rparr>\<rparr>,
         out @ map (packet pool) ids))"
  using assms
proof (induction k arbitrary: current b out)
  case 0
  show ?case unfolding 0(5) [symmetric] by (subst poll_loop.simps) (simp add: packet_bytes_def)
next
  case (Suc k)
  let ?pool = "buffer_pool b" and ?m = "kb_metrics b" and ?posted = "posted_descriptors b"
  let ?id = "?posted ! current"
  let ?m1 = "?m\<lparr>packets_received := packets_received ?m + 1,
    bytes_received := bytes_received ?m + of_nat (unat (pd_length (descriptor ?pool ?id)))\<rparr>"
  let ?pool1 = "?pool\<lparr>available_indices := (available_indices ?pool)[current := ?id], free_count := current + 1\<rparr>"
  let ?b1 = "b\<lparr>kb_metrics := ?m1, buffer_pool := ?pool1\<rparr>"
  have lt: "current < kb_n b" using Suc.prems by simp
  have idx: "mask_index (kb_n b) current = current" by (rule mask_index_id [OF Suc.prems(1) lt])
  have "poll_loop (current + Suc k) current b out = poll_loop (Suc current + k) (Suc current) ?b1 (out @ [packet ?pool ?id])"
    using lt Suc.prems(5) by (subst poll_loop.simps) (simp add: idx Let_def release_descriptor_def packet_def)
  also have "\<dots> = (let ids = take k (drop (Suc current) ?posted)
     in (?b1\<lparr>kb_metrics := ?m1\<lparr>packets_received := packets_received ?m1 + of_nat k,
                           bytes_received := bytes_received ?m1 + packet_bytes ?pool1 ids\<rparr>,
          buffer_pool := ?pool1\<lparr>available_indices := take (Suc current) (available_indices ?pool1) @ ids @ drop (Suc current + k) (available_indices ?pool1),
                             free_count := Suc current + k\<rparr>\<rparr>,
         (out @ [packet ?pool ?id]) @ map (packet ?pool1) ids))"
    using Suc.IH [of ?b1 "Suc current" "out @ [packet ?pool ?id]"] Suc.prems by (simp add: Let_def)
  also have "\<dots> = (let ids = take (Suc k) (drop current ?posted)
     in (b\<lparr>kb_metrics := ?m\<lparr>packets_received := packets_received ?m + of_nat (Suc k),
                           bytes_received := bytes_received ?m + packet_bytes ?pool ids\<rparr>,
          buffer_pool := ?pool\<lparr>available_indices := take current (available_indices ?pool) @ ids @ drop (current + Suc k) (available_indices ?pool),
                             free_count := current + Suc k\<rparr>\<rparr>,
         out @ map (packet ?pool) ids))"
  proof -
    have "take (Suc k) (drop current ?posted) = ?id # take k (drop (Suc current) ?posted)"
      using lt Suc.prems(2) by (simp flip: Cons_nth_drop_Suc)
    moreover have "take (Suc current) ((available_indices ?pool)[current := ?id]) = take current (available_indices ?pool) @ [?id]"
      using lt Suc.prems(3) by (simp add: take_Suc_conv_app_nth)
    ultimately show ?thesis
      by (simp add: Let_def packet_bytes_def algebra_simps)
  qed
  finally show ?case by (simp only: Let_def)
qed

section \<open>The bridge as a queue with credits\<close>

text \<open>The bridge holds the packets \<open>pend\<close>, received and not yet polled, and can take \<open>credit\<close> more.\<close>

definition pool_ok :: "nat \<Rightarrow> DmaBufferPool \<Rightarrow> bool" where
  "pool_ok n pool \<longleftrightarrow> pool_n pool = n \<and> length (dma_descriptors pool) = n \<and> length (available_indices pool) = n \<and>
     (\<forall>s \<in> set (dma_storage pool). length s = MAX_FRAME_SIZE)"

definition bridge_inv :: "nat \<Rightarrow> KernelBypassBridge \<Rightarrow> (bytes \<times> u64) list \<Rightarrow> nat \<Rightarrow> bool" where
  "bridge_inv n b pend credit \<longleftrightarrow> is_power_of_two n \<and> pool_ok n (buffer_pool b) \<and> free_count (buffer_pool b) = 0 \<and>
     length (posted_descriptors b) = n \<and> rx_ring_head b = length pend \<and> rx_ring_tail b = length pend + credit \<and>
     length pend + credit \<le> n \<and> distinct (take (length pend + credit) (posted_descriptors b)) \<and>
     (\<forall>bid \<in> set (take (length pend + credit) (posted_descriptors b)). unat bid < n) \<and>
     map (packet (buffer_pool b)) (take (length pend) (posted_descriptors b)) = pend"

lemma refill_rx_ring_eq:
  assumes "is_power_of_two (kb_n b)" "length (posted_descriptors b) = kb_n b" "length (available_indices (buffer_pool b)) = kb_n b"
    and "rx_ring_tail b + free_count (buffer_pool b) \<le> kb_n b"
  shows "buffer_pool (fst (refill_rx_ring b)) = (buffer_pool b)\<lparr>free_count := 0\<rparr> \<and>
    posted_descriptors (fst (refill_rx_ring b)) = take (rx_ring_tail b) (posted_descriptors b)
      @ rev (take (free_count (buffer_pool b)) (available_indices (buffer_pool b)))
      @ drop (rx_ring_tail b + free_count (buffer_pool b)) (posted_descriptors b) \<and>
    rx_ring_tail (fst (refill_rx_ring b)) = rx_ring_tail b + free_count (buffer_pool b) \<and>
    rx_ring_head (fst (refill_rx_ring b)) = rx_ring_head b"
  using refill_loop_all [OF assms(1,2,4), of "rx_ring_head b" 0] assms by (simp add: refill_rx_ring_def Let_def)

lemma bridge_new_inv:
  assumes "bridge_new n config = Ret b" "n \<le> 2 ^ 32"
  shows "bridge_inv n b [] n"
proof -
  let ?b0 = "\<lparr>kb_config = config, kb_metrics = bypass_metrics_default, buffer_pool = pool_new n, rx_ring_head = 0,
    rx_ring_tail = 0, posted_descriptors = replicate n 0, kb_is_active = True\<rparr>"
  have p: "is_power_of_two n" and b: "b = fst (refill_rx_ring ?b0)"
    using assms(1) by (simp_all add: bridge_new_def split: if_splits)
  have pool: "kb_n ?b0 = n" "length (available_indices (pool_new n)) = n" "free_count (pool_new n) = n"
    by (simp_all add: pool_new_def)
  have r: "buffer_pool b = (pool_new n)\<lparr>free_count := 0\<rparr>" "posted_descriptors b = rev (available_indices (pool_new n))"
    "rx_ring_tail b = n" "rx_ring_head b = 0"
    using refill_rx_ring_eq [of ?b0] pool p unfolding b by simp_all
  have small: "unat (of_nat i :: u32) = i" if "i < n" for i
    using that assms(2) by (intro unat_of_nat_small) simp
  then have "inj_on (of_nat :: nat \<Rightarrow> u32) {0..<n}" by (metis atLeastLessThan_iff inj_onI)
  then have "distinct (rev (available_indices (pool_new n)))" by (simp add: pool_new_def distinct_map)
  moreover have "\<forall>bid \<in> set (rev (available_indices (pool_new n))). unat bid < n"
    using small by (auto simp: pool_new_def)
  moreover have "pool_ok n ((pool_new n)\<lparr>free_count := 0\<rparr>)" by (auto simp: pool_ok_def pool_new_def)
  ultimately show ?thesis using p pool by (simp add: bridge_inv_def r)
qed

lemma inject_packet_inv:
  assumes inv: "bridge_inv n b pend (Suc credit)" and inj: "inject_packet b payload ts = (b', res)"
  shows "res = Inr () \<and> kb_metrics b' = kb_metrics b \<and>
    bridge_inv n b' (pend @ [(take MAX_FRAME_SIZE payload, ts)]) credit"
proof -
  let ?h = "length pend" and ?posted = "posted_descriptors b" and ?pool = "buffer_pool b"
  let ?id = "?posted ! ?h"
  note i = inv [unfolded bridge_inv_def pool_ok_def]
  have pend: "map (packet (buffer_pool b)) (take (length pend) (posted_descriptors b)) = pend" using i by blast
  have lt: "?h < n" "?h < length ?posted" using i by simp_all
  have ids: "take (Suc ?h) ?posted = take ?h ?posted @ [?id]" using lt by (simp add: take_Suc_conv_app_nth)
  have sub: "set (take (Suc ?h) ?posted) \<subseteq> set (take (length pend + Suc credit) ?posted)"
    using i by (intro set_take_subset_set_take) simp
  have small: "unat bid < n" if "bid \<in> set (take (Suc ?h) ?posted)" for bid using that sub i by blast
  have k: "mask_index n (unat bid) = unat bid" if "bid \<in> set (take (Suc ?h) ?posted)" for bid
    using that small i by (simp add: mask_index_id)
  have "distinct (take (Suc ?h) ?posted)"
  proof -
    have "take (Suc ?h) ?posted = take (Suc ?h) (take (length pend + Suc credit) ?posted)" using i by (simp add: min_def)
    then show ?thesis using i by (metis distinct_take)
  qed
  then have new: "?id \<notin> set (take ?h ?posted)" by (simp add: ids)
  have idk: "unat ?id < n" "mask_index n (unat ?id) = unat ?id" using small k by (simp_all add: ids)
  let ?len = "min (length payload) MAX_FRAME_SIZE"
  let ?pool' = "?pool\<lparr>dma_storage := (dma_storage ?pool)[unat ?id := write_at (dma_storage ?pool ! unat ?id) 0 (take ?len payload)],
    dma_descriptors := (dma_descriptors ?pool)[unat ?id := (dma_descriptors ?pool ! unat ?id)\<lparr>pd_length := of_nat ?len,
      hw_timestamp_ns := ts, pd_flags := 1\<rparr>]\<rparr>"
  have b': "b' = b\<lparr>buffer_pool := ?pool', rx_ring_head := Suc ?h\<rparr>" and res: "res = Inr ()"
    using inj i idk mask_index_id [of n ?h] lt by (simp_all add: inject_packet_def Let_def)
  have frame: "length (dma_storage ?pool ! unat ?id) = MAX_FRAME_SIZE" using i idk by simp
  have old: "packet ?pool' bid = packet ?pool bid" if "bid \<in> set (take ?h ?posted)" for bid
  proof -
    have "unat bid \<noteq> unat ?id" using that new by (metis word_unat_eq_iff)
    moreover have "mask_index n (unat bid) = unat bid" using k that by (simp add: ids)
    ultimately show ?thesis using i by (simp add: packet_def get_buffer_slice_def descriptor_def)
  qed
  have "unat (of_nat ?len :: u32) = ?len" by (rule unat_of_nat_small) (simp add: MAX_FRAME_SIZE_def min_def)
  then have this_one: "packet ?pool' ?id = (take MAX_FRAME_SIZE payload, ts)"
    using i idk frame by (simp add: packet_def get_buffer_slice_def descriptor_def write_at_def min_def)
  have "pool_ok n ?pool'"
    using i frame by (auto simp: pool_ok_def dest!: set_update_subset_insert [THEN subsetD])
  moreover have "map (packet ?pool') (take (Suc ?h) ?posted) = pend @ [(take MAX_FRAME_SIZE payload, ts)]"
  proof -
    have "map (packet ?pool') (take ?h ?posted) = map (packet ?pool) (take ?h ?posted)"
      by (rule map_cong [OF refl old])
    then show ?thesis using pend this_one unfolding ids by (simp only: map_append list.map)
  qed
  ultimately show ?thesis using i by (simp add: bridge_inv_def b' res)
qed

lemma poll_rx_burst_inv:
  assumes inv: "bridge_inv n b pend credit" and poll: "poll_rx_burst b max_packets = (b', out, k)"
  shows "k = min max_packets (length pend) \<and> out = take k pend \<and>
    bridge_inv n b' (drop k pend) (if k = 0 then credit else k)"
proof -
  note i = inv [unfolded bridge_inv_def pool_ok_def]
  have pend: "map (packet (buffer_pool b)) (take (length pend) (posted_descriptors b)) = pend" using i by blast
  let ?h = "length pend" and ?posted = "posted_descriptors b" and ?pool = "buffer_pool b"
  let ?b0 = "b\<lparr>kb_metrics := (kb_metrics b)\<lparr>poll_cycles := poll_cycles (kb_metrics b) + 1\<rparr>\<rparr>"
  define j where "j = min max_packets ?h"
  have j: "j \<le> ?h" by (simp add: j_def)
  obtain b1 where p: "poll_loop j 0 ?b0 [] = (b1, map (packet ?pool) (take j ?posted))"
    and b1: "buffer_pool b1 = ?pool\<lparr>available_indices := take j ?posted @ drop j (available_indices ?pool), free_count := j\<rparr>"
      "posted_descriptors b1 = ?posted" "rx_ring_head b1 = ?h" "rx_ring_tail b1 = rx_ring_tail b"
  proof -
    have "j \<le> n" using i j by (elim conjE) linarith
    then show thesis using that poll_loop_eq [of ?b0 0 j "[]"] i by (simp add: Let_def)
  qed
  have out: "map (packet ?pool) (take j ?posted) = take j pend"
    using arg_cong [OF pend, of "take j"] j by (simp add: take_map min_absorb1)
  have rest: "map (packet ?pool) (take (?h - j) (drop j ?posted)) = drop j pend"
    using arg_cong [OF pend, of "drop j"] by (simp add: drop_map drop_take)
  show ?thesis
  proof (cases "j = 0")
    case True
    then have "bridge_inv n b1 pend credit" using i b1 by (simp add: bridge_inv_def pool_ok_def)
    then show ?thesis using poll p True i out by (auto simp: poll_rx_burst_def Let_def bridge_inv_def pool_ok_def simp flip: j_def)
  next
    case False
    let ?r = "?h - j"
    let ?b2 = "b1\<lparr>posted_descriptors := shift_window ?posted j ?r, rx_ring_head := ?r, rx_ring_tail := ?r\<rparr>"
    have sw: "shift_window ?posted j ?r = take ?r (drop j ?posted) @ drop ?r ?posted"
      using i j by (intro shift_window_eq) auto
    have "rx_ring_head b = ?h" using i by blast
    then have "poll_rx_burst b max_packets = (fst (refill_rx_ring ?b2), take j pend, j)"
      using p False out by (simp add: poll_rx_burst_def Let_def b1 flip: j_def)
    then have b': "b' = fst (refill_rx_ring ?b2)" "out = take j pend" "k = j" using poll by simp_all
    have lens: "kb_n ?b2 = n" "length (posted_descriptors ?b2) = n" "length (available_indices (buffer_pool ?b2)) = n"
      "rx_ring_tail ?b2 + free_count (buffer_pool ?b2) = ?h" "?h \<le> n"
      using i b1 sw j by auto
    have R: "buffer_pool b' = (buffer_pool ?b2)\<lparr>free_count := 0\<rparr> \<and>
      posted_descriptors b' = take (rx_ring_tail ?b2) (posted_descriptors ?b2)
        @ rev (take (free_count (buffer_pool ?b2)) (available_indices (buffer_pool ?b2)))
        @ drop (rx_ring_tail ?b2 + free_count (buffer_pool ?b2)) (posted_descriptors ?b2) \<and>
      rx_ring_tail b' = rx_ring_tail ?b2 + free_count (buffer_pool ?b2) \<and> rx_ring_head b' = rx_ring_head ?b2"
      unfolding b'(1) by (rule refill_rx_ring_eq) (simp_all only: lens, use i in blast)
    have eq: "buffer_pool b' = (buffer_pool b1)\<lparr>free_count := 0\<rparr>" "rx_ring_tail b' = ?h" "rx_ring_head b' = ?r"
      using R lens by simp_all
    have len: "length (take j ?posted) = j" "length (take ?r (drop j ?posted)) = ?r" using i j by auto
    have posted': "posted_descriptors b' = take ?r (drop j ?posted) @ rev (take j ?posted) @ drop ?h (posted_descriptors ?b2)"
      using R lens(4) len by (simp add: b1 sw)
    have ids: "take ?r (drop j ?posted) @ rev (take j ?posted) = take ?h (posted_descriptors b')"
      using posted' len j by simp
    have plen: "length (posted_descriptors b') = n" using posted' len j lens by simp
    have split: "take ?h ?posted = take j ?posted @ take ?r (drop j ?posted)"
      using j by (metis take_add le_add_diff_inverse)
    have tail: "take ?h (take (length pend + credit) ?posted) = take ?h ?posted" using i by simp
    have "distinct (take ?h ?posted)" "\<forall>bid \<in> set (take ?h ?posted). unat bid < n"
      using i tail by (metis distinct_take, metis in_set_takeD)
    then have "distinct (take ?h (posted_descriptors b'))" "\<forall>bid \<in> set (take ?h (posted_descriptors b')). unat bid < n"
      unfolding ids [symmetric] split by auto
    moreover have "take ?r (posted_descriptors b') = take ?r (drop j ?posted)"
      unfolding posted' by (metis append_eq_conv_conj len(2))
    then have "map (packet (buffer_pool b')) (take ?r (posted_descriptors b')) = drop j pend"
      using rest by (simp add: eq b1)
    moreover have "pool_ok n (buffer_pool b')"
      using i lens(3) len(1) by (simp add: pool_ok_def eq b1)
    ultimately have "bridge_inv n b' (drop j pend) j"
      using i eq plen lens(5) j by (simp add: bridge_inv_def b1)
    then show ?thesis using b'(2,3) False j_def by metis
  qed
qed

section \<open>Properties\<close>

text \<open>C35: The bridge is a queue of received packets with a number of credits. A fresh bridge is empty and
  has \<open>N\<close> credits. A packet that finds a credit is appended, cut to the frame size, with its timestamp;
  without a credit it is refused, counted as an error, and nothing else changes. A poll hands the oldest
  packets to the handler in order, up to its limit, removes exactly these, and afterwards the bridge has
  as many credits as packets were handed out, or the same credits if none were.\<close>

theorem bypass_refines_credit_queue:
  assumes "n \<le> 2 ^ 32"
  shows "(bridge_new n config = Ret b \<longrightarrow> bridge_inv n b [] n) \<and>
    (bridge_inv n b pend credit \<longrightarrow>
       (case inject_packet b payload ts of
          (b', Inr _) \<Rightarrow> 0 < credit \<and> bridge_inv n b' (pend @ [(take MAX_FRAME_SIZE payload, ts)]) (credit - 1)
        | (b', Inl _) \<Rightarrow> credit = 0 \<and> bridge_inv n b' pend 0 \<and> dma_errors (kb_metrics b') = dma_errors (kb_metrics b) + 1) \<and>
       (case poll_rx_burst b max_packets of
          (b', out, k) \<Rightarrow> k = min max_packets (length pend) \<and> out = take k pend \<and>
            bridge_inv n b' (drop k pend) (if k = 0 then credit else k)))"
proof (intro conjI impI)
  show "bridge_inv n b [] n" if "bridge_new n config = Ret b" by (rule bridge_new_inv [OF that assms])
next
  assume inv: "bridge_inv n b pend credit"
  obtain b' res where inj: "inject_packet b payload ts = (b', res)" by (cases "inject_packet b payload ts")
  show "case inject_packet b payload ts of
      (b', Inr _) \<Rightarrow> 0 < credit \<and> bridge_inv n b' (pend @ [(take MAX_FRAME_SIZE payload, ts)]) (credit - 1)
    | (b', Inl _) \<Rightarrow> credit = 0 \<and> bridge_inv n b' pend 0 \<and> dma_errors (kb_metrics b') = dma_errors (kb_metrics b) + 1"
  proof (cases credit)
    case 0
    then show ?thesis using inv by (simp add: inject_packet_def bridge_inv_def)
  next
    case (Suc c)
    then show ?thesis using inject_packet_inv [OF inv [unfolded Suc] inj] inj by simp
  qed
  obtain b'' out k where "poll_rx_burst b max_packets = (b'', out, k)" by (cases "poll_rx_burst b max_packets")
  then show "case poll_rx_burst b max_packets of
      (b', out, k) \<Rightarrow> k = min max_packets (length pend) \<and> out = take k pend \<and>
        bridge_inv n b' (drop k pend) (if k = 0 then credit else k)"
    using poll_rx_burst_inv [OF inv] by simp
qed

theorem bypass_refines_credit_queue_witness:
  "\<exists>b. bridge_new 2 bypass_config_default = Ret b \<and> bridge_inv 2 b [] 2 \<and>
     (\<exists>b'. inject_packet b [7] 9 = (b', Inr ()) \<and> bridge_inv 2 b' [([7], 9)] 1)"
proof -
  obtain b where b: "bridge_new 2 bypass_config_default = Ret b"
    by (simp add: bridge_new_def is_power_of_two_def upt_conv_Cons)
  have inv: "bridge_inv 2 b [] 2"
    using bypass_refines_credit_queue [of 2 bypass_config_default b "[]" 2] b by simp
  obtain b' res where inj: "inject_packet b [7] 9 = (b', res)" by (cases "inject_packet b [7] 9")
  have "case (b', res) of
      (b', Inr _) \<Rightarrow> bridge_inv 2 b' [(take MAX_FRAME_SIZE [7], 9)] (Suc 0) | (b', Inl _) \<Rightarrow> False"
    using bypass_refines_credit_queue [of 2 bypass_config_default b "[]" 2 "[7]" 9 0] inv unfolding inj
    by (auto split: sum.splits)
  then have "res = Inr () \<and> bridge_inv 2 b' [([7], 9)] 1"
    by (cases res) (simp_all add: MAX_FRAME_SIZE_def)
  then show ?thesis using b inv inj by simp
qed

text \<open>Descriptors that were posted but unused when a poll returns packets are lost: a bridge of any
  capacity accepts only one packet after one packet has been received and polled.\<close>

theorem bypass_poll_loses_descriptors:
  assumes "bridge_inv n b [] (Suc credit)" "inject_packet b x ts = (b1, res1)"
    and "poll_rx_burst b1 (Suc m) = (b2, out, k)" "inject_packet b2 y ts' = (b3, res3)" "inject_packet b3 z ts'' = (b4, res4)"
  shows "res3 = Inr () \<and> res4 = Inl ''RX ring exhausted - packet dropped at PHY layer''"
proof -
  from inject_packet_inv [OF assms(1,2)] have "bridge_inv n b1 [(take MAX_FRAME_SIZE x, ts)] credit" by simp
  from poll_rx_burst_inv [OF this assms(3)] have "bridge_inv n b2 [] (Suc 0)" by auto
  from inject_packet_inv [OF this assms(4)] have "res3 = Inr ()" "bridge_inv n b3 [(take MAX_FRAME_SIZE y, ts')] 0" by simp_all
  then show ?thesis using assms(5) by (auto simp: inject_packet_def bridge_inv_def)
qed

end
