(* ===== verification/Transport.thy ===== *)
theory Transport
  imports Kernel_Bypass Topology
begin

text \<open>
  The network transports of \<open>src/crates/cefi-ingest/src/transport/\<close>: the mock queue, the adapter around the
  kernel-bypass bridge, the completion ring and the plain socket, with the factory that chooses one. A
  UDP socket is what its next \<open>recv_from\<close> calls will return, with the clock reading taken after a
  successful one; the handler of a poll is a callback, and the model returns what it is called with. The
  trait is the locale \<open>network_transport\<close>.
\<close>

section \<open>Kinds, statistics, errors\<close>

datatype TransportBackendKind = SolarflareEfViBackend | IoUringBackend | StandardSocketBackend | MockBackend

fun transport_backend_as_str :: "TransportBackendKind \<Rightarrow> string" where
  "transport_backend_as_str SolarflareEfViBackend = ''Solarflare_EF_VI''"
| "transport_backend_as_str IoUringBackend = ''Linux_io_uring''"
| "transport_backend_as_str StandardSocketBackend = ''Standard_BSD_Socket''"
| "transport_backend_as_str MockBackend = ''Mock_Synthetic''"

record TransportStats =
  rx_packets :: u64
  rx_bytes :: u64
  rx_dropped :: u64
  ring_overruns :: u64
  ts_poll_calls :: u64
  ts_empty_polls :: u64

definition transport_stats_default :: TransportStats where
  "transport_stats_default = \<lparr>rx_packets = 0, rx_bytes = 0, rx_dropped = 0, ring_overruns = 0, ts_poll_calls = 0,
     ts_empty_polls = 0\<rparr>"

datatype TransportError =
    Io string | BufferOverflow string | UnsupportedPlatform string | DeviceNotFound string
  | NotConnected | PermissionDenied

fun error_to_string :: "TransportError \<Rightarrow> string" where
  "error_to_string (Io msg) = ''I/O Error: '' @ msg"
| "error_to_string (BufferOverflow msg) = ''Buffer Overflow: '' @ msg"
| "error_to_string (UnsupportedPlatform msg) = ''Unsupported Platform: '' @ msg"
| "error_to_string (DeviceNotFound msg) = ''Device Not Found: '' @ msg"
| "error_to_string NotConnected = ''Transport is not connected or active''"
| "error_to_string PermissionDenied = ''Permission denied for raw/bypass socket''"

type_synonym packets = "(bytes \<times> u64) list"
type_synonym poll_result = "(TransportError + nat) \<times> (bytes \<times> u64) list"

definition bytes_of :: "packets \<Rightarrow> u64" where
  "bytes_of out = sum_list (map (\<lambda>p. of_nat (length (fst p))) out)"

abbreviation count_call :: "TransportStats \<Rightarrow> TransportStats" where
  "count_call st \<equiv> st\<lparr>ts_poll_calls := ts_poll_calls st + 1\<rparr>"

abbreviation count_empty :: "TransportStats \<Rightarrow> TransportStats" where
  "count_empty st \<equiv> st\<lparr>ts_empty_polls := ts_empty_polls st + 1\<rparr>"

abbreviation count_rx :: "TransportStats \<Rightarrow> u64 \<Rightarrow> u64 \<Rightarrow> TransportStats" where
  "count_rx st n b \<equiv> st\<lparr>rx_packets := rx_packets st + n, rx_bytes := rx_bytes st + b\<rparr>"

section \<open>The mock queue\<close>

record MockPacket =
  mp_payload :: bytes
  mp_timestamp_ns :: u64

record MockNetworkTransport =
  mt_queue :: "MockPacket list"
  mt_stats :: TransportStats
  mt_is_active :: bool

definition mock_new :: MockNetworkTransport where
  "mock_new = \<lparr>mt_queue = [], mt_stats = transport_stats_default, mt_is_active = True\<rparr>"

definition push_packet :: "MockNetworkTransport \<Rightarrow> bytes \<Rightarrow> u64 \<Rightarrow> MockNetworkTransport" where
  "push_packet t payload ts = t\<lparr>mt_queue := mt_queue t @ [\<lparr>mp_payload = payload, mp_timestamp_ns = ts\<rparr>]\<rparr>"

definition mock_set_active :: "MockNetworkTransport \<Rightarrow> bool \<Rightarrow> MockNetworkTransport" where
  "mock_set_active t active = t\<lparr>mt_is_active := active\<rparr>"

definition mock_queue_len :: "MockNetworkTransport \<Rightarrow> nat" where
  "mock_queue_len t = length (mt_queue t)"

text \<open>\<open>for _ in 0..count { if let Some(pkt) = queue.pop_front() \<dots> }\<close>, with the byte count and the number
  processed.\<close>

fun mock_drain :: "nat \<Rightarrow> MockPacket list \<Rightarrow> packets \<Rightarrow> u64 \<Rightarrow> nat \<Rightarrow> MockPacket list \<times> packets \<times> u64 \<times> nat" where
  "mock_drain 0 q out b k = (q, out, b, k)"
| "mock_drain (Suc c) [] out b k = mock_drain c [] out b k"
| "mock_drain (Suc c) (p # q) out b k =
     mock_drain c q (out @ [(mp_payload p, mp_timestamp_ns p)]) (b + of_nat (length (mp_payload p))) (k + 1)"

definition mock_poll_batch :: "nat \<Rightarrow> MockNetworkTransport \<Rightarrow> MockNetworkTransport \<times> poll_result" where
  "mock_poll_batch max_batch t =
     (if \<not> mt_is_active t then (t, Inl NotConnected, [])
      else let t = t\<lparr>mt_stats := count_call (mt_stats t)\<rparr>
           in if mt_queue t = [] then (t\<lparr>mt_stats := count_empty (mt_stats t)\<rparr>, Inr 0, [])
              else case mock_drain (min max_batch (length (mt_queue t))) (mt_queue t) [] 0 0 of
                     (q, out, batch_bytes, processed) \<Rightarrow>
                       (t\<lparr>mt_queue := q, mt_stats := count_rx (mt_stats t) (of_nat processed) batch_bytes\<rparr>,
                        Inr processed, out))"

section \<open>The bridge adapter\<close>

record SolarflareEfViTransport =
  sf_bridge :: KernelBypassBridge
  sf_interface_name :: string
  sf_bind_addr :: string
  sf_stats :: TransportStats
  sf_is_active :: bool

definition solarflare_new :: "string \<Rightarrow> string \<Rightarrow> SolarflareEfViTransport outcome" where
  "solarflare_new interface_name bind_addr =
     and_ret (bridge_new DEFAULT_RING_CAPACITY \<lparr>backend = SolarflareEfVi, bp_ring_capacity = DEFAULT_RING_CAPACITY,
         interface_id = 0, enable_hardware_timestamping = True, promiscuous_mode = False\<rparr>)
       (\<lambda>b. Ret \<lparr>sf_bridge = b, sf_interface_name = interface_name, sf_bind_addr = bind_addr,
                 sf_stats = transport_stats_default, sf_is_active = True\<rparr>)"

definition sf_inject_packet ::
  "SolarflareEfViTransport \<Rightarrow> bytes \<Rightarrow> u64 \<Rightarrow> SolarflareEfViTransport \<times> (TransportError + unit)" where
  "sf_inject_packet t payload ts =
     (case inject_packet (sf_bridge t) payload ts of
        (b, Inl e) \<Rightarrow> (t\<lparr>sf_bridge := b\<rparr>, Inl (BufferOverflow e))
      | (b, Inr u) \<Rightarrow> (t\<lparr>sf_bridge := b\<rparr>, Inr u))"

text \<open>The callback around the handler: a missing hardware timestamp is replaced by the wall clock, whose
  readings are the argument \<open>clock\<close>.\<close>

fun stamp :: "u64 \<Rightarrow> bytes \<times> u64 \<Rightarrow> bytes \<times> u64" where
  "stamp now (payload, hw_ts) = (payload, if hw_ts > 0 then hw_ts else now)"

definition sf_poll_batch :: "u64 \<Rightarrow> nat \<Rightarrow> SolarflareEfViTransport \<Rightarrow> SolarflareEfViTransport \<times> poll_result" where
  "sf_poll_batch now max_batch t =
     (if \<not> sf_is_active t then (t, Inl NotConnected, [])
      else let t = t\<lparr>sf_stats := count_call (sf_stats t)\<rparr>
           in case poll_rx_burst (sf_bridge t) max_batch of
                (b, out, polled) \<Rightarrow>
                  let t = t\<lparr>sf_bridge := b\<rparr>; out = map (stamp now) out
                  in (if polled = 0 then t\<lparr>sf_stats := count_empty (sf_stats t)\<rparr>
                      else t\<lparr>sf_stats := count_rx (sf_stats t) (of_nat (length out)) (bytes_of out)\<rparr>,
                      Inr polled, out))"

definition sf_active :: "SolarflareEfViTransport \<Rightarrow> bool" where
  "sf_active t \<longleftrightarrow> sf_is_active t \<and> kb_is_active (sf_bridge t)"

section \<open>Sockets\<close>

datatype recv_result = Datagram bytes u64 | RecvWouldBlock | RecvInterrupted | RecvError string

text \<open>A receive into a buffer keeps what fits; a socket with nothing left to tell would block.\<close>

fun recv_from :: "nat \<Rightarrow> recv_result list \<Rightarrow> recv_result list \<times> recv_result" where
  "recv_from cap [] = ([], RecvWouldBlock)"
| "recv_from cap (Datagram payload now # sock) = (sock, Datagram (take cap payload) now)"
| "recv_from cap (r # sock) = (sock, r)"

definition SOCKET_RX_BUFFER_SIZE :: nat where
  "SOCKET_RX_BUFFER_SIZE = 65536"

record StandardSocketTransport =
  ss_socket :: "recv_result list"
  ss_enable_busy_poll :: bool
  ss_stats :: TransportStats
  ss_is_active :: bool

text \<open>Binding a socket is an action of the operating system: an error text or the socket.\<close>

type_synonym udp_bind = "string \<Rightarrow> string + recv_result list"

definition socket_bind :: "udp_bind \<Rightarrow> string \<Rightarrow> bool \<Rightarrow> TransportError + StandardSocketTransport" where
  "socket_bind bind bind_addr busy =
     (case bind bind_addr of
        Inl e \<Rightarrow> Inl (Io e)
      | Inr sock \<Rightarrow> Inr \<lparr>ss_socket = sock, ss_enable_busy_poll = busy, ss_stats = transport_stats_default, ss_is_active = True\<rparr>)"

fun socket_loop :: "nat \<Rightarrow> recv_result list \<Rightarrow> packets \<Rightarrow> recv_result list \<times> string option \<times> packets" where
  "socket_loop 0 sock out = (sock, None, out)"
| "socket_loop (Suc c) sock out =
     (case recv_from SOCKET_RX_BUFFER_SIZE sock of
        (sock, Datagram payload now) \<Rightarrow> socket_loop c sock (out @ [(payload, now)])
      | (sock, RecvWouldBlock) \<Rightarrow> (sock, None, out)
      | (sock, RecvInterrupted) \<Rightarrow> socket_loop c sock out
      | (sock, RecvError e) \<Rightarrow> (sock, Some e, out))"

definition socket_poll_batch :: "nat \<Rightarrow> StandardSocketTransport \<Rightarrow> StandardSocketTransport \<times> poll_result" where
  "socket_poll_batch max_batch t =
     (if \<not> ss_is_active t then (t, Inl NotConnected, [])
      else let t = t\<lparr>ss_stats := count_call (ss_stats t)\<rparr>
           in case socket_loop max_batch (ss_socket t) [] of
                (sock, Some e, out) \<Rightarrow> (t\<lparr>ss_socket := sock\<rparr>, Inl (Io e), out)
              | (sock, None, out) \<Rightarrow>
                  let t = t\<lparr>ss_socket := sock\<rparr>; count = length out
                  in (if count = 0 then t\<lparr>ss_stats := count_empty (ss_stats t)\<rparr>
                      else t\<lparr>ss_stats := count_rx (ss_stats t) (of_nat count) (bytes_of out)\<rparr>,
                      Inr count, out))"

section \<open>The completion ring\<close>

definition IO_URING_ENTRY_SIZE :: nat where
  "IO_URING_ENTRY_SIZE = 2048"

definition DEFAULT_IO_URING_ENTRIES :: nat where
  "DEFAULT_IO_URING_ENTRIES = 1024"

record CompletionEntry =
  ce_buffer_idx :: u32
  ce_length :: u32
  ce_timestamp_ns :: u64

record IoUringTransport =
  iu_bind_addr :: string
  iu_socket :: "recv_result list option"
  fixed_buffer_pool :: "bytes list"
  cq_entries :: "CompletionEntry list"
  free_buffer_indices :: "u32 list"  \<comment> \<open>a stack, its top at the end\<close>
  iu_entries :: nat
  iu_stats :: TransportStats
  iu_is_active :: bool

definition uring_bind :: "udp_bind \<Rightarrow> string \<Rightarrow> nat \<Rightarrow> TransportError + IoUringTransport" where
  "uring_bind bind bind_addr entries =
     (let entries = (if entries = 0 then DEFAULT_IO_URING_ENTRIES else next_power_of_two entries);
          ring = (\<lambda>sock. \<lparr>iu_bind_addr = bind_addr, iu_socket = sock,
            fixed_buffer_pool = replicate entries (replicate IO_URING_ENTRY_SIZE 0), cq_entries = [],
            free_buffer_indices = map of_nat [0..<entries], iu_entries = entries, iu_stats = transport_stats_default,
            iu_is_active = True\<rparr>)
      in if bind_addr \<noteq> [] \<and> bind_addr \<noteq> ''mock''
         then case bind bind_addr of Inl e \<Rightarrow> Inl (Io e) | Inr sock \<Rightarrow> Inr (ring (Some sock))
         else Inr (ring None))"

definition uring_complete :: "IoUringTransport \<Rightarrow> bytes \<Rightarrow> u64 \<Rightarrow> IoUringTransport" where
  "uring_complete t data ts =
     (let buf_idx = last (free_buffer_indices t);
          k = unat buf_idx
      in t\<lparr>free_buffer_indices := butlast (free_buffer_indices t),
           fixed_buffer_pool := (fixed_buffer_pool t)[k := write_at (fixed_buffer_pool t ! k) 0 data],
           cq_entries := cq_entries t @ [\<lparr>ce_buffer_idx = buf_idx, ce_length = of_nat (length data), ce_timestamp_ns = ts\<rparr>]\<rparr>)"

definition uring_inject_packet :: "IoUringTransport \<Rightarrow> bytes \<Rightarrow> u64 \<Rightarrow> IoUringTransport \<times> (TransportError + unit)" where
  "uring_inject_packet t payload ts =
     (if free_buffer_indices t = []
      then (t\<lparr>iu_stats := (iu_stats t)\<lparr>ring_overruns := ring_overruns (iu_stats t) + 1\<rparr>\<rparr>,
            Inl (BufferOverflow ''io_uring fixed buffer pool saturated''))
      else (uring_complete t (take (min (length payload) IO_URING_ENTRY_SIZE) payload) ts, Inr ()))"

text \<open>\<open>poll_socket_into_ring\<close>: a buffer is taken before each receive and given back when there is nothing.\<close>

fun uring_receive :: "nat \<Rightarrow> recv_result list \<Rightarrow> IoUringTransport \<Rightarrow> recv_result list \<times> IoUringTransport" where
  "uring_receive 0 sock t = (sock, t)"
| "uring_receive (Suc c) sock t =
     (if free_buffer_indices t = [] then (sock, t)
      else case recv_from IO_URING_ENTRY_SIZE sock of
             (sock, Datagram payload now) \<Rightarrow> uring_receive c sock (uring_complete t payload now)
           | (sock, RecvWouldBlock) \<Rightarrow> (sock, t)
           | (sock, RecvInterrupted) \<Rightarrow> (sock, t)
           | (sock, RecvError e) \<Rightarrow> (sock, t))"

definition poll_socket_into_ring :: "nat \<Rightarrow> IoUringTransport \<Rightarrow> IoUringTransport" where
  "poll_socket_into_ring max_batch t =
     (case iu_socket t of
        None \<Rightarrow> t
      | Some sock \<Rightarrow> (case uring_receive max_batch sock t of (sock, t) \<Rightarrow> t\<lparr>iu_socket := Some sock\<rparr>))"

fun uring_drain :: "nat \<Rightarrow> IoUringTransport \<Rightarrow> packets \<Rightarrow> u64 \<Rightarrow> IoUringTransport \<times> packets \<times> u64" where
  "uring_drain 0 t out b = (t, out, b)"
| "uring_drain (Suc c) t out b =
     (let cq = hd (cq_entries t);
          slice = take (unat (ce_length cq)) (fixed_buffer_pool t ! unat (ce_buffer_idx cq));
          t = t\<lparr>cq_entries := tl (cq_entries t), free_buffer_indices := free_buffer_indices t @ [ce_buffer_idx cq]\<rparr>
      in uring_drain c t (out @ [(slice, ce_timestamp_ns cq)]) (b + ucast (ce_length cq)))"

definition uring_poll_batch :: "nat \<Rightarrow> IoUringTransport \<Rightarrow> IoUringTransport \<times> poll_result" where
  "uring_poll_batch max_batch t =
     (if \<not> iu_is_active t then (t, Inl NotConnected, [])
      else let t = t\<lparr>iu_stats := count_call (iu_stats t)\<rparr>;
               t = poll_socket_into_ring max_batch t
           in if cq_entries t = [] then (t\<lparr>iu_stats := count_empty (iu_stats t)\<rparr>, Inr 0, [])
              else let count = min max_batch (length (cq_entries t))
                   in case uring_drain count t [] 0 of
                        (t, out, batch_bytes) \<Rightarrow>
                          (t\<lparr>iu_stats := count_rx (iu_stats t) (of_nat count) batch_bytes\<rparr>, Inr count, out))"

section \<open>The factory\<close>

record TransportConfig =
  tc_bind_addr :: string
  tc_interface :: string
  preferred_backend :: "TransportBackendKind option"
  batch_size :: nat
  enable_busy_poll :: bool
  tc_ring_capacity :: nat

definition transport_config_default :: TransportConfig where
  "transport_config_default = \<lparr>tc_bind_addr = ''0.0.0.0:0'', tc_interface = ''eth0'', preferred_backend = None,
     batch_size = 64, enable_busy_poll = False, tc_ring_capacity = 2048\<rparr>"

datatype transport =
    TSolarflare SolarflareEfViTransport
  | TIoUring IoUringTransport
  | TSocket StandardSocketTransport
  | TMock MockNetworkTransport

fun backend_kind :: "transport \<Rightarrow> TransportBackendKind" where
  "backend_kind (TSolarflare _) = SolarflareEfViBackend"
| "backend_kind (TIoUring _) = IoUringBackend"
| "backend_kind (TSocket _) = StandardSocketBackend"
| "backend_kind (TMock _) = MockBackend"

definition create_solarflare :: "TransportConfig \<Rightarrow> (TransportError + transport) outcome" where
  "create_solarflare config =
     and_ret (solarflare_new (tc_interface config) (tc_bind_addr config)) (\<lambda>t. Ret (Inr (TSolarflare t)))"

definition create_explicit :: "udp_bind \<Rightarrow> TransportBackendKind \<Rightarrow> TransportConfig \<Rightarrow> (TransportError + transport) outcome" where
  "create_explicit bind kind config =
     (case kind of
        SolarflareEfViBackend \<Rightarrow> create_solarflare config
      | IoUringBackend \<Rightarrow> Ret (map_sum id TIoUring (uring_bind bind (tc_bind_addr config) (tc_ring_capacity config)))
      | StandardSocketBackend \<Rightarrow> Ret (map_sum id TSocket (socket_bind bind (tc_bind_addr config) (enable_busy_poll config)))
      | MockBackend \<Rightarrow> Ret (Inr (TMock mock_new)))"

definition create_optimal_transport ::
  "udp_bind \<Rightarrow> udp_bind \<Rightarrow> (string \<Rightarrow> string option) \<Rightarrow> TransportConfig \<Rightarrow> MockHardwareProbe \<Rightarrow>
   (TransportError + transport) outcome" where
  "create_optimal_transport bind rebind env config probe =
     (case preferred_backend config of
        Some preferred \<Rightarrow> create_explicit bind preferred config
      | None \<Rightarrow>
          (case profile_tier (negotiate_profile env probe None) of
             Tier3EnterpriseBareMetal \<Rightarrow> create_solarflare config
           | Tier2CloudVirtualized \<Rightarrow>
               (case uring_bind bind (tc_bind_addr config) (tc_ring_capacity config) of
                  Inr t \<Rightarrow> Ret (Inr (TIoUring t))
                | Inl _ \<Rightarrow> Ret (map_sum id TSocket (socket_bind rebind (tc_bind_addr config) (enable_busy_poll config))))
           | Tier1MidRange \<Rightarrow>
               Ret (map_sum id TSocket (socket_bind bind (tc_bind_addr config) (enable_busy_poll config)))))"

lemma next_power_of_two_least:
  assumes "n \<le> 2 ^ k" "k < 64"
  shows "next_power_of_two n \<le> 2 ^ k"
proof (cases "find (\<lambda>k. n \<le> 2 ^ k) [0..<64]")
  case None
  then show ?thesis by (simp add: next_power_of_two_def)
next
  case (Some j)
  then have "\<not> k < j" using assms by (auto simp: find_Some_iff)
  then have "(2 :: nat) ^ j \<le> 2 ^ k" by (intro power_increasing) simp_all
  then show ?thesis by (simp add: next_power_of_two_def Some)
qed

text \<open>A run of polls, up to the first error.\<close>

fun run_polls :: "(nat \<Rightarrow> 't \<Rightarrow> 't \<times> poll_result) \<Rightarrow> nat list \<Rightarrow> 't \<Rightarrow> ('t \<times> packets) option" where
  "run_polls poll [] t = Some (t, [])"
| "run_polls poll (m # ms) t =
     (case poll m t of
        (t', Inl e, out) \<Rightarrow> None
      | (t', Inr k, out) \<Rightarrow> map_option (apsnd ((@) out)) (run_polls poll ms t'))"

section \<open>The contract of a transport\<close>

locale network_transport =
  fixes poll :: "nat \<Rightarrow> 't \<Rightarrow> 't \<times> poll_result"
    and stats :: "'t \<Rightarrow> TransportStats"
    and active :: "'t \<Rightarrow> bool"
    and inv :: "'t \<Rightarrow> bool"
  assumes inactive: "\<not> active t \<Longrightarrow> poll m t = (t, Inl NotConnected, [])"
    and poll_inv: "inv t \<Longrightarrow> poll m t = (t', res, out) \<Longrightarrow> inv t' \<and> active t' = active t"
    and poll_counts: "inv t \<Longrightarrow> poll m t = (t', Inr k, out) \<Longrightarrow>
       k = length out \<and> k \<le> m \<and> rx_packets (stats t') = rx_packets (stats t) + of_nat k \<and>
       rx_bytes (stats t') = rx_bytes (stats t) + bytes_of out \<and>
       ts_poll_calls (stats t') = ts_poll_calls (stats t) + 1"
begin

lemma run_counts:
  "inv t \<Longrightarrow> run_polls poll ms t = Some (t', out) \<Longrightarrow>
   inv t' \<and> rx_packets (stats t') = rx_packets (stats t) + of_nat (length out) \<and>
   rx_bytes (stats t') = rx_bytes (stats t) + bytes_of out \<and>
   ts_poll_calls (stats t') = ts_poll_calls (stats t) + of_nat (length ms)"
proof (induction ms arbitrary: t out)
  case Nil
  then show ?case by (auto simp: bytes_of_def)
next
  case (Cons m ms)
  obtain t1 res out1 where p: "poll m t = (t1, res, out1)" by (cases "poll m t")
  then obtain k out2 where k: "res = Inr k" "run_polls poll ms t1 = Some (t', out2)" "out = out1 @ out2"
    using Cons.prems(2) by (cases res) auto
  have "inv t1" using poll_inv [OF Cons.prems(1) p] by simp
  from Cons.IH [OF this k(2)] poll_counts [OF Cons.prems(1) p [unfolded k(1)]] k(3) show ?case
    by (simp add: bytes_of_def)
qed

end

lemma mock_drain_eq:
  "c \<le> length q \<Longrightarrow> mock_drain c q out b k =
     (drop c q, out @ map (\<lambda>p. (mp_payload p, mp_timestamp_ns p)) (take c q),
      b + bytes_of (map (\<lambda>p. (mp_payload p, mp_timestamp_ns p)) (take c q)), k + c)"
  by (induction c q out b k rule: mock_drain.induct) (simp_all add: bytes_of_def)

interpretation mock: network_transport mock_poll_batch mt_stats mt_is_active "\<lambda>_. True"
proof
  fix t :: MockNetworkTransport and t' m res out k
  show "mock_poll_batch m t = (t, Inl NotConnected, [])" if "\<not> mt_is_active t"
    using that by (simp add: mock_poll_batch_def)
  show "True \<and> mt_is_active t' = mt_is_active t" if "mock_poll_batch m t = (t', res, out)"
    using that by (auto simp: mock_poll_batch_def Let_def mock_drain_eq split: if_splits)
  show "k = length out \<and> k \<le> m \<and> rx_packets (mt_stats t') = rx_packets (mt_stats t) + of_nat k \<and>
       rx_bytes (mt_stats t') = rx_bytes (mt_stats t) + bytes_of out \<and>
       ts_poll_calls (mt_stats t') = ts_poll_calls (mt_stats t) + 1"
    if "mock_poll_batch m t = (t', Inr k, out)"
    using that by (auto simp: mock_poll_batch_def Let_def mock_drain_eq bytes_of_def split: if_splits)
qed

definition sf_inv :: "SolarflareEfViTransport \<Rightarrow> bool" where
  "sf_inv t \<longleftrightarrow> (\<exists>pend credit. bridge_inv DEFAULT_RING_CAPACITY (sf_bridge t) pend credit)"

lemma ring_capacity_power: "is_power_of_two DEFAULT_RING_CAPACITY"
  unfolding is_power_of_two_def list_ex_iff by (rule bexI [of _ 11]) (simp_all add: DEFAULT_RING_CAPACITY_def)

lemma solarflare_new_inv:
  assumes "solarflare_new ifname addr = Ret t"
  shows "sf_inv t \<and> sf_stats t = transport_stats_default \<and> sf_active t \<and>
    bridge_inv DEFAULT_RING_CAPACITY (sf_bridge t) [] DEFAULT_RING_CAPACITY"
proof -
  obtain config b where b: "bridge_new DEFAULT_RING_CAPACITY config = Ret b" "sf_bridge t = b"
    "sf_stats t = transport_stats_default" "sf_is_active t"
    using assms by (cases "bridge_new DEFAULT_RING_CAPACITY \<lparr>backend = SolarflareEfVi, bp_ring_capacity = DEFAULT_RING_CAPACITY,
         interface_id = 0, enable_hardware_timestamping = True, promiscuous_mode = False\<rparr>")
      (auto simp: solarflare_new_def)
  have "bridge_inv DEFAULT_RING_CAPACITY b [] DEFAULT_RING_CAPACITY"
    by (rule bridge_new_inv [OF b(1)]) (simp add: DEFAULT_RING_CAPACITY_def)
  moreover have "kb_is_active b" using b(1) by (auto simp: bridge_new_def refill_rx_ring_def Let_def split: if_splits prod.splits)
  ultimately show ?thesis using b by (auto simp: sf_inv_def sf_active_def)
qed

lemma sf_poll_eq:
  assumes "bridge_inv DEFAULT_RING_CAPACITY (sf_bridge t) pend credit" "sf_is_active t"
    and "sf_poll_batch now m t = (t', res, out)"
  shows "\<exists>credit'. bridge_inv DEFAULT_RING_CAPACITY (sf_bridge t') (drop m pend) credit' \<and>
    sf_is_active t' \<and> res = Inr (length out) \<and> out = map (stamp now) (take m pend) \<and>
    rx_packets (sf_stats t') = rx_packets (sf_stats t) + of_nat (length out) \<and>
    rx_bytes (sf_stats t') = rx_bytes (sf_stats t) + bytes_of out \<and>
    ts_poll_calls (sf_stats t') = ts_poll_calls (sf_stats t) + 1"
proof -
  obtain b pk k where p: "poll_rx_burst (sf_bridge t) m = (b, pk, k)" by (cases "poll_rx_burst (sf_bridge t) m")
  note * = poll_rx_burst_inv [OF assms(1) p]
  have k: "take k pend = take m pend" "drop k pend = drop m pend" "length (take m pend) = k"
    using * by (auto simp: min_def)
  show ?thesis
    using assms(2,3) * k by (auto simp: sf_poll_batch_def p Let_def bytes_of_def)
qed

interpretation sf: network_transport "sf_poll_batch now" sf_stats sf_is_active sf_inv for now
proof
  fix t :: SolarflareEfViTransport and t' m res out k
  show inact: "sf_poll_batch now m t = (t, Inl NotConnected, [])" if "\<not> sf_is_active t"
    using that by (simp add: sf_poll_batch_def)
  show "sf_inv t' \<and> sf_is_active t' = sf_is_active t" if inv: "sf_inv t" and p: "sf_poll_batch now m t = (t', res, out)"
  proof (cases "sf_is_active t")
    case True
    obtain pend credit where "bridge_inv DEFAULT_RING_CAPACITY (sf_bridge t) pend credit"
      using inv by (auto simp: sf_inv_def)
    from sf_poll_eq [OF this True p] show ?thesis using True by (auto simp: sf_inv_def)
  next
    case False
    then show ?thesis using inv p inact by simp
  qed
  show "k = length out \<and> k \<le> m \<and> rx_packets (sf_stats t') = rx_packets (sf_stats t) + of_nat k \<and>
       rx_bytes (sf_stats t') = rx_bytes (sf_stats t) + bytes_of out \<and>
       ts_poll_calls (sf_stats t') = ts_poll_calls (sf_stats t) + 1"
    if inv: "sf_inv t" and p: "sf_poll_batch now m t = (t', Inr k, out)"
  proof (cases "sf_is_active t")
    case True
    obtain pend credit where "bridge_inv DEFAULT_RING_CAPACITY (sf_bridge t) pend credit"
      using inv by (auto simp: sf_inv_def)
    from sf_poll_eq [OF this True p] show ?thesis using True by (auto simp: sf_inv_def)
  next
    case False
    then show ?thesis using inv p inact by simp
  qed
qed

lemma socket_loop_length: "socket_loop c sock out = (sock', e, out') \<Longrightarrow> length out' \<le> length out + c"
proof (induction c arbitrary: sock out)
  case (Suc c)
  obtain sock1 r where r: "recv_from SOCKET_RX_BUFFER_SIZE sock = (sock1, r)"
    by (cases "recv_from SOCKET_RX_BUFFER_SIZE sock")
  then show ?case using Suc.prems Suc.IH [of sock1] by (cases r) (fastforce simp: r)+
qed simp

interpretation sock: network_transport socket_poll_batch ss_stats ss_is_active "\<lambda>_. True"
proof
  fix t :: StandardSocketTransport and t' m res out k
  obtain s e pk where l: "socket_loop m (ss_socket t) [] = (s, e, pk)" by (cases "socket_loop m (ss_socket t) []")
  show "socket_poll_batch m t = (t, Inl NotConnected, [])" if "\<not> ss_is_active t"
    using that by (simp add: socket_poll_batch_def)
  show "True \<and> ss_is_active t' = ss_is_active t" if "socket_poll_batch m t = (t', res, out)"
    using that by (cases e) (auto simp: socket_poll_batch_def Let_def l split: if_splits)
  show "k = length out \<and> k \<le> m \<and> rx_packets (ss_stats t') = rx_packets (ss_stats t) + of_nat k \<and>
       rx_bytes (ss_stats t') = rx_bytes (ss_stats t) + bytes_of out \<and>
       ts_poll_calls (ss_stats t') = ts_poll_calls (ss_stats t) + 1"
    if "socket_poll_batch m t = (t', Inr k, out)"
    using that socket_loop_length [OF l]
    by (cases e) (auto simp: socket_poll_batch_def Let_def l bytes_of_def split: if_splits)
qed

section \<open>The completion ring as a queue\<close>

definition completed :: "bytes list \<Rightarrow> CompletionEntry \<Rightarrow> bytes \<times> u64" where
  "completed pool c = (take (unat (ce_length c)) (pool ! unat (ce_buffer_idx c)), ce_timestamp_ns c)"

text \<open>The ring holds the packets \<open>pend\<close>; every buffer is either free or holds one of them.\<close>

definition uring_holds :: "IoUringTransport \<Rightarrow> packets \<Rightarrow> bool" where
  "uring_holds t pend \<longleftrightarrow>
     length (fixed_buffer_pool t) = iu_entries t \<and> (\<forall>b \<in> set (fixed_buffer_pool t). length b = IO_URING_ENTRY_SIZE) \<and>
     length (free_buffer_indices t) + length (cq_entries t) = iu_entries t \<and>
     distinct (free_buffer_indices t @ map ce_buffer_idx (cq_entries t)) \<and>
     (\<forall>i \<in> set (free_buffer_indices t @ map ce_buffer_idx (cq_entries t)). unat i < iu_entries t) \<and>
     (\<forall>c \<in> set (cq_entries t). unat (ce_length c) \<le> IO_URING_ENTRY_SIZE) \<and>
     map (completed (fixed_buffer_pool t)) (cq_entries t) = pend"

lemma uring_complete_holds:
  assumes h: "uring_holds t pend" and free: "free_buffer_indices t \<noteq> []" and len: "length data \<le> IO_URING_ENTRY_SIZE"
  shows "uring_holds (uring_complete t data ts) (pend @ [(data, ts)])"
proof -
  obtain fs i where fs: "free_buffer_indices t = fs @ [i]" using free by (cases "free_buffer_indices t" rule: rev_cases) auto
  note u = h [unfolded uring_holds_def]
  let ?pool = "(fixed_buffer_pool t)[unat i := write_at (fixed_buffer_pool t ! unat i) 0 data]"
  let ?c = "\<lparr>ce_buffer_idx = i, ce_length = of_nat (length data), ce_timestamp_ns = ts\<rparr>"
  have i: "unat i < length (fixed_buffer_pool t)" using u fs by simp
  have frame: "length (fixed_buffer_pool t ! unat i) = IO_URING_ENTRY_SIZE" using u i by simp
  have l: "unat (of_nat (length data) :: u32) = length data"
    using len by (intro unat_of_nat_small) (simp add: IO_URING_ENTRY_SIZE_def)
  have new: "completed ?pool ?c = (data, ts)"
    using i frame len l by (simp add: completed_def write_at_def)
  have old: "completed ?pool c = completed (fixed_buffer_pool t) c" if "c \<in> set (cq_entries t)" for c
  proof -
    have "ce_buffer_idx c \<noteq> i" using u fs that by auto
    then have "unat (ce_buffer_idx c) \<noteq> unat i" by (metis word_unat_eq_iff)
    then show ?thesis by (simp add: completed_def)
  qed
  have "map (completed ?pool) (cq_entries t) = map (completed (fixed_buffer_pool t)) (cq_entries t)"
    by (rule map_cong [OF refl old])
  then have pend: "map (completed ?pool) (cq_entries t @ [?c]) = pend @ [(data, ts)]" using u new by simp
  have pool: "\<forall>b \<in> set ?pool. length b = IO_URING_ENTRY_SIZE"
    using u frame len by (auto simp: write_at_def dest!: set_update_subset_insert [THEN subsetD])
  have t': "uring_complete t data ts = t\<lparr>free_buffer_indices := fs, fixed_buffer_pool := ?pool, cq_entries := cq_entries t @ [?c]\<rparr>"
    by (simp add: uring_complete_def Let_def fs)
  show ?thesis
    unfolding uring_holds_def t' using u fs pool pend len l by simp
qed

lemma uring_complete_fields [simp]:
  "iu_stats (uring_complete t data ts) = iu_stats t" "iu_is_active (uring_complete t data ts) = iu_is_active t"
  "iu_entries (uring_complete t data ts) = iu_entries t" "iu_socket (uring_complete t data ts) = iu_socket t"
  by (simp_all add: uring_complete_def Let_def)

lemma uring_drain_holds:
  assumes "uring_holds t pend" "c \<le> length pend"
  shows "\<exists>t'. uring_drain c t out b = (t', out @ take c pend, b + bytes_of (take c pend)) \<and> uring_holds t' (drop c pend) \<and>
    iu_stats t' = iu_stats t \<and> iu_is_active t' = iu_is_active t \<and> iu_entries t' = iu_entries t"
  using assms
proof (induction c arbitrary: t pend out b)
  case 0
  then show ?case by (simp add: bytes_of_def)
next
  case (Suc c)
  note u = Suc.prems(1) [unfolded uring_holds_def]
  obtain p ps where pend: "pend = p # ps" using Suc.prems(2) by (cases pend) auto
  then obtain cq cqs where cq: "cq_entries t = cq # cqs" "completed (fixed_buffer_pool t) cq = p"
    using u by (cases "cq_entries t") auto
  let ?t = "t\<lparr>cq_entries := cqs, free_buffer_indices := free_buffer_indices t @ [ce_buffer_idx cq]\<rparr>"
  have h: "uring_holds ?t ps" using u cq pend by (auto simp: uring_holds_def)
  have "length (fst p) = unat (ce_length cq)" using u cq by (auto simp: completed_def)
  then have "ucast (ce_length cq) = (of_nat (length (fst p)) :: u64)" by simp
  moreover have "(take (unat (ce_length cq)) (fixed_buffer_pool t ! unat (ce_buffer_idx cq)), ce_timestamp_ns cq) = p"
    using cq by (simp add: completed_def)
  ultimately have "uring_drain (Suc c) t out b = uring_drain c ?t (out @ [p]) (b + of_nat (length (fst p)))"
    using cq by (simp add: Let_def)
  with Suc.IH [OF h, of "out @ [p]" "b + of_nat (length (fst p))"] Suc.prems(2) pend show ?case
    by (auto simp: bytes_of_def add.assoc)
qed

lemma uring_receive_holds:
  "uring_holds t pend \<Longrightarrow> uring_receive c sock t = (sock', t') \<Longrightarrow>
   (\<exists>new. uring_holds t' (pend @ new) \<and> length new \<le> c) \<and>
   iu_stats t' = iu_stats t \<and> iu_is_active t' = iu_is_active t \<and> iu_entries t' = iu_entries t"
proof (induction c arbitrary: sock t pend)
  case 0
  then show ?case by (auto intro: exI [of _ "[]"])
next
  case (Suc c)
  obtain sock1 r where r: "recv_from IO_URING_ENTRY_SIZE sock = (sock1, r)" by (cases "recv_from IO_URING_ENTRY_SIZE sock")
  have stop: ?case if "t' = t" using that Suc.prems(1) by (auto intro: exI [of _ "[]"])
  show ?case
  proof (cases "free_buffer_indices t = []")
    case False
    show ?thesis
    proof (cases r)
      case (Datagram payload now)
      have len: "length payload \<le> IO_URING_ENTRY_SIZE"
        using r Datagram by (cases "(IO_URING_ENTRY_SIZE, sock)" rule: recv_from.cases) auto
      have more: "uring_receive c sock1 (uring_complete t payload now) = (sock', t')"
        using Suc.prems(2) False r Datagram by simp
      from Suc.IH [OF uring_complete_holds [OF Suc.prems(1) False len] more] obtain new where
        "uring_holds t' ((pend @ [(payload, now)]) @ new)" "length new \<le> c"
        "iu_stats t' = iu_stats t" "iu_is_active t' = iu_is_active t" "iu_entries t' = iu_entries t" by auto
      then show ?thesis by (intro conjI exI [of _ "(payload, now) # new"]) simp_all
    qed (use Suc.prems(2) False r stop in auto)
  qed (use Suc.prems(2) stop in auto)
qed

lemma uring_bind_holds:
  assumes "uring_bind bind addr n = Inr t" "n \<le> 2 ^ 32"
  shows "uring_holds t [] \<and> iu_is_active t \<and> iu_stats t = transport_stats_default \<and> n \<le> iu_entries t \<and> 0 < iu_entries t"
proof -
  define e where "e = (if n = 0 then DEFAULT_IO_URING_ENTRIES else next_power_of_two n)"
  have e: "n \<le> e \<and> 0 < e \<and> e \<le> 2 ^ 32"
  proof (cases "n = 0")
    case False
    have "n \<le> 2 ^ 63" using assms(2) by simp
    from next_power_of_two_props [OF this] next_power_of_two_least [OF assms(2)] False power_of_two_bounds
    show ?thesis by (simp add: e_def)
  qed (simp add: e_def DEFAULT_IO_URING_ENTRIES_def)
  have t: "fixed_buffer_pool t = replicate e (replicate IO_URING_ENTRY_SIZE 0)" "cq_entries t = []"
    "free_buffer_indices t = map of_nat [0..<e]" "iu_entries t = e" "iu_stats t = transport_stats_default" "iu_is_active t"
    using assms(1) by (auto simp: uring_bind_def Let_def e_def [symmetric] split: if_splits sum.splits)
  have small: "unat (of_nat i :: u32) = i" if "i < e" for i using that e by (intro unat_of_nat_small) simp
  then have "inj_on (of_nat :: nat \<Rightarrow> u32) {0..<e}" by (metis atLeastLessThan_iff inj_onI)
  then show ?thesis using t e small by (auto simp: uring_holds_def distinct_map)
qed

lemma uring_poll_holds:
  assumes h: "uring_holds t pend" and act: "iu_is_active t" and p: "uring_poll_batch m t = (t', res, out)"
  shows "\<exists>new. length new \<le> m \<and> (iu_socket t = None \<longrightarrow> new = []) \<and> out = take m (pend @ new) \<and> res = Inr (length out) \<and>
    uring_holds t' (drop m (pend @ new)) \<and> iu_is_active t' \<and> iu_entries t' = iu_entries t \<and>
    rx_packets (iu_stats t') = rx_packets (iu_stats t) + of_nat (length out) \<and>
    rx_bytes (iu_stats t') = rx_bytes (iu_stats t) + bytes_of out \<and>
    ts_poll_calls (iu_stats t') = ts_poll_calls (iu_stats t) + 1"
proof -
  let ?t0 = "t\<lparr>iu_stats := count_call (iu_stats t)\<rparr>"
  define t1 where "t1 = poll_socket_into_ring m ?t0"
  have h0: "uring_holds ?t0 pend" using h by (simp add: uring_holds_def)
  obtain new where new: "length new \<le> m" "iu_socket t = None \<longrightarrow> new = []" "uring_holds t1 (pend @ new)"
    "iu_stats t1 = count_call (iu_stats t)" "iu_is_active t1" "iu_entries t1 = iu_entries t"
  proof (cases "iu_socket t")
    case None
    then show thesis using that [of "[]"] h0 act by (simp add: t1_def poll_socket_into_ring_def)
  next
    case (Some sock)
    obtain sock' t2 where r: "uring_receive m sock ?t0 = (sock', t2)" by (cases "uring_receive m sock ?t0")
    from uring_receive_holds [OF h0 r] obtain new where n: "uring_holds t2 (pend @ new)" "length new \<le> m"
      "iu_stats t2 = count_call (iu_stats t)" "iu_is_active t2 = iu_is_active t" "iu_entries t2 = iu_entries t" by auto
    have "t1 = t2\<lparr>iu_socket := Some sock'\<rparr>" using Some r by (simp add: t1_def poll_socket_into_ring_def)
    then show thesis using that [of new] n act Some by (simp add: uring_holds_def)
  qed
  have "map (completed (fixed_buffer_pool t1)) (cq_entries t1) = pend @ new" using new(3) by (simp add: uring_holds_def)
  then have len: "length (cq_entries t1) = length (pend @ new)" by (metis length_map)
  show ?thesis
  proof (cases "cq_entries t1 = []")
    case True
    then have "pend @ new = []" using len by simp
    moreover have "t' = t1\<lparr>iu_stats := count_empty (iu_stats t1)\<rparr>" "res = Inr 0" "out = []"
      using p act True by (simp_all add: uring_poll_batch_def Let_def flip: t1_def)
    ultimately show ?thesis using new by (intro exI [of _ "[]"]) (auto simp: uring_holds_def bytes_of_def)
  next
    case False
    define c where "c = min m (length (cq_entries t1))"
    have c: "c \<le> length (pend @ new)" "take c (pend @ new) = take m (pend @ new)" "drop c (pend @ new) = drop m (pend @ new)"
      "length (take m (pend @ new)) = c"
      using len by (auto simp: c_def min_def)
    from uring_drain_holds [OF new(3) c(1), of "[]" 0] obtain t2 where
      d: "uring_drain c t1 [] 0 = (t2, take c (pend @ new), bytes_of (take c (pend @ new)))"
      "uring_holds t2 (drop c (pend @ new))" "iu_stats t2 = iu_stats t1" "iu_is_active t2 = iu_is_active t1"
      "iu_entries t2 = iu_entries t1" by auto
    have "uring_poll_batch m t = (t2\<lparr>iu_stats := count_rx (iu_stats t2) (of_nat c) (bytes_of (take c (pend @ new)))\<rparr>,
        Inr c, take c (pend @ new))"
      using act False d(1) by (simp add: uring_poll_batch_def Let_def flip: t1_def c_def del: take_append)
    then have "t' = t2\<lparr>iu_stats := count_rx (iu_stats t2) (of_nat c) (bytes_of (take m (pend @ new)))\<rparr>"
      "res = Inr c" "out = take m (pend @ new)"
      using p unfolding c(2) by simp_all
    then show ?thesis using new d c by (intro exI [of _ new]) (simp add: uring_holds_def)
  qed
qed

interpretation uring: network_transport uring_poll_batch iu_stats iu_is_active "\<lambda>t. \<exists>pend. uring_holds t pend"
proof
  fix t :: IoUringTransport and t' m res out k
  show inact: "uring_poll_batch m t = (t, Inl NotConnected, [])" if "\<not> iu_is_active t"
    using that by (simp add: uring_poll_batch_def)
  show "(\<exists>pend. uring_holds t' pend) \<and> iu_is_active t' = iu_is_active t"
    if inv: "\<exists>pend. uring_holds t pend" and p: "uring_poll_batch m t = (t', res, out)"
  proof (cases "iu_is_active t")
    case True
    then show ?thesis using inv uring_poll_holds [OF _ True p] by blast
  qed (use inv p inact in simp)
  show "k = length out \<and> k \<le> m \<and> rx_packets (iu_stats t') = rx_packets (iu_stats t) + of_nat k \<and>
       rx_bytes (iu_stats t') = rx_bytes (iu_stats t) + bytes_of out \<and>
       ts_poll_calls (iu_stats t') = ts_poll_calls (iu_stats t) + 1"
    if inv: "\<exists>pend. uring_holds t pend" and p: "uring_poll_batch m t = (t', Inr k, out)"
  proof (cases "iu_is_active t")
    case True
    obtain pend where "uring_holds t pend" using inv by blast
    from uring_poll_holds [OF this True p] show ?thesis by auto
  qed (use inv p inact in simp)
qed

section \<open>Properties\<close>

text \<open>C36: The completion ring is a bounded queue that never loses a buffer: each buffer is free or holds
  one queued packet, so at most \<open>entries\<close> packets are queued and an injection is refused exactly when
  \<open>entries\<close> are. An accepted packet is appended, cut to the entry size. A poll first takes datagrams off
  the socket, if there is one, at most as many as asked for, appends them, and then hands out the oldest
  packets in order, exactly as many as it reports, leaving the rest.\<close>

theorem uring_refines_queue:
  assumes "uring_holds t pend"
  shows "length pend \<le> iu_entries t \<and>
    (case uring_inject_packet t payload ts of
       (t', Inr _) \<Rightarrow> length pend < iu_entries t \<and> uring_holds t' (pend @ [(take IO_URING_ENTRY_SIZE payload, ts)])
     | (t', Inl _) \<Rightarrow> length pend = iu_entries t \<and> uring_holds t' pend \<and>
         ring_overruns (iu_stats t') = ring_overruns (iu_stats t) + 1) \<and>
    (iu_is_active t \<longrightarrow>
       (case uring_poll_batch m t of
          (t', Inr k, out) \<Rightarrow> \<exists>new. length new \<le> m \<and> (iu_socket t = None \<longrightarrow> new = []) \<and>
            out = take m (pend @ new) \<and> k = length out \<and> uring_holds t' (drop m (pend @ new))
        | (t', Inl e, out) \<Rightarrow> False))"
proof (intro conjI impI)
  have "map (completed (fixed_buffer_pool t)) (cq_entries t) = pend" using assms by (simp add: uring_holds_def)
  then have len: "length pend + length (free_buffer_indices t) = iu_entries t"
    using assms by (auto simp: uring_holds_def)
  then show "length pend \<le> iu_entries t" by simp
  show "case uring_inject_packet t payload ts of
       (t', Inr _) \<Rightarrow> length pend < iu_entries t \<and> uring_holds t' (pend @ [(take IO_URING_ENTRY_SIZE payload, ts)])
     | (t', Inl _) \<Rightarrow> length pend = iu_entries t \<and> uring_holds t' pend \<and>
         ring_overruns (iu_stats t') = ring_overruns (iu_stats t) + 1"
  proof (cases "free_buffer_indices t = []")
    case True
    then show ?thesis using len assms by (simp add: uring_inject_packet_def uring_holds_def)
  next
    case False
    have "take (min (length payload) IO_URING_ENTRY_SIZE) payload = take IO_URING_ENTRY_SIZE payload"
      by (simp add: min_def)
    moreover have "length pend < iu_entries t" using False len by (metis length_greater_0_conv less_add_same_cancel1)
    ultimately show ?thesis using False uring_complete_holds [OF assms False, of "take IO_URING_ENTRY_SIZE payload" ts]
      by (simp add: uring_inject_packet_def)
  qed
  obtain t' res out where p: "uring_poll_batch m t = (t', res, out)" by (cases "uring_poll_batch m t")
  show "case uring_poll_batch m t of
          (t', Inr k, out) \<Rightarrow> \<exists>new. length new \<le> m \<and> (iu_socket t = None \<longrightarrow> new = []) \<and>
            out = take m (pend @ new) \<and> k = length out \<and> uring_holds t' (drop m (pend @ new))
        | (t', Inl e, out) \<Rightarrow> False" if "iu_is_active t"
  proof -
    obtain new where n: "length new \<le> m" "iu_socket t = None \<longrightarrow> new = []" "out = take m (pend @ new)" "res = Inr (length out)"
      "uring_holds t' (drop m (pend @ new))"
      using uring_poll_holds [OF assms \<open>iu_is_active t\<close> p] by (elim exE conjE) (rule that; assumption)
    show ?thesis unfolding p n(4) prod.case sum.case
      by (intro exI [of _ new] conjI) (rule n(1) n(2) n(3) n(5) refl)+
  qed
qed

theorem uring_refines_queue_witness:
  "\<exists>t. uring_bind (\<lambda>_. Inl []) ''mock'' 2 = Inr t \<and> uring_holds t [] \<and>
     (\<exists>t'. uring_inject_packet t [5] 9 = (t', Inr ()) \<and> uring_holds t' [([5], 9)])"
proof -
  obtain t where t: "uring_bind (\<lambda>_. Inl []) ''mock'' 2 = Inr t" by (simp add: uring_bind_def Let_def)
  have h: "uring_holds t []" "0 < iu_entries t" using uring_bind_holds [OF t] by simp_all
  obtain t' res where i: "uring_inject_packet t [5] 9 = (t', res)" by (cases "uring_inject_packet t [5] 9")
  have "case (t', res) of (t', Inr _) \<Rightarrow> uring_holds t' [(take IO_URING_ENTRY_SIZE [5], 9)] | (t', Inl _) \<Rightarrow> False"
    using uring_refines_queue [OF h(1), of "[5]" 9 0] h(2) unfolding i by (auto split: sum.splits)
  then have "res = Inr () \<and> uring_holds t' [([5], 9)]" by (cases res) (simp_all add: IO_URING_ENTRY_SIZE_def)
  then show ?thesis using t h(1) i by blast
qed



text \<open>When a socket receive fails after some datagrams of a batch, these have been handed to the handler and
  are not counted.\<close>

theorem socket_error_not_counted:
  "socket_poll_batch 2 \<lparr>ss_socket = [Datagram [1, 2, 3] 7, RecvError e], ss_enable_busy_poll = False,
     ss_stats = transport_stats_default, ss_is_active = True\<rparr> =
   (\<lparr>ss_socket = [], ss_enable_busy_poll = False, ss_stats = count_call transport_stats_default, ss_is_active = True\<rparr>,
    Inl (Io e), [([1, 2, 3], 7)])"
  by (simp add: socket_poll_batch_def Let_def numeral_2_eq_2 SOCKET_RX_BUFFER_SIZE_def)

end
