(* ===== verification/Calibrate.thy ===== *)
theory Calibrate
  imports Hardware_Probe Client_Session Wait_Strategy Shm_Ring
begin

text \<open>
  The calibration program \<open>src/crates/core-engine/src/bin/cmp_calibrate.rs\<close>: the two-thread ping-pong
  whose round trips it times, the percentiles, the grade and recommended tier of a host, the
  configuration file and the command line. What a clock reads is an argument; floats are bit patterns,
  compared as in \<open>Client_Session\<close>, and their rendering with two decimals is a parameter of the
  configuration text. The other measurements are quotients of clock readings and are not modelled.
\<close>

section \<open>The ping-pong\<close>

text \<open>Where the measuring thread and the answering thread are; one step is one access to shared memory.\<close>

datatype pp_main = MStore u64 | MWait u64 | MStop | MBump | MJoin | MDone
datatype pp_resp = RCheck | RLoad | RCompare u64 | RStore u64 | RExit

record ping_pong =
  flag1 :: u64
  flag2 :: u64
  stop_flag :: bool
  main_pc :: pp_main
  resp_pc :: pp_resp
  latencies :: nat  \<comment> \<open>how many have been recorded\<close>

definition pp_init :: "u64 \<Rightarrow> ping_pong" where
  "pp_init iterations = \<lparr>flag1 = 0, flag2 = 0, stop_flag = False,
     main_pc = (if 1 \<le> iterations then MStore 1 else MStop), resp_pc = RCheck, latencies = 0\<rparr>"

definition main_step :: "u64 \<Rightarrow> ping_pong \<Rightarrow> ping_pong" where
  "main_step iterations s =
     (case main_pc s of
        MStore i \<Rightarrow> s\<lparr>flag1 := i, main_pc := MWait i\<rparr>
      | MWait i \<Rightarrow> if flag2 s < i then s
                   else s\<lparr>latencies := latencies s + 1, main_pc := (if i < iterations then MStore (i + 1) else MStop)\<rparr>
      | MStop \<Rightarrow> s\<lparr>stop_flag := True, main_pc := MBump\<rparr>
      | MBump \<Rightarrow> s\<lparr>flag1 := flag1 s + 1, main_pc := MJoin\<rparr>
      | MJoin \<Rightarrow> if resp_pc s = RExit then s\<lparr>main_pc := MDone\<rparr> else s
      | MDone \<Rightarrow> s)"

definition resp_step :: "ping_pong \<Rightarrow> ping_pong" where
  "resp_step s =
     (case resp_pc s of
        RCheck \<Rightarrow> s\<lparr>resp_pc := (if stop_flag s then RExit else RLoad)\<rparr>
      | RLoad \<Rightarrow> s\<lparr>resp_pc := RCompare (flag1 s)\<rparr>
      | RCompare val \<Rightarrow> s\<lparr>resp_pc := (if val > flag2 s then RStore val else RCheck)\<rparr>
      | RStore val \<Rightarrow> s\<lparr>flag2 := val, resp_pc := RCheck\<rparr>
      | RExit \<Rightarrow> s)"

inductive pp_reachable :: "u64 \<Rightarrow> ping_pong \<Rightarrow> bool" for iterations where
  pp_start: "pp_reachable iterations (pp_init iterations)"
| pp_main: "pp_reachable iterations s \<Longrightarrow> pp_reachable iterations (main_step iterations s)"
| pp_resp: "pp_reachable iterations s \<Longrightarrow> pp_reachable iterations (resp_step s)"

text \<open>The percentiles of the recorded latencies; none of them is a NaN, so the sort is by their order. An empty list
  is indexed out of range.\<close>

definition percentile_at :: "f64 list \<Rightarrow> nat \<Rightarrow> f64 outcome" where
  "percentile_at xs p = (let i = length xs * p div 100 in if i < length xs then Ret (xs ! i) else Panic)"

definition core_percentiles :: "f64 list \<Rightarrow> (f64 \<times> f64 \<times> f64) outcome" where
  "core_percentiles latencies_ns =
     (let xs = sort_key f64_key latencies_ns
      in and_ret (percentile_at xs 50) (\<lambda>p50. and_ret (percentile_at xs 90) (\<lambda>p90.
         and_ret (percentile_at xs 99) (\<lambda>p99. Ret (p50, p90, p99)))))"

section \<open>The scorecard\<close>

datatype HardwareGrade = GradeAPlus | GradeA | GradeB | GradeC | GradeF

fun grade_as_str :: "HardwareGrade \<Rightarrow> string" where
  "grade_as_str GradeAPlus = ''A+ (Institutional HFT Colocation)''"
| "grade_as_str GradeA = ''A  (High-Performance Bare Metal / Cloud)''"
| "grade_as_str GradeB = ''B  (Standard Cloud Virtualized / High-Spec Laptop)''"
| "grade_as_str GradeC = ''C  (Standard Developer Workstation / VM)''"
| "grade_as_str GradeF = ''F  (Unsuitable / Extreme Jitter Detected)''"

record HardwareScorecard =
  rdtsc_overhead_ns :: f64
  core_ping_pong_p50_ns :: f64
  core_ping_pong_p90_ns :: f64
  core_ping_pong_p99_ns :: f64
  max_scheduler_jitter_us :: f64
  shm_throughput_mb_sec :: f64
  card_grade :: HardwareGrade
  recommended_tier :: HardwareTier
  card_logical_cores :: nat
  card_physical_cores :: nat
  card_hypervisor :: string

definition f64_lt :: "f64 \<Rightarrow> f64 \<Rightarrow> bool" where
  "f64_lt x y \<longleftrightarrow> \<not> f64_is_nan x \<and> \<not> f64_is_nan y \<and> f64_key x < f64_key y"

text \<open>The literals \<open>5.0, 35.0, 50.0, 75.0, 150.0, 200.0, 1000.0\<close> of the comparisons.\<close>

abbreviation f5 :: f64 where "f5 \<equiv> 0x4014000000000000"
abbreviation f35 :: f64 where "f35 \<equiv> 0x4041800000000000"
abbreviation f50 :: f64 where "f50 \<equiv> 0x4049000000000000"
abbreviation f75 :: f64 where "f75 \<equiv> 0x4052C00000000000"
abbreviation f150 :: f64 where "f150 \<equiv> 0x4062C00000000000"
abbreviation f200 :: f64 where "f200 \<equiv> 0x4069000000000000"
abbreviation f1000 :: f64 where "f1000 \<equiv> 0x408F400000000000"

definition grade_of :: "f64 \<Rightarrow> f64 \<Rightarrow> HardwareTier \<Rightarrow> HardwareGrade \<times> HardwareTier" where
  "grade_of p50 jitter_us tier =
     (if f64_lt p50 f35 \<and> f64_lt jitter_us f5 \<and> tier = Tier3EnterpriseBareMetal
      then (GradeAPlus, Tier3EnterpriseBareMetal)
      else if f64_lt p50 f75 \<and> f64_lt jitter_us f50 then (GradeA, Tier2CloudVirtualized)
      else if f64_lt p50 f150 \<and> f64_lt jitter_us f200 then (GradeB, Tier2CloudVirtualized)
      else if f64_lt jitter_us f1000 then (GradeC, Tier1MidRange)
      else (GradeF, Tier1MidRange))"

definition compute_scorecard ::
  "(string \<Rightarrow> string option) \<Rightarrow> f64 \<Rightarrow> f64 \<Rightarrow> f64 \<Rightarrow> f64 \<Rightarrow> f64 \<Rightarrow> f64 \<Rightarrow> MockHardwareProbe \<Rightarrow> HardwareScorecard" where
  "compute_scorecard env rdtsc_ns p50 p90 p99 jitter_us shm_mb_s probe =
     (let profile = negotiate_profile env probe None;
          (grade, recommended) = grade_of p50 jitter_us (profile_tier profile)
      in \<lparr>rdtsc_overhead_ns = rdtsc_ns, core_ping_pong_p50_ns = p50, core_ping_pong_p90_ns = p90,
          core_ping_pong_p99_ns = p99, max_scheduler_jitter_us = jitter_us, shm_throughput_mb_sec = shm_mb_s,
          card_grade = grade, recommended_tier = recommended,
          card_logical_cores = total_logical_cores (profile_cpu profile),
          card_physical_cores = total_physical_cores (profile_cpu profile),
          card_hypervisor = hypervisor_as_str (profile_hypervisor profile)\<rparr>)"

section \<open>The configuration file\<close>

fun wait_policy :: "HardwareTier \<Rightarrow> string" where
  "wait_policy Tier3EnterpriseBareMetal = ''BusySpin''"
| "wait_policy Tier2CloudVirtualized = ''HybridAdaptive''"
| "wait_policy Tier1MidRange = ''PowerEfficient''"

fun shm_slots :: "HardwareTier \<Rightarrow> nat" where
  "shm_slots Tier3EnterpriseBareMetal = 65536"
| "shm_slots Tier2CloudVirtualized = 16384"
| "shm_slots Tier1MidRange = 4096"

text \<open>The names that \<open>{:?}\<close> prints.\<close>

fun tier_debug :: "HardwareTier \<Rightarrow> string" where
  "tier_debug Tier1MidRange = ''Tier1MidRange''"
| "tier_debug Tier2CloudVirtualized = ''Tier2CloudVirtualized''"
| "tier_debug Tier3EnterpriseBareMetal = ''Tier3EnterpriseBareMetal''"

definition rule_line :: bytes where
  "rule_line = bstr ''# ==============================================================================''"

text \<open>The lines of the file; \<open>fmt\<close> renders a float with two decimals.\<close>

definition config_lines :: "(f64 \<Rightarrow> bytes) \<Rightarrow> HardwareScorecard \<Rightarrow> bytes list" where
  "config_lines fmt sc =
     (let q = (\<lambda>s. bstr ''\"'' @ bstr s @ bstr ''\"'')
      in [rule_line,
          bstr ''# Chain-Market-Price Calibrated Configuration'',
          bstr ''# Auto-generated by '' @ [39] @ bstr ''cmp-calibrate'' @ [39] @ bstr '' on AutoCalibrated'',
          bstr ''# Host Qualification Grade: '' @ bstr (grade_as_str (card_grade sc)),
          rule_line,
          [],
          bstr ''[hardware]'',
          bstr ''detected_tier = '' @ q (tier_debug (recommended_tier sc)),
          bstr ''recommended_tier = '' @ q (tier_debug (recommended_tier sc)),
          bstr ''logical_cores = '' @ dec (card_logical_cores sc),
          bstr ''physical_cores = '' @ dec (card_physical_cores sc),
          bstr ''hypervisor = '' @ q (card_hypervisor sc),
          [],
          bstr ''[sync]'',
          bstr ''wait_strategy = '' @ q (wait_policy (recommended_tier sc)),
          bstr ''spin_limit = 256'',
          bstr ''yield_limit = 1024'',
          bstr ''enable_burst_promotion = true'',
          [],
          bstr ''[shm]'',
          bstr ''ring_slots = '' @ dec (shm_slots (recommended_tier sc)),
          bstr ''slot_size_bytes = 64'',
          bstr ''backend_policy = '' @ q ''CascadeFallback'',
          [],
          bstr ''[telemetry]'',
          bstr ''rdtsc_overhead_ns = '' @ fmt (rdtsc_overhead_ns sc),
          bstr ''core_ping_pong_p50_ns = '' @ fmt (core_ping_pong_p50_ns sc),
          bstr ''max_scheduler_jitter_us = '' @ fmt (max_scheduler_jitter_us sc)])"

text \<open>The file is created and written; either can fail. The result is what the file then holds.\<close>

definition generate_config_toml :: "(f64 \<Rightarrow> bytes) \<Rightarrow> bool \<Rightarrow> bool \<Rightarrow> HardwareScorecard \<Rightarrow> (string + unit) \<times> bytes option" where
  "generate_config_toml fmt can_create can_write sc =
     (if \<not> can_create then (Inl ''create'', None)
      else if \<not> can_write then (Inl ''write'', Some [])
      else (Inr (), Some (unlines (config_lines fmt sc))))"

section \<open>The command line\<close>

record calibrate_args =
  json_mode :: bool
  out_config :: string
  command :: string

text \<open>The arguments behind the program name.\<close>

fun calibrate_scan :: "string list \<Rightarrow> string \<Rightarrow> string \<Rightarrow> string \<times> string" where
  "calibrate_scan [] out cmd = (out, cmd)"
| "calibrate_scan [a] out cmd = (out, if a \<noteq> ''--json'' \<and> take 1 a \<noteq> ''-'' then a else cmd)"
| "calibrate_scan (a # b # as) out cmd =
     (if a = ''--output'' then calibrate_scan as b cmd
      else if a = ''--json'' then calibrate_scan (b # as) out cmd
      else if take 1 a \<noteq> ''-'' then calibrate_scan (b # as) out a
      else calibrate_scan (b # as) out cmd)"

definition calibrate_parse :: "string list \<Rightarrow> calibrate_args" where
  "calibrate_parse args = (case calibrate_scan (drop 1 args) ''cmp-config.toml'' ''full'' of
     (out, cmd) \<Rightarrow> \<lparr>json_mode = list_ex (\<lambda>a. a = ''--json'') args, out_config = out, command = cmd\<rparr>)"

text \<open>What a command runs, with its iterations; anything else is the full suite.\<close>

datatype calibrate_run = RunTsc nat | RunCoreLatency nat | RunJitter nat | RunShm nat | RunFull nat nat nat nat

definition calibrate_dispatch :: "string \<Rightarrow> calibrate_run" where
  "calibrate_dispatch cmd =
     (if cmd = ''tsc'' then RunTsc 1000000
      else if cmd = ''core-latency'' then RunCoreLatency 10000
      else if cmd = ''jitter'' then RunJitter 50
      else if cmd = ''shm'' then RunShm 256
      else RunFull 500000 10000 30 128)"

text \<open>The report of the full suite in JSON mode.\<close>

definition json_scorecard :: "(f64 \<Rightarrow> bytes) \<Rightarrow> HardwareScorecard \<Rightarrow> bytes" where
  "json_scorecard fmt sc =
     bstr ''{\"grade\":\"'' @ bstr (grade_as_str (card_grade sc)) @
     bstr ''\",\"recommended_tier\":\"'' @ bstr (tier_debug (recommended_tier sc)) @
     bstr ''\",\"logical_cores\":'' @ dec (card_logical_cores sc) @
     bstr '',\"physical_cores\":'' @ dec (card_physical_cores sc) @
     bstr '',\"hypervisor\":\"'' @ bstr (card_hypervisor sc) @
     bstr ''\",\"rdtsc_overhead_ns\":'' @ fmt (rdtsc_overhead_ns sc) @
     bstr '',\"core_ping_pong_p50_ns\":'' @ fmt (core_ping_pong_p50_ns sc) @
     bstr '',\"core_ping_pong_p90_ns\":'' @ fmt (core_ping_pong_p90_ns sc) @
     bstr '',\"core_ping_pong_p99_ns\":'' @ fmt (core_ping_pong_p99_ns sc) @
     bstr '',\"max_scheduler_jitter_us\":'' @ fmt (max_scheduler_jitter_us sc) @
     bstr '',\"shm_throughput_mb_sec\":'' @ fmt (shm_throughput_mb_sec sc) @ bstr ''}'' @ [10]"

section \<open>The ping-pong: every round is answered\<close>

fun main_at :: "u64 \<Rightarrow> ping_pong \<Rightarrow> pp_main \<Rightarrow> bool" where
  "main_at n s (MStore i) = (1 \<le> i \<and> i \<le> n \<and> flag1 s = i - 1 \<and> flag2 s = i - 1 \<and> latencies s + 1 = unat i \<and> \<not> stop_flag s)"
| "main_at n s (MWait i) = (1 \<le> i \<and> i \<le> n \<and> flag1 s = i \<and> latencies s + 1 = unat i \<and> \<not> stop_flag s)"
| "main_at n s MStop = (flag1 s = n \<and> latencies s = unat n \<and> \<not> stop_flag s)"
| "main_at n s MBump = (flag1 s = n \<and> latencies s = unat n \<and> stop_flag s)"
| "main_at n s MJoin = (flag1 s = n + 1 \<and> latencies s = unat n \<and> stop_flag s)"
| "main_at n s MDone = (flag1 s = n + 1 \<and> latencies s = unat n \<and> stop_flag s \<and> resp_pc s = RExit)"

fun resp_at :: "ping_pong \<Rightarrow> pp_resp \<Rightarrow> bool" where
  "resp_at s (RCompare val) = (val \<le> flag1 s)"
| "resp_at s (RStore val) = (val \<le> flag1 s \<and> flag2 s < val)"
| "resp_at s RExit = stop_flag s"
| "resp_at s _ = True"

definition pp_inv :: "u64 \<Rightarrow> ping_pong \<Rightarrow> bool" where
  "pp_inv n s \<longleftrightarrow> flag2 s \<le> flag1 s \<and> main_at n s (main_pc s) \<and> resp_at s (resp_pc s)"

lemma pp_inv_init: "pp_inv n (pp_init n)"
  by (auto simp: pp_inv_def pp_init_def not_le word_less_1)

lemma resp_step_inv: "pp_inv n s \<Longrightarrow> pp_inv n (resp_step s)"
  by (cases "resp_pc s"; cases "main_pc s") (auto simp: pp_inv_def resp_step_def)

lemma word_step:
  fixes i n :: u64
  assumes "i < n"
  shows "1 \<le> i + 1" "i + 1 \<le> n" "unat (i + 1) = unat i + 1"
proof -
  have "unat n < 2 ^ LENGTH(64)" by (rule unsigned_less)
  then have "unat i + 1 < 2 ^ 64" using assms by (simp add: word_less_nat_alt)
  then show u: "unat (i + 1) = unat i + 1" by (intro unat_Suc_nowrap) simp
  show "1 \<le> i + 1" "i + 1 \<le> n" using assms u by (simp_all add: word_le_nat_alt word_less_nat_alt)
qed

lemma word_pred:
  fixes i :: u64
  assumes "1 \<le> i"
  shows "i - 1 \<le> i"
  using assms by (simp add: word_le_nat_alt unat_sub_nowrap)

lemma resp_at_mono:
  "resp_at s pc \<Longrightarrow> flag1 s \<le> flag1 s' \<Longrightarrow> flag2 s' = flag2 s \<Longrightarrow> stop_flag s \<longrightarrow> stop_flag s' \<Longrightarrow> resp_at s' pc"
  by (cases pc) auto

lemma main_step_inv:
  assumes inv: "pp_inv n s" and n: "n < - 1"
  shows "pp_inv n (main_step n s)"
proof (cases "main_pc s")
  case (MStore i)
  then have m: "1 \<le> i" "i \<le> n" "flag1 s = i - 1" "flag2 s = i - 1" "latencies s + 1 = unat i" "\<not> stop_flag s"
    and r: "resp_at s (resp_pc s)" using inv by (simp_all add: pp_inv_def)
  let ?s = "s\<lparr>flag1 := i, main_pc := MWait i\<rparr>"
  have "resp_at ?s (resp_pc s)" using word_pred [OF m(1)] m by (intro resp_at_mono [OF r]) simp_all
  then show ?thesis using m word_pred [OF m(1)] by (simp add: pp_inv_def main_step_def MStore)
next
  case (MWait i)
  then have m: "1 \<le> i" "i \<le> n" "flag1 s = i" "latencies s + 1 = unat i" "\<not> stop_flag s" "flag2 s \<le> i"
    and r: "resp_at s (resp_pc s)" using inv by (auto simp: pp_inv_def)
  show ?thesis
  proof (cases "flag2 s < i")
    case True
    then show ?thesis using inv by (simp add: main_step_def MWait)
  next
    case False
    then have f: "flag2 s = i" using m(6) by simp
    let ?s = "s\<lparr>latencies := latencies s + 1, main_pc := (if i < n then MStore (i + 1) else MStop)\<rparr>"
    have r': "resp_at ?s (resp_pc s)" by (intro resp_at_mono [OF r]) simp_all
    show ?thesis
    proof (cases "i < n")
      case True
      then show ?thesis using m f r' False word_step [OF True] by (simp add: pp_inv_def main_step_def MWait)
    next
      case n: False
      then have "i = n" using m(2) by simp
      then show ?thesis using m f r' False n by (simp add: pp_inv_def main_step_def MWait)
    qed
  qed
next
  case MStop
  have "resp_at (s\<lparr>stop_flag := True, main_pc := MBump\<rparr>) (resp_pc s)"
    by (rule resp_at_mono [of s]) (use inv in \<open>simp_all add: pp_inv_def\<close>)
  then show ?thesis using inv by (auto simp: pp_inv_def main_step_def MStop)
next
  case MBump
  have le: "n \<le> n + 1" using word_step(3) [OF n] by (simp add: word_le_nat_alt)
  have "resp_at (s\<lparr>flag1 := flag1 s + 1, main_pc := MJoin\<rparr>) (resp_pc s)"
    by (rule resp_at_mono [of s]) (use inv le in \<open>simp_all add: pp_inv_def MBump\<close>)
  then show ?thesis using inv le by (auto simp: pp_inv_def main_step_def MBump)
next
  case MJoin
  then show ?thesis using inv by (auto simp: pp_inv_def main_step_def)
next
  case MDone
  then show ?thesis using inv by (auto simp: pp_inv_def main_step_def)
qed

lemma pp_reachable_inv: "pp_reachable n s \<Longrightarrow> n < - 1 \<Longrightarrow> pp_inv n s"
  by (induction rule: pp_reachable.induct) (simp_all add: pp_inv_init main_step_inv resp_step_inv)

text \<open>While the measuring thread waits, seven steps of the other thread answer, and the answer stays.\<close>

lemma resp_step_at:
  "resp_pc s = RCheck \<Longrightarrow> resp_step s = s\<lparr>resp_pc := if stop_flag s then RExit else RLoad\<rparr>"
  "resp_pc s = RLoad \<Longrightarrow> resp_step s = s\<lparr>resp_pc := RCompare (flag1 s)\<rparr>"
  "resp_pc s = RCompare val \<Longrightarrow> resp_step s = s\<lparr>resp_pc := if flag2 s < val then RStore val else RCheck\<rparr>"
  "resp_pc s = RStore val \<Longrightarrow> resp_step s = s\<lparr>flag2 := val, resp_pc := RCheck\<rparr>"
  "resp_pc s = RExit \<Longrightarrow> resp_step s = s"
  by (simp_all add: resp_step_def)

lemma funpow_split: "j \<le> k \<Longrightarrow> (f ^^ k) x = (f ^^ (k - j)) ((f ^^ j) x)"
  by (metis le_add_diff_inverse2 funpow_add o_apply)

lemma resp_step_keeps [simp]:
  "main_pc (resp_step s) = main_pc s" "flag1 (resp_step s) = flag1 s" "stop_flag (resp_step s) = stop_flag s"
  "latencies (resp_step s) = latencies s"
  by (simp_all add: resp_step_def split: pp_resp.split)

lemma resp_steps_keep [simp]:
  "main_pc ((resp_step ^^ k) s) = main_pc s" "flag1 ((resp_step ^^ k) s) = flag1 s"
  "stop_flag ((resp_step ^^ k) s) = stop_flag s"
  by (induction k) simp_all

lemma resp_steps_inv: "pp_inv n s \<Longrightarrow> pp_inv n ((resp_step ^^ k) s)"
  by (induction k) (simp_all add: resp_step_inv)

lemma answer_stays:
  assumes "pp_inv n s" "flag2 s = flag1 s"
  shows "flag2 ((resp_step ^^ k) s) = flag1 s"
proof (induction k)
  case (Suc k)
  let ?s = "(resp_step ^^ k) s"
  have "resp_at ?s (resp_pc ?s)" using resp_steps_inv [OF assms(1), of k] by (simp add: pp_inv_def)
  then show ?case using Suc by (cases "resp_pc ?s") (auto simp: resp_step_at)
qed (simp add: assms(2))

lemma answered_from_check:
  assumes "pp_inv n s" "\<not> stop_flag s" "resp_pc s = RCheck" "4 \<le> k"
  shows "flag2 ((resp_step ^^ k) s) = flag1 s"
proof (cases "flag2 s = flag1 s")
  case True
  then show ?thesis by (rule answer_stays [OF assms(1)])
next
  case False
  then have less: "flag2 s < flag1 s" using assms(1) by (auto simp: pp_inv_def)
  let ?t = "(resp_step ^^ 4) s"
  have t: "?t = s\<lparr>resp_pc := RCheck, flag2 := flag1 s\<rparr>"
    using assms(2,3) less by (simp add: resp_step_at eval_nat_numeral)
  have "(resp_step ^^ k) s = (resp_step ^^ (k - 4)) ?t"
    using assms(4) by (rule funpow_split)
  moreover have "flag2 ((resp_step ^^ (k - 4)) ?t) = flag1 s"
    using answer_stays [OF resp_steps_inv [OF assms(1)], of 4 "k - 4"] t by simp
  ultimately show ?thesis by simp
qed

lemma answered_in_time:
  assumes inv: "pp_inv n s" and run: "\<not> stop_flag s" and k: "7 \<le> k"
  shows "flag2 ((resp_step ^^ k) s) = flag1 s"
proof -
  have "\<exists>j \<le> 3. resp_pc ((resp_step ^^ j) s) = RCheck"
  proof (cases "resp_pc s")
    case RCheck
    then show ?thesis by (intro exI [of _ 0]) simp
  next
    case (RStore val)
    then show ?thesis by (intro exI [of _ 1]) (simp add: resp_step_at)
  next
    case (RCompare val)
    then show ?thesis
      by (cases "flag2 s < val", intro exI [of _ 2], simp add: resp_step_at eval_nat_numeral,
          intro exI [of _ 1], simp add: resp_step_at)
  next
    case RLoad
    then show ?thesis
      by (cases "flag2 s < flag1 s", intro exI [of _ 3], simp add: resp_step_at eval_nat_numeral,
          intro exI [of _ 2], simp add: resp_step_at eval_nat_numeral)
  next
    case RExit
    then show ?thesis using inv run by (simp add: pp_inv_def)
  qed
  then obtain j where j: "j \<le> 3" "resp_pc ((resp_step ^^ j) s) = RCheck" by blast
  have "(resp_step ^^ k) s = (resp_step ^^ (k - j)) ((resp_step ^^ j) s)"
    using k j(1) by (intro funpow_split) simp
  then show ?thesis using answered_from_check [OF resp_steps_inv [OF inv] _ j(2), of "k - j"] run k j(1) by simp
qed

lemma exits_in_time:
  assumes "stop_flag s" "5 \<le> k"
  shows "resp_pc ((resp_step ^^ k) s) = RExit"
proof -
  have stay: "resp_pc s = RExit \<Longrightarrow> (resp_step ^^ j) s = s" for j s by (induction j) (simp_all add: resp_step_at)
  have "resp_pc ((resp_step ^^ 5) s) = RExit" using assms(1)
    by (cases "resp_pc s") (simp_all add: resp_step_at eval_nat_numeral)
  moreover have "(resp_step ^^ k) s = (resp_step ^^ (k - 5)) ((resp_step ^^ 5) s)"
    using assms(2) by (rule funpow_split)
  ultimately show ?thesis using stay by simp
qed

text \<open>A schedule that gives the answering thread \<open>k\<close> steps and then the measuring thread one, for each \<open>k\<close> of a
  list, and how many steps the measuring thread still has to make.\<close>

definition pp_block :: "u64 \<Rightarrow> nat \<Rightarrow> ping_pong \<Rightarrow> ping_pong" where
  "pp_block n k s = main_step n ((resp_step ^^ k) s)"

fun main_left :: "u64 \<Rightarrow> pp_main \<Rightarrow> nat" where
  "main_left n (MStore i) = 2 * (unat n - unat i) + 5"
| "main_left n (MWait i) = 2 * (unat n - unat i) + 4"
| "main_left n MStop = 3"
| "main_left n MBump = 2"
| "main_left n MJoin = 1"
| "main_left n MDone = 0"

lemma pp_block_progress:
  assumes inv: "pp_inv n s" and n: "n < - 1" and k: "7 \<le> k"
  shows "main_left n (main_pc (pp_block n k s)) = main_left n (main_pc s) - 1"
proof -
  let ?t = "(resp_step ^^ k) s"
  have m: "main_at n s (main_pc s)" using inv by (simp add: pp_inv_def)
  show ?thesis
  proof (cases "main_pc s")
    case (MWait i)
    then have a: "flag2 ?t = i" using m answered_in_time [OF inv _ k] by simp
    have "unat n - unat i = Suc (unat n - unat (i + 1))" if "i < n"
      using word_step [OF that] that by (simp add: word_less_nat_alt)
    then show ?thesis using a m MWait by (auto simp: pp_block_def main_step_def not_less)
  next
    case MJoin
    then have "resp_pc ?t = RExit" using m k by (intro exits_in_time) simp_all
    then show ?thesis using MJoin by (simp add: pp_block_def main_step_def)
  qed (simp_all add: pp_block_def main_step_def)
qed

lemma pp_block_inv: "pp_inv n s \<Longrightarrow> n < - 1 \<Longrightarrow> pp_inv n (pp_block n k s)"
  unfolding pp_block_def by (intro main_step_inv resp_steps_inv)

lemma pp_blocks_progress:
  assumes "pp_inv n s" "n < - 1" "\<forall>k \<in> set ks. 7 \<le> k"
  shows "pp_inv n (fold (pp_block n) ks s) \<and> main_left n (main_pc (fold (pp_block n) ks s)) = main_left n (main_pc s) - length ks"
  using assms by (induction ks arbitrary: s) (simp_all add: pp_block_inv pp_block_progress)

section \<open>Ranks and grades\<close>

lemma sorted_rank_le:
  assumes "sorted (map f ys)" "i < length ys"
  shows "i < length (filter (\<lambda>y. f y \<le> f (ys ! i)) ys)"
proof -
  have "filter (\<lambda>y. f y \<le> f (ys ! i)) (take (Suc i) ys) = take (Suc i) ys"
    using assms by (auto simp: filter_id_conv in_set_conv_nth sorted_iff_nth_mono)
  moreover have "filter P ys = filter P (take (Suc i) ys) @ filter P (drop (Suc i) ys)" for P
    by (metis append_take_drop_id filter_append)
  ultimately show ?thesis using assms(2) by simp
qed

lemma sorted_rank_ge:
  assumes "sorted (map f ys)" "i < length ys"
  shows "length ys - i \<le> length (filter (\<lambda>y. f (ys ! i) \<le> f y) ys)"
proof -
  have "filter (\<lambda>y. f (ys ! i) \<le> f y) (drop i ys) = drop i ys"
    using assms by (auto simp: filter_id_conv in_set_conv_nth sorted_iff_nth_mono)
  moreover have "filter P ys = filter P (take i ys) @ filter P (drop i ys)" for P
    by (metis append_take_drop_id filter_append)
  ultimately show ?thesis by simp
qed

text \<open>A value is a percentile of samples when more than that share of them is not above it and the rest is not below.\<close>

definition is_percentile :: "f64 list \<Rightarrow> nat \<Rightarrow> f64 \<Rightarrow> bool" where
  "is_percentile xs p v \<longleftrightarrow> v \<in> set xs \<and> length xs * p div 100 < length (filter (\<lambda>x. f64_key x \<le> f64_key v) xs) \<and>
     length xs - length xs * p div 100 \<le> length (filter (\<lambda>x. f64_key v \<le> f64_key x) xs)"

lemma length_filter_sort_key: "length (filter P (sort_key f xs)) = length (filter P xs)"
  by (simp add: filter_sort)

lemma percentile_at_sorted:
  assumes "xs \<noteq> []" "p < 100"
  shows "\<exists>v. percentile_at (sort_key f64_key xs) p = Ret v \<and> is_percentile xs p v \<and>
    v = sort_key f64_key xs ! (length xs * p div 100) \<and> length xs * p div 100 < length xs"
proof -
  let ?ys = "sort_key f64_key xs" and ?i = "length xs * p div 100"
  have "length xs * p < length xs * 100" using assms by simp
  then have i: "?i < length xs" by (simp add: less_mult_imp_div_less)
  then have "is_percentile xs p (?ys ! ?i)"
    using sorted_rank_le [of f64_key ?ys ?i] sorted_rank_ge [of f64_key ?ys ?i] nth_mem [of ?i ?ys]
    by (simp add: is_percentile_def length_filter_sort_key)
  then show ?thesis using i by (simp add: percentile_at_def)
qed

fun grade_rank :: "HardwareGrade \<Rightarrow> nat" where
  "grade_rank GradeAPlus = 4" | "grade_rank GradeA = 3" | "grade_rank GradeB = 2" | "grade_rank GradeC = 1" | "grade_rank GradeF = 0"

lemma f64_lt_le_trans: "f64_ge y x \<Longrightarrow> f64_lt y z \<Longrightarrow> f64_lt x z"
  by (auto simp: f64_ge_def f64_lt_def)

section \<open>Reading the configuration back\<close>

text \<open>The value of the first line that begins with the key.\<close>

definition config_get :: "string \<Rightarrow> bytes \<Rightarrow> bytes option" where
  "config_get key content =
     map_option (drop (length key + 3)) (find (\<lambda>l. starts_with l (bstr (key @ '' = ''))) (str_lines content))"

fun kind_name :: "WaitStrategyKind \<Rightarrow> string" where
  "kind_name BusySpin = ''BusySpin''"
| "kind_name HybridAdaptive = ''HybridAdaptive''"
| "kind_name PowerEfficient = ''PowerEfficient''"
| "kind_name BurstMode = ''BurstMode''"

lemma clean_append [simp]: "clean_line (xs @ ys) \<longleftrightarrow> clean_line xs \<and> clean_line ys"
  by (auto simp: clean_line_def)

lemma clean_dec [simp]: "clean_line (dec n)"
  by (auto simp: clean_line_def dest: dec_plain)

lemma clean_tier_names [simp]: "clean_line (bstr (tier_debug t)) \<and> clean_line (bstr (wait_policy t))"
  by (cases t) (simp_all add: clean_line_def bstr_def)

lemma clean_grade_names [simp]: "clean_line (bstr (grade_as_str g))"
  by (cases g) (simp_all add: clean_line_def bstr_def)

lemma config_lines_clean:
  assumes "\<And>x. clean_line (fmt x)" "clean_line (bstr (card_hypervisor sc))"
  shows "\<forall>l \<in> set (config_lines fmt sc). clean_line l"
  using assms by (simp add: config_lines_def rule_line_def) (simp add: clean_line_def bstr_def)

lemma config_get_lines:
  assumes "\<And>x. clean_line (fmt x)" "clean_line (bstr (card_hypervisor sc))"
  shows "config_get ''wait_strategy'' (unlines (config_lines fmt sc)) = Some (bstr (''\"'' @ wait_policy (recommended_tier sc) @ ''\"''))"
    and "config_get ''ring_slots'' (unlines (config_lines fmt sc)) = Some (dec (shm_slots (recommended_tier sc)))"
    and "config_get ''logical_cores'' (unlines (config_lines fmt sc)) = Some (dec (card_logical_cores sc))"
  unfolding config_get_def str_lines_unlines [OF config_lines_clean [OF assms]]
  by (simp_all add: config_lines_def rule_line_def starts_with_def bstr_def)

section \<open>Properties\<close>



text \<open>The three latencies reported are percentiles of the samples, in order; without samples the program panics.\<close>

theorem core_percentiles_ranked:
  "(if xs = [] then core_percentiles xs = Panic
    else \<exists>p50 p90 p99. core_percentiles xs = Ret (p50, p90, p99) \<and>
      is_percentile xs 50 p50 \<and> is_percentile xs 90 p90 \<and> is_percentile xs 99 p99 \<and>
      f64_key p50 \<le> f64_key p90 \<and> f64_key p90 \<le> f64_key p99)"
proof (cases "xs = []")
  case True
  then show ?thesis by (simp add: core_percentiles_def percentile_at_def Let_def)
next
  case False
  let ?ys = "sort_key f64_key xs" and ?i = "\<lambda>p. length xs * p div 100"
  obtain a b c where v: "percentile_at ?ys 50 = Ret a" "is_percentile xs 50 a" "a = ?ys ! ?i 50"
      "percentile_at ?ys 90 = Ret b" "is_percentile xs 90 b" "b = ?ys ! ?i 90" "?i 90 < length xs"
      "percentile_at ?ys 99 = Ret c" "is_percentile xs 99 c" "c = ?ys ! ?i 99" "?i 99 < length xs"
    using percentile_at_sorted [OF False, of 50] percentile_at_sorted [OF False, of 90] percentile_at_sorted [OF False, of 99]
    by auto
  have mono: "f64_key (?ys ! i) \<le> f64_key (?ys ! j)" if "i \<le> j" "j < length xs" for i j
    using sorted_nth_mono [of "map f64_key ?ys" i j] that by simp
  have "?i 50 \<le> ?i 90" "?i 90 \<le> ?i 99" by (simp_all add: div_le_mono)
  then have "f64_key a \<le> f64_key b" "f64_key b \<le> f64_key c" using v mono by simp_all
  then show ?thesis using v False by (simp add: core_percentiles_def Let_def)
qed

text \<open>Better measurements never lower the grade, the top grade is kept for hosts of the bare-metal tier, and the
  recommended tier is never above what the grade allows.\<close>

theorem grade_monotone:
  assumes "f64_ge p50 p50'" and "f64_ge jitter jitter'"
  shows "grade_rank (fst (grade_of p50 jitter tier)) \<le> grade_rank (fst (grade_of p50' jitter' tier)) \<and>
    (fst (grade_of p50 jitter tier) = GradeAPlus \<longleftrightarrow> snd (grade_of p50 jitter tier) = Tier3EnterpriseBareMetal) \<and>
    (snd (grade_of p50 jitter tier) = Tier3EnterpriseBareMetal \<longrightarrow> tier = Tier3EnterpriseBareMetal)"
  using f64_lt_le_trans [OF assms(1)] f64_lt_le_trans [OF assms(2)] by (auto simp: grade_of_def)

theorem grade_monotone_witness:
  "grade_rank (fst (grade_of f75 f50 Tier1MidRange)) \<le> grade_rank (fst (grade_of f50 f5 Tier1MidRange)) \<and>
   fst (grade_of f50 f5 Tier1MidRange) = GradeA"
proof -
  have "f64_ge f75 f50" "f64_ge f50 f5" by (simp_all add: f64_ge_def f64_is_nan_def f64_key_def)
  from grade_monotone [OF this, of Tier1MidRange] show ?thesis
    by (simp add: grade_of_def f64_lt_def f64_is_nan_def f64_key_def)
qed

text \<open>The configuration that is written for a host agrees with what the engine itself would choose for the
  recommended tier: read back from the file, the waiting strategy is the kind of the strategy for that tier
  and the number of slots is the capacity of the shared-memory ring for that tier, a power of two; the core
  count is that of the probe.\<close>

theorem config_matches_runtime:
  assumes "\<And>x. clean_line (fmt x)" and "clean_line (bstr (hypervisor_as_str (mock_hypervisor probe)))"
    and "sc = compute_scorecard env rdtsc p50 p90 p99 jitter mb probe"
    and "generate_config_toml fmt True True sc = (res, Some content)"
  shows "config_get ''wait_strategy'' content =
      Some (bstr (''\"'' @ kind_name (dyn_kind now (for_tier now (recommended_tier sc))) @ ''\"'')) \<and>
    Option.bind (config_get ''ring_slots'' content) parse_unsigned = Some (cfg_capacity (config_for_tier (recommended_tier sc))) \<and>
    is_power_of_two (cfg_capacity (config_for_tier (recommended_tier sc))) \<and>
    config_get ''logical_cores'' content = Some (dec (total_logical_cores (mock_cpu probe)))"
proof -
  have h: "card_hypervisor sc = hypervisor_as_str (mock_hypervisor probe)" "card_logical_cores sc = total_logical_cores (mock_cpu probe)"
    using assms(3) by (simp_all add: compute_scorecard_def negotiate_profile_def Let_def case_prod_beta split: option.splits)
  have c: "content = unlines (config_lines fmt sc)" using assms(4) by (simp add: generate_config_toml_def)
  have "wait_policy t = kind_name (dyn_kind now (for_tier now t))" for t
    by (cases t) (simp_all add: busy_kind_def power_kind_def burst_kind_def is_in_burst_mode_def burst_new_def hybrid_kind_def)
  moreover have "parse_unsigned (dec (shm_slots t)) = Some (cfg_capacity (config_for_tier t))" for t
    by (cases t) (simp_all add: parse_unsigned_dec)
  moreover have "is_power_of_two (cfg_capacity (config_for_tier t))" for t
    unfolding is_power_of_two_def list_ex_iff
    by (cases t, rule bexI [of _ 12], simp_all, rule bexI [of _ 14], simp_all, rule bexI [of _ 16], simp_all)
  ultimately show ?thesis using config_get_lines [of fmt sc] assms(1,2) h unfolding c by simp
qed

theorem config_matches_runtime_witness:
  "\<exists>content. generate_config_toml (\<lambda>_. bstr ''1.00'') True True
       (compute_scorecard (\<lambda>_. None) f5 f35 f50 f75 f5 f1000 new_tier2_aws_nitro) = (Inr (), Some content) \<and>
     Option.bind (config_get ''ring_slots'' content) parse_unsigned = Some 16384"
proof -
  let ?sc = "compute_scorecard (\<lambda>_. None) f5 f35 f50 f75 f5 f1000 new_tier2_aws_nitro"
  obtain content where g: "generate_config_toml (\<lambda>_. bstr ''1.00'') True True ?sc = (Inr (), Some content)"
    by (simp add: generate_config_toml_def)
  have "recommended_tier ?sc = Tier2CloudVirtualized"
    by (simp add: compute_scorecard_def grade_of_def f64_lt_def f64_is_nan_def f64_key_def Let_def)
  moreover have "clean_line (bstr ''1.00'')" "clean_line (bstr (hypervisor_as_str (mock_hypervisor new_tier2_aws_nitro)))"
    by (simp_all add: clean_line_def bstr_def new_tier2_aws_nitro_def)
  ultimately show ?thesis using config_matches_runtime [OF _ _ refl g] g by auto
qed

end
